(* ===== verification/Prelude.thy ===== *)
theory Prelude
  imports
    Complex_Main
    "HOL-Library.Word"
    "HOL-Library.AList"
    "HOL-Library.Multiset"
begin

text \<open>
  Shared vocabulary of the development.  The source is Python, so the prelude fixes how
  the language's own notions are read: an exception is a value of \<open>pyerr\<close> on the left of a
  sum, a statement sequence that may raise is \<open>ebind\<close>, a \<open>float\<close> that may be infinite is a
  \<open>pyfloat\<close> (ordered, without NaN; finite values are exact reals), a \<open>dict\<close> is an
  association list in insertion order (\<open>AList.update\<close> overwrites in place or appends, as
  Python does), and \<open>bytes\<close> is a list of 8-bit words.
\<close>

unbundle bit_operations_syntax

named_theorems err_simps \<open>equations for raising and sequencing\<close>
named_theorems dict_simps \<open>equations for dictionaries in insertion order\<close>
named_theorems float_simps \<open>equations for floats with infinities\<close>

section \<open>Exceptions\<close>

type_synonym byte = "8 word"

datatype pyerr =
    ValueError string
  | UnicodeEncodeError
  | UnicodeDecodeError
  | IndexError
  | KeyError string
  | RuntimeError string
  | AssertionError
  | TimeoutError string
  | SyncOutcomeCancelled string
  | ClosedResourceError

text \<open>Sequencing of statements that may raise: the first exception wins.\<close>

fun ebind :: "'e + 'a \<Rightarrow> ('a \<Rightarrow> 'e + 'b) \<Rightarrow> 'e + 'b" where
  "ebind (Inl e) f = Inl e"
| "ebind (Inr x) f = f x"

lemma ebind_cong [fundef_cong]:
  "m = m' \<Longrightarrow> (\<And>x. m' = Inr x \<Longrightarrow> f x = f' x) \<Longrightarrow> ebind m f = ebind m' f'"
  by (cases m') auto

lemma ebind_Inr_conv [err_simps]:
  "ebind m f = Inr y \<longleftrightarrow> (\<exists>x. m = Inr x \<and> f x = Inr y)"
  by (cases m) auto

lemma ebind_Inl_conv [err_simps]:
  "ebind m f = Inl e \<longleftrightarrow> m = Inl e \<or> (\<exists>x. m = Inr x \<and> f x = Inl e)"
  by (cases m) auto

lemma ebind_assoc: "ebind (ebind m f) g = ebind m (\<lambda>x. ebind (f x) g)"
  by (cases m) auto

lemma ebind_Inr_right [simp]: "ebind m Inr = m"
  by (cases m) auto

lemma ebind_InrE:
  assumes "ebind m f = Inr y"
  obtains x where "m = Inr x" and "f x = Inr y"
  using assms by (auto simp: err_simps)

text \<open>A \<open>for\<close> loop that collects results and stops at the first exception.\<close>

fun emap :: "('a \<Rightarrow> 'e + 'b) \<Rightarrow> 'a list \<Rightarrow> 'e + 'b list" where
  "emap f [] = Inr []"
| "emap f (x # xs) = ebind (f x) (\<lambda>y. ebind (emap f xs) (\<lambda>ys. Inr (y # ys)))"

lemma emap_Inr_all: "(\<And>x. x \<in> set xs \<Longrightarrow> f x = Inr (g x)) \<Longrightarrow> emap f xs = Inr (map g xs)"
  by (induction xs) auto

lemma emap_length: "emap f xs = Inr ys \<Longrightarrow> length ys = length xs"
  by (induction xs arbitrary: ys) (auto simp: err_simps)

lemma emap_nth: "emap f xs = Inr ys \<Longrightarrow> i < length xs \<Longrightarrow> f (xs ! i) = Inr (ys ! i)"
  by (induction xs arbitrary: ys i) (auto simp: err_simps nth_Cons split: nat.splits)

lemma emap_append:
  "emap f (xs @ ys) = ebind (emap f xs) (\<lambda>a. ebind (emap f ys) (\<lambda>b. Inr (a @ b)))"
  by (induction xs) (auto simp: ebind_assoc)

lemma emap_cong [fundef_cong]:
  "xs = ys \<Longrightarrow> (\<And>x. x \<in> set ys \<Longrightarrow> f x = g x) \<Longrightarrow> emap f xs = emap g ys"
  by (induction xs arbitrary: ys) auto

section \<open>Floats with infinities\<close>

datatype pyfloat = NInf | Fin real | PInf

instantiation pyfloat :: linorder
begin

fun less_eq_pyfloat :: "pyfloat \<Rightarrow> pyfloat \<Rightarrow> bool" where
  "less_eq_pyfloat NInf y = True"
| "less_eq_pyfloat (Fin a) (Fin b) = (a \<le> b)"
| "less_eq_pyfloat x PInf = True"
| "less_eq_pyfloat x y = False"

definition less_pyfloat :: "pyfloat \<Rightarrow> pyfloat \<Rightarrow> bool" where
  "less_pyfloat x y \<longleftrightarrow> x \<le> y \<and> \<not> y \<le> x"

instance
proof
  fix x y z :: pyfloat
  show "x < y \<longleftrightarrow> x \<le> y \<and> \<not> y \<le> x" by (rule less_pyfloat_def)
  show "x \<le> x" by (cases x) auto
  show "x \<le> y \<Longrightarrow> y \<le> z \<Longrightarrow> x \<le> z" by (cases x; cases y; cases z) auto
  show "x \<le> y \<Longrightarrow> y \<le> x \<Longrightarrow> x = y" by (cases x; cases y) auto
  show "x \<le> y \<or> y \<le> x" by (cases x; cases y) auto
qed

end

lemma pyfloat_top [simp, float_simps]: "x \<le> PInf" "PInf \<le> x \<longleftrightarrow> x = PInf"
  by (cases x, simp_all)+

lemma pyfloat_bot [simp, float_simps]: "NInf \<le> x" "x \<le> NInf \<longleftrightarrow> x = NInf"
  by (simp, cases x, simp_all)

lemma less_pyfloat_simps [simp, float_simps]:
  "Fin a < Fin b \<longleftrightarrow> a < b" "Fin a < PInf" "\<not> PInf < x" "\<not> x < NInf" "NInf < Fin a" "NInf < PInf"
  by (simp_all add: less_pyfloat_def less_le_not_le)

lemma min_Fin [simp, float_simps]: "min (Fin a) (Fin b) = Fin (min a b)"
  by (simp add: min_def)

lemma min_PInf [simp, float_simps]: "min x PInf = x" "min PInf x = x"
  by (simp_all add: min_def)

text \<open>Python's \<open>min\<close> over a non-empty collection; \<open>inf\<close> on the empty one where the code says so.\<close>

fun pymin :: "pyfloat list \<Rightarrow> pyfloat" where
  "pymin [] = PInf"
| "pymin (x # xs) = min x (pymin xs)"

lemma pymin_le: "x \<in> set xs \<Longrightarrow> pymin xs \<le> x"
  by (induction xs) (auto simp: min_le_iff_disj)

lemma pymin_in: "xs \<noteq> [] \<Longrightarrow> pymin xs \<in> set xs"
  by (induction xs rule: induct_list012) (auto simp: min_def)

lemma pymin_greatest: "xs \<noteq> [] \<Longrightarrow> (\<And>x. x \<in> set xs \<Longrightarrow> d \<le> x) \<Longrightarrow> d \<le> pymin xs"
  using pymin_in by blast

section \<open>Dictionaries in insertion order\<close>

abbreviation dict_get :: "('k \<times> 'v) list \<Rightarrow> 'k \<Rightarrow> 'v option" where
  "dict_get d k \<equiv> map_of d k"

abbreviation dict_set :: "'k \<Rightarrow> 'v \<Rightarrow> ('k \<times> 'v) list \<Rightarrow> ('k \<times> 'v) list" where
  "dict_set k v d \<equiv> AList.update k v d"

abbreviation dict_del :: "'k \<Rightarrow> ('k \<times> 'v) list \<Rightarrow> ('k \<times> 'v) list" where
  "dict_del k d \<equiv> AList.delete k d"

text \<open>Python's keys are distinct; this is kept by every dictionary operation.\<close>

abbreviation dict_ok :: "('k \<times> 'v) list \<Rightarrow> bool" where
  "dict_ok d \<equiv> distinct (map fst d)"

lemma dict_get_set [simp, dict_simps]:
  "dict_get (dict_set k v d) k' = (if k' = k then Some v else dict_get d k')"
  by (simp add: update_conv)

lemma dict_get_del [simp, dict_simps]:
  "dict_get (dict_del k d) k' = (if k' = k then None else dict_get d k')"
  by (simp add: delete_conv)

lemma dict_set_fresh [dict_simps]: "dict_get d k = None \<Longrightarrow> dict_set k v d = d @ [(k, v)]"
  by (induction d) (auto split: if_splits)

lemma dict_set_keys_mem [simp, dict_simps]: "fst ` set (dict_set k v d) = insert k (fst ` set d)"
  by (induction d) auto

lemma dict_ok_set [simp]: "dict_ok d \<Longrightarrow> dict_ok (dict_set k v d)"
  by (rule distinct_update)

lemma dict_ok_del [simp]: "dict_ok d \<Longrightarrow> dict_ok (dict_del k d)"
  by (rule distinct_delete)

lemma dict_ok_filter [simp]: "dict_ok d \<Longrightarrow> dict_ok (filter P d)"
  by (rule distinct_map_filter)

lemma dict_get_filter:
  assumes "dict_ok d"
  shows "dict_get (filter P d) k = (case dict_get d k of None \<Rightarrow> None
     | Some v \<Rightarrow> if P (k, v) then Some v else None)"
  using assms
proof (induction d)
  case (Cons p d)
  have "dict_get d (fst p) = None"
    using Cons.prems by (simp add: map_of_eq_None_iff)
  with Cons show ?case by (cases p) (auto split: option.splits)
qed simp

section \<open>Bytes\<close>

text \<open>A byte from its value; the value is always below 256 where the source appends to a
  \<open>bytearray\<close>.\<close>

definition byte_of :: "nat \<Rightarrow> byte" where
  "byte_of n = word_of_nat n"

lemma unat_byte_of [simp]: "n < 256 \<Longrightarrow> unat (byte_of n) = n"
  by (simp add: byte_of_def unat_of_nat)

lemma byte_of_unat [simp]: "byte_of (unat b) = b"
  by (simp add: byte_of_def)

lemma unat_byte_less [simp]: "unat (b :: byte) < 256"
  using unsigned_less [where 'b = 8 and 'a = nat, of b] by simp

section \<open>Bit operations on naturals\<close>

named_theorems bits7 \<open>the seven-bit groups of a varint as arithmetic\<close>

lemma or_push_bit_add: "r < 2 ^ s \<Longrightarrow> r OR push_bit s x = r + x * 2 ^ s" for r x :: nat
proof -
  assume "r < 2 ^ s"
  then have "take_bit s r = r" by (rule take_bit_nat_eq_self)
  then have "r AND push_bit s x = take_bit s r AND push_bit s x" by simp
  also have "\<dots> = 0" by (rule bit_eqI) (simp add: bit_simps)
  finally have "r OR push_bit s x = r + push_bit s x" by (simp add: disjunctive_add_eq_or)
  then show ?thesis by (simp add: push_bit_eq_mult)
qed

lemma and_0x7F [bits7]: "n AND 0x7F = n mod 128" for n :: nat
  using take_bit_eq_mask [of 7 n] by (simp add: take_bit_eq_mod mask_eq_exp_minus_1)

lemma and_0x07 [bits7]: "n AND 0x07 = n mod 8" for n :: nat
  using take_bit_eq_mask [of 3 n] by (simp add: take_bit_eq_mod mask_eq_exp_minus_1)

lemma drop_bit_7 [bits7]: "drop_bit 7 n = n div 128" for n :: nat
  by (simp add: drop_bit_eq_div)

lemma drop_bit_3 [bits7]: "drop_bit 3 n = n div 8" for n :: nat
  by (simp add: drop_bit_eq_div)

lemma or_0x80 [bits7]: "n < 128 \<Longrightarrow> n OR 0x80 = n + 128" for n :: nat
  using or_push_bit_add [of n 7 1] by simp

lemma and_0x80: "n < 256 \<Longrightarrow> n AND 0x80 = 0 \<longleftrightarrow> n < 128" for n :: nat
proof -
  assume "n < 256"
  have "n AND 0x80 = 0 \<longleftrightarrow> \<not> bit n 7"
    using bit_iff_and_push_bit_not_eq_0 [of n 7] by simp
  also have "\<dots> \<longleftrightarrow> n < 128"
  proof (cases "n < 128")
    case False
    with \<open>n < 256\<close> have "n div 128 = 1" by (intro div_nat_eqI) simp_all
    with False show ?thesis by (simp add: bit_iff_odd)
  qed (simp add: bit_iff_odd)
  finally show ?thesis .
qed

section \<open>Lists and sums\<close>

lemma sum_list_butlast_last:
  "xs \<noteq> [] \<Longrightarrow> sum_list (map f xs) = sum_list (map f (butlast xs)) + (f (last xs) :: nat)"
  by (induction xs rule: rev_induct) auto

lemma take_append_slice: "take n (drop (length xs) (xs @ ys)) = take n ys"
  by simp

lemma mset_concat_map: "mset (concat (map f xs)) = (\<Sum>x\<in>#mset xs. mset (f x))"
  by (induction xs) auto

end
