(* ===== verification/Md5_Vectors.thy ===== *)
theory Md5_Vectors
  imports Md5
begin

text \<open>A test vector of RFC 1321, evaluated inside the kernel: the digest of "abc".\<close>

lemma md5_abc:
  "md5 [0x61, 0x62, 0x63] = [0x90, 0x01, 0x50, 0x98, 0x3c, 0xd2, 0x4f, 0xb0, 0xd6,
     0x96, 0x3f, 0x7d, 0x28, 0xe1, 0x7f, 0x72]"
  by code_simp

end
