(* ===== verification/Python_Str.thy ===== *)
theory Python_Str
  imports Prelude
begin

text \<open>
  The part of Python's \<open>str\<close> and \<open>int\<close> that the source relies on: a string is its list of
  code points; \<open>str.encode("utf-8")\<close> and strict \<open>bytes.decode("utf-8")\<close>; \<open>int(s)\<close> on digit
  strings, with the interpreter's limit on the number of digits; \<open>str(n)\<close>; \<open>str.isascii\<close> and
  \<open>str.isdigit\<close> over the Unicode character database.  The lemmas give the two round trips
  (text through UTF-8 in both directions, naturals through decimal notation).
\<close>

type_synonym pystr = "nat list"

definition lit :: "string \<Rightarrow> pystr" where
  "lit s = map of_char s"

lemma lit_append [simp]: "lit (a @ b) = lit a @ lit b"
  by (simp add: lit_def)

section \<open>UTF-8\<close>

text \<open>One code point; surrogates cannot be encoded, nothing above U+10FFFF exists.\<close>

definition utf8_char :: "nat \<Rightarrow> pyerr + byte list" where
  "utf8_char c =
     (if c < 0x80 then Inr [byte_of c]
      else if c < 0x800 then Inr [byte_of (0xC0 + c div 0x40), byte_of (0x80 + c mod 0x40)]
      else if 0xD800 \<le> c \<and> c \<le> 0xDFFF then Inl UnicodeEncodeError
      else if c < 0x10000 then
        Inr [byte_of (0xE0 + c div 0x1000), byte_of (0x80 + c div 0x40 mod 0x40),
             byte_of (0x80 + c mod 0x40)]
      else if c < 0x110000 then
        Inr [byte_of (0xF0 + c div 0x40000), byte_of (0x80 + c div 0x1000 mod 0x40),
             byte_of (0x80 + c div 0x40 mod 0x40), byte_of (0x80 + c mod 0x40)]
      else Inl UnicodeEncodeError)"

definition utf8_encode :: "pystr \<Rightarrow> pyerr + byte list" where
  "utf8_encode s = ebind (emap utf8_char s) (\<lambda>bss. Inr (concat bss))"

text \<open>
  The strict decoder rejects stray continuation bytes, truncated sequences, overlong forms,
  surrogates and code points above U+10FFFF (the well-formed byte sequences of the standard).
\<close>

definition is_cont :: "byte \<Rightarrow> bool" where
  "is_cont b \<longleftrightarrow> 0x80 \<le> unat b \<and> unat b \<le> 0xBF"

definition cont_val :: "byte \<Rightarrow> nat" where
  "cont_val b = unat b - 0x80"

definition utf8_next :: "byte list \<Rightarrow> (nat \<times> byte list) option" where
  "utf8_next bs =
    (case bs of
       [] \<Rightarrow> None
     | b # bs \<Rightarrow>
       let n = unat b in
       if n < 0x80 then Some (n, bs)
       else if 0xC2 \<le> n \<and> n \<le> 0xDF then
         (case bs of
            c1 # r \<Rightarrow> if is_cont c1 then Some ((n - 0xC0) * 0x40 + cont_val c1, r) else None
          | _ \<Rightarrow> None)
       else if 0xE0 \<le> n \<and> n \<le> 0xEF then
         (case bs of
            c1 # c2 # r \<Rightarrow>
              let c = (n - 0xE0) * 0x1000 + cont_val c1 * 0x40 + cont_val c2 in
              if is_cont c1 \<and> is_cont c2 \<and> 0x800 \<le> c \<and> \<not> (0xD800 \<le> c \<and> c \<le> 0xDFFF)
              then Some (c, r) else None
          | _ \<Rightarrow> None)
       else if 0xF0 \<le> n \<and> n \<le> 0xF4 then
         (case bs of
            c1 # c2 # c3 # r \<Rightarrow>
              let c = (n - 0xF0) * 0x40000 + cont_val c1 * 0x1000 + cont_val c2 * 0x40 + cont_val c3 in
              if is_cont c1 \<and> is_cont c2 \<and> is_cont c3 \<and> 0x10000 \<le> c \<and> c < 0x110000
              then Some (c, r) else None
          | _ \<Rightarrow> None)
       else None)"

lemma utf8_next_shorter: "utf8_next bs = Some (c, r) \<Longrightarrow> length r < length bs"
  by (auto simp: utf8_next_def Let_def split: list.splits if_splits)

function utf8_decode :: "byte list \<Rightarrow> pyerr + pystr" where
  "utf8_decode bs =
     (if bs = [] then Inr []
      else case utf8_next bs of
        None \<Rightarrow> Inl UnicodeDecodeError
      | Some (c, r) \<Rightarrow> ebind (utf8_decode r) (\<lambda>s. Inr (c # s)))"
  by pat_completeness auto
termination
  by (relation "measure length") (auto dest: utf8_next_shorter)

declare utf8_decode.simps [simp del]

lemma utf8_decode_Nil [simp]: "utf8_decode [] = Inr []"
  by (simp add: utf8_decode.simps)

lemma utf8_decode_next:
  "utf8_next bs = Some (c, r) \<Longrightarrow> utf8_decode bs = ebind (utf8_decode r) (\<lambda>s. Inr (c # s))"
  using utf8_next_shorter [of bs c r] by (subst utf8_decode.simps) auto

lemma utf8_decode_error: "utf8_decode bs = Inl e \<Longrightarrow> e = UnicodeDecodeError"
proof (induction bs rule: utf8_decode.induct)
  case (1 bs)
  from "1.prems" show ?case
    by (subst (asm) utf8_decode.simps) (auto simp: err_simps split: if_splits option.splits dest: "1.IH")
qed

text \<open>The strings that \<open>encode\<close> accepts: Unicode scalar values.\<close>

definition scalar :: "nat \<Rightarrow> bool" where
  "scalar c \<longleftrightarrow> c < 0xD800 \<or> (0xDFFF < c \<and> c < 0x110000)"

lemma utf8_char_Inr_iff: "(\<exists>bs. utf8_char c = Inr bs) \<longleftrightarrow> scalar c"
  by (auto simp: utf8_char_def scalar_def)

lemma utf8_encode_Inr_iff: "(\<exists>bs. utf8_encode s = Inr bs) \<longleftrightarrow> (\<forall>c\<in>set s. scalar c)"
proof (induction s)
  case (Cons c s)
  have "(\<exists>bs. utf8_encode (c # s) = Inr bs) \<longleftrightarrow>
      (\<exists>b. utf8_char c = Inr b) \<and> (\<exists>bs. utf8_encode s = Inr bs)"
    by (auto simp: utf8_encode_def err_simps)
  with Cons.IH show ?case by (simp add: utf8_char_Inr_iff)
qed (simp add: utf8_encode_def)

lemma utf8_encode_Nil [simp]: "utf8_encode [] = Inr []"
  by (simp add: utf8_encode_def)

lemma utf8_encode_Cons:
  "utf8_encode (c # s) = ebind (utf8_char c) (\<lambda>b. ebind (utf8_encode s) (\<lambda>bs. Inr (b @ bs)))"
  by (simp add: utf8_encode_def ebind_assoc)

text \<open>Decoding what one code point was encoded to, by the length of the sequence.\<close>

lemma utf8_next_1: "c < 0x80 \<Longrightarrow> utf8_next (byte_of c # r) = Some (c, r)"
  by (simp add: utf8_next_def)

lemma utf8_next_2:
  assumes "2 \<le> q" "q < 0x20" "m < 0x40"
  shows "utf8_next (byte_of (0xC0 + q) # byte_of (0x80 + m) # r) = Some (q * 0x40 + m, r)"
  using assms by (simp add: utf8_next_def is_cont_def cont_val_def)

lemma utf8_next_3:
  assumes "q < 0x10" "m1 < 0x40" "m2 < 0x40" and c: "c = q * 0x1000 + m1 * 0x40 + m2"
    and "0x800 \<le> c" "\<not> (0xD800 \<le> c \<and> c \<le> 0xDFFF)"
  shows "utf8_next (byte_of (0xE0 + q) # byte_of (0x80 + m1) # byte_of (0x80 + m2) # r) = Some (c, r)"
  using assms(1-3,5,6) by (simp add: utf8_next_def is_cont_def cont_val_def Let_def flip: c)

lemma utf8_next_4:
  assumes "q < 5" "m1 < 0x40" "m2 < 0x40" "m3 < 0x40"
    and c: "c = q * 0x40000 + m1 * 0x1000 + m2 * 0x40 + m3" and "0x10000 \<le> c" "c < 0x110000"
  shows "utf8_next (byte_of (0xF0 + q) # byte_of (0x80 + m1) # byte_of (0x80 + m2) #
      byte_of (0x80 + m3) # r) = Some (c, r)"
  using assms(1-4,6,7) by (simp add: utf8_next_def is_cont_def cont_val_def Let_def flip: c)

lemma split_0x1000: "c div 0x1000 * 0x1000 + c div 0x40 mod 0x40 * 0x40 + c mod 0x40 = (c :: nat)"
proof -
  have "c div 0x1000 = c div 0x40 div 0x40" by (simp add: div_mult2_eq [symmetric])
  moreover have "c div 0x40 div 0x40 * 0x40 + c div 0x40 mod 0x40 = c div 0x40" by (rule div_mult_mod_eq)
  moreover have "c div 0x40 * 0x40 + c mod 0x40 = c" by (rule div_mult_mod_eq)
  ultimately show ?thesis by linarith
qed

lemma split_0x40000:
  "c div 0x40000 * 0x40000 + c div 0x1000 mod 0x40 * 0x1000 + c div 0x40 mod 0x40 * 0x40
     + c mod 0x40 = (c :: nat)"
proof -
  have "c div 0x40000 = c div 0x1000 div 0x40" by (simp add: div_mult2_eq [symmetric])
  moreover have "c div 0x1000 div 0x40 * 0x40 + c div 0x1000 mod 0x40 = c div 0x1000"
    by (rule div_mult_mod_eq)
  ultimately show ?thesis using split_0x1000 [of c] by linarith
qed

lemma utf8_next_char:
  assumes "utf8_char c = Inr b"
  shows "utf8_next (b @ r) = Some (c, r)"
proof -
  consider "c < 0x80" | "0x80 \<le> c" "c < 0x800"
    | "0x800 \<le> c" "c < 0x10000" "\<not> (0xD800 \<le> c \<and> c \<le> 0xDFFF)" | "0x10000 \<le> c" "c < 0x110000"
    using assms by (fastforce simp: utf8_char_def split: if_splits)
  then show ?thesis
  proof cases
    case 1
    with assms show ?thesis by (auto simp: utf8_char_def utf8_next_1)
  next
    case 2
    then have "2 \<le> c div 0x40" "c div 0x40 < 0x20" by simp_all
    from utf8_next_2 [OF this, of "c mod 0x40" r] 2 assms show ?thesis
      by (auto simp: utf8_char_def)
  next
    case 3
    then have "c div 0x1000 < 0x10" by simp
    from utf8_next_3 [OF this _ _ split_0x1000 [symmetric] 3(1) 3(3), of r] 3 assms show ?thesis
      by (auto simp: utf8_char_def)
  next
    case 4
    then have "c div 0x40000 < 5" by simp
    from utf8_next_4 [OF this _ _ _ split_0x40000 [symmetric] 4, of r] 4 assms show ?thesis
      by (auto simp: utf8_char_def)
  qed
qed

theorem utf8_decode_encode: "utf8_encode s = Inr bs \<Longrightarrow> utf8_decode bs = Inr s"
proof (induction s arbitrary: bs)
  case (Cons c s)
  then obtain b bs' where "utf8_char c = Inr b" "utf8_encode s = Inr bs'" "bs = b @ bs'"
    by (auto simp: utf8_encode_Cons err_simps)
  with Cons.IH show ?case by (simp add: utf8_decode_next [OF utf8_next_char])
qed simp

section \<open>Digits, \<open>int(s)\<close> and \<open>str(n)\<close>\<close>

text \<open>
  The zeros of the 66 runs of ten decimal digits (general category Nd) and the further code
  points for which \<open>str.isdigit\<close> holds (superscripts, circled digits and the like), both from
  the Unicode character database of CPython 3.11.
\<close>

definition nd_zeros :: "nat list" where
  "nd_zeros = [
    0x30, 0x660, 0x6f0, 0x7c0, 0x966, 0x9e6, 0xa66, 0xae6, 0xb66, 0xbe6, 0xc66, 0xce6, 0xd66,
    0xde6, 0xe50, 0xed0, 0xf20, 0x1040, 0x1090, 0x17e0, 0x1810, 0x1946, 0x19d0, 0x1a80, 0x1a90,
    0x1b50, 0x1bb0, 0x1c40, 0x1c50, 0xa620, 0xa8d0, 0xa900, 0xa9d0, 0xa9f0, 0xaa50, 0xabf0,
    0xff10, 0x104a0, 0x10d30, 0x11066, 0x110f0, 0x11136, 0x111d0, 0x112f0, 0x11450, 0x114d0,
    0x11650, 0x116c0, 0x11730, 0x118e0, 0x11950, 0x11c50, 0x11d50, 0x11da0, 0x16a60, 0x16ac0,
    0x16b50, 0x1d7ce, 0x1d7d8, 0x1d7e2, 0x1d7ec, 0x1d7f6, 0x1e140, 0x1e2f0, 0x1e950, 0x1fbf0]"

definition digit_ranges :: "(nat \<times> nat) list" where
  "digit_ranges = [
    (0xb2, 0xb3), (0xb9, 0xb9), (0x1369, 0x1371), (0x19da, 0x19da), (0x2070, 0x2070),
    (0x2074, 0x2079), (0x2080, 0x2089), (0x2460, 0x2468), (0x2474, 0x247c), (0x2488, 0x2490),
    (0x24ea, 0x24ea), (0x24f5, 0x24fd), (0x24ff, 0x24ff), (0x2776, 0x277e), (0x2780, 0x2788),
    (0x278a, 0x2792), (0x10a40, 0x10a43), (0x10e60, 0x10e68), (0x11052, 0x1105a),
    (0x1f100, 0x1f10a)]"

definition decimal_value :: "nat \<Rightarrow> nat option" where
  "decimal_value c =
     (case List.find (\<lambda>z. z \<le> c \<and> c < z + 10) nd_zeros of None \<Rightarrow> None | Some z \<Rightarrow> Some (c - z))"

definition char_isdigit :: "nat \<Rightarrow> bool" where
  "char_isdigit c \<longleftrightarrow> decimal_value c \<noteq> None \<or> list_ex (\<lambda>(a, b). a \<le> c \<and> c \<le> b) digit_ranges"

definition str_isdigit :: "pystr \<Rightarrow> bool" where
  "str_isdigit s \<longleftrightarrow> s \<noteq> [] \<and> list_all char_isdigit s"

definition str_isascii :: "pystr \<Rightarrow> bool" where
  "str_isascii s \<longleftrightarrow> list_all (\<lambda>c. c < 0x80) s"

definition ascii_digit :: "nat \<Rightarrow> bool" where
  "ascii_digit c \<longleftrightarrow> 0x30 \<le> c \<and> c \<le> 0x39"

text \<open>The interpreter's default limit on the digits of a decimal string conversion.\<close>

definition int_max_str_digits :: nat where
  "int_max_str_digits = 4300"

fun digits_value :: "nat \<Rightarrow> nat list \<Rightarrow> nat" where
  "digits_value acc [] = acc"
| "digits_value acc (d # ds) = digits_value (acc * 10 + d) ds"

text \<open>
  \<open>int(s)\<close> on the strings the source passes to it, which consist of characters that some digit
  test accepted: every character must have a decimal value, and there is a limit on their number.
\<close>

definition py_int :: "pystr \<Rightarrow> pyerr + int" where
  "py_int s =
     (if s = [] \<or> \<not> list_all (\<lambda>c. decimal_value c \<noteq> None) s
      then Inl (ValueError ''invalid literal for int() with base 10'')
      else if int_max_str_digits < length s
      then Inl (ValueError ''Exceeds the limit (4300 digits) for integer string conversion'')
      else Inr (int (digits_value 0 (map (\<lambda>c. the (decimal_value c)) s))))"

fun str_of_nat :: "nat \<Rightarrow> pystr" where
  "str_of_nat n = (if n < 10 then [0x30 + n] else str_of_nat (n div 10) @ [0x30 + n mod 10])"

declare str_of_nat.simps [simp del]

definition str_of_int :: "int \<Rightarrow> pystr" where
  "str_of_int i = (if i < 0 then 0x2D # str_of_nat (nat (- i)) else str_of_nat (nat i))"

lemma decimal_value_ascii [simp]: "ascii_digit c \<Longrightarrow> decimal_value c = Some (c - 0x30)"
  by (simp add: decimal_value_def nd_zeros_def ascii_digit_def)

lemma char_isdigit_ascii [simp]: "ascii_digit c \<Longrightarrow> char_isdigit c"
  by (simp add: char_isdigit_def)

lemma decimal_value_lt: "decimal_value c = Some d \<Longrightarrow> d < 10"
  by (auto simp: decimal_value_def find_Some_iff split: option.splits)

lemma digits_value_append: "digits_value acc (xs @ ys) = digits_value (digits_value acc xs) ys"
  by (induction xs arbitrary: acc) auto

lemma py_int_ascii:
  assumes "s \<noteq> []" "list_all ascii_digit s" "length s \<le> int_max_str_digits"
  shows "py_int s = Inr (int (digits_value 0 (map (\<lambda>c. c - 0x30) s)))"
proof -
  have "list_all (\<lambda>c. decimal_value c \<noteq> None) s"
    using assms(2) by (induction s) auto
  moreover have "map (\<lambda>c. the (decimal_value c)) s = map (\<lambda>c. c - 0x30) s"
    using assms(2) by (induction s) auto
  ultimately show ?thesis using assms by (simp add: py_int_def del: map_eq_conv)
qed

lemma str_of_nat_digits: "list_all ascii_digit (str_of_nat n) \<and> str_of_nat n \<noteq> []"
proof (induction n rule: str_of_nat.induct)
  case (1 n)
  show ?case
  proof (cases "n < 10")
    case True
    then show ?thesis by (simp add: str_of_nat.simps [of n] ascii_digit_def)
  next
    case False
    moreover have "n mod 10 \<le> 9" by simp
    ultimately show ?thesis
      using "1.IH" by (simp add: str_of_nat.simps [of n] ascii_digit_def)
  qed
qed

lemma digits_value_str_of_nat: "digits_value 0 (map (\<lambda>c. c - 0x30) (str_of_nat n)) = n"
proof (induction n rule: str_of_nat.induct)
  case (1 n)
  then show ?case
    by (cases "n < 10") (simp_all add: str_of_nat.simps [of n] digits_value_append)
qed

lemma length_str_of_nat: "n < 10 ^ Suc k \<Longrightarrow> length (str_of_nat n) \<le> Suc k"
proof (induction k arbitrary: n)
  case 0
  then show ?case by (simp add: str_of_nat.simps [of n])
next
  case (Suc k)
  then have "n div 10 < 10 ^ Suc k" by (simp add: less_mult_imp_div_less)
  from Suc.IH [OF this] show ?case by (simp add: str_of_nat.simps [of n])
qed

theorem py_int_str_of_nat:
  "length (str_of_nat n) \<le> int_max_str_digits \<Longrightarrow> py_int (str_of_nat n) = Inr (int n)"
  using str_of_nat_digits [of n] by (simp add: py_int_ascii digits_value_str_of_nat)

end
