(* ===== verification/Hashing.thy ===== *)
theory Hashing
  imports Python_Str Md5
begin

text \<open>
  Model of \<^verbatim>\<open>src/aiokpl/hashing.py\<close>: the 128-bit hash key of a partition key (MD5 of its UTF-8
  bytes read as a big-endian integer) and the parser of a user-supplied explicit hash key.
\<close>

definition UINT128_MAX :: int where
  "UINT128_MAX = 2 ^ 128 - 1"

text \<open>\<open>int.from_bytes(digest, "big")\<close>\<close>

definition from_bytes_big :: "byte list \<Rightarrow> int" where
  "from_bytes_big bs = foldl (\<lambda>acc b. acc * 256 + int (unat b)) 0 bs"

definition md5_hash_key :: "pystr \<Rightarrow> pyerr + int" where
  "md5_hash_key partition_key =
     ebind (utf8_encode partition_key) (\<lambda>bs. Inr (from_bytes_big (md5 bs)))"

definition parse_explicit_hash_key :: "pystr \<Rightarrow> pyerr + int" where
  "parse_explicit_hash_key s =
     (if s = [] \<or> \<not> str_isascii s \<or> \<not> list_all ascii_digit s
      then Inl (ValueError ''not a canonical decimal uint128'')
      else ebind (py_int s) (\<lambda>value.
        if UINT128_MAX < value
        then Inl (ValueError ''explicit hash key out of uint128 range'')
        else Inr value))"

lemma from_bytes_big_snoc:
  "from_bytes_big (bs @ [b]) = from_bytes_big bs * 256 + int (unat b)"
  by (simp add: from_bytes_big_def)

lemma from_bytes_big_range: "0 \<le> from_bytes_big bs \<and> from_bytes_big bs < 256 ^ length bs"
proof (induction bs rule: rev_induct)
  case Nil
  show ?case by (simp add: from_bytes_big_def)
next
  case (snoc b bs)
  have "int (unat b) < 256" using unat_byte_less [of b] by linarith
  moreover have "from_bytes_big bs + 1 \<le> 256 ^ length bs" using snoc.IH by linarith
  ultimately have "from_bytes_big bs * 256 + int (unat b) < 256 ^ length bs * 256" by linarith
  then show ?case using snoc.IH by (simp add: from_bytes_big_snoc mult.commute)
qed

lemma ascii_digits_ascii: "list_all ascii_digit s \<Longrightarrow> str_isascii s"
  by (auto simp: str_isascii_def ascii_digit_def list_all_iff)

lemma parse_explicit_hash_key_digits:
  assumes "s \<noteq> []" "list_all ascii_digit s" "length s \<le> int_max_str_digits"
  shows "parse_explicit_hash_key s =
    (let value = int (digits_value 0 (map (\<lambda>c. c - 0x30) s)) in
     if UINT128_MAX < value then Inl (ValueError ''explicit hash key out of uint128 range'')
     else Inr value)"
  using assms by (simp add: parse_explicit_hash_key_def py_int_ascii ascii_digits_ascii Let_def)

lemma parse_explicit_hash_key_range:
  assumes "parse_explicit_hash_key s = Inr h"
  shows "0 \<le> h \<and> h \<le> UINT128_MAX"
proof -
  have "py_int s = Inr h" and "h \<le> UINT128_MAX"
    using assms by (auto simp: parse_explicit_hash_key_def err_simps not_less split: if_splits)
  then show ?thesis by (auto simp: py_int_def split: if_splits)
qed

lemma md5_hash_key_range:
  assumes "md5_hash_key pk = Inr h"
  shows "0 \<le> h \<and> h \<le> UINT128_MAX"
proof -
  obtain bs where "h = from_bytes_big (md5 bs)"
    using assms by (auto simp: md5_hash_key_def err_simps)
  with from_bytes_big_range [of "md5 bs"] show ?thesis by (simp add: UINT128_MAX_def)
qed

lemma parse_str_of_int:
  assumes "0 \<le> n" "n \<le> UINT128_MAX"
  shows "parse_explicit_hash_key (str_of_int n) = Inr n"
proof -
  have "nat n < 10 ^ Suc 38"
    using assms by (simp add: UINT128_MAX_def nat_less_iff)
  from length_str_of_nat [OF this] have "length (str_of_nat (nat n)) \<le> int_max_str_digits"
    by (simp add: int_max_str_digits_def)
  then show ?thesis
    using assms str_of_nat_digits [of "nat n"]
    by (simp add: str_of_int_def parse_explicit_hash_key_digits digits_value_str_of_nat)
qed

section \<open>Properties\<close>

text \<open>The decimal form \<open>str(n)\<close> of a 128-bit hash key, which the producer sends as the
  explicit hash key of an aggregated record, is parsed back to exactly \<open>n\<close>.\<close>

theorem parse_str_roundtrip:
  assumes "0 \<le> n" "n \<le> UINT128_MAX"
  shows "parse_explicit_hash_key (str_of_int n) = Inr n"
  using assms by (rule parse_str_of_int)

theorem parse_str_roundtrip_witness:
  "(0::int) \<le> 42 \<and> 42 \<le> UINT128_MAX \<and> parse_explicit_hash_key (str_of_int 42) = Inr 42"
  using parse_str_roundtrip [of 42] by (simp add: UINT128_MAX_def)

text \<open>a string is accepted as an explicit hash key exactly when it is non-empty, consists of
  ASCII digits (within the interpreter's digit limit) and denotes a number below 2 to the 128;
  the result is that number.\<close>

theorem parse_explicit_hash_key_spec:
  "parse_explicit_hash_key s = Inr h \<longleftrightarrow>
     s \<noteq> [] \<and> list_all ascii_digit s \<and> length s \<le> int_max_str_digits \<and>
     h = int (digits_value 0 (map (\<lambda>c. c - 0x30) s)) \<and> h \<le> UINT128_MAX"
proof (cases "s \<noteq> [] \<and> list_all ascii_digit s")
  case True
  then have "list_all (\<lambda>c. decimal_value c \<noteq> None) s"
    by (auto simp: list_all_iff)
  moreover have "parse_explicit_hash_key s \<noteq> Inr h" if "int_max_str_digits < length s"
    using that by (auto simp: parse_explicit_hash_key_def py_int_def)
  ultimately show ?thesis
    using True by (cases "length s \<le> int_max_str_digits")
      (auto simp: parse_explicit_hash_key_digits Let_def)
qed (auto simp: parse_explicit_hash_key_def)

text \<open>the hash key of a partition key exists for every string of Unicode scalar values and
  lies in the 128-bit range that the shards of a stream divide.\<close>

theorem md5_hash_key_total:
  assumes "\<forall>c\<in>set pk. scalar c"
  shows "\<exists>h. md5_hash_key pk = Inr h \<and> 0 \<le> h \<and> h \<le> UINT128_MAX"
proof -
  obtain bs where "utf8_encode pk = Inr bs"
    using assms utf8_encode_Inr_iff by blast
  then have "md5_hash_key pk = Inr (from_bytes_big (md5 bs))"
    by (simp add: md5_hash_key_def)
  with md5_hash_key_range show ?thesis by blast
qed

theorem md5_hash_key_total_witness:
  "\<exists>h. md5_hash_key (lit ''user-123'') = Inr h \<and> 0 \<le> h \<and> h \<le> UINT128_MAX"
proof -
  have "\<forall>c\<in>set (lit ''user-123''). scalar c" by (simp add: lit_def scalar_def)
  with md5_hash_key_total show ?thesis by blast
qed

text \<open>The parser does not insist on a canonical form: leading zeros are accepted, and the string
  that comes back from \<open>str\<close> is a different one.\<close>

lemma parse_explicit_hash_key_leading_zeros:
  "parse_explicit_hash_key (lit ''007'') = Inr 7 \<and> str_of_int 7 \<noteq> lit ''007''"
  by (simp add: parse_explicit_hash_key_digits lit_def ascii_digit_def int_max_str_digits_def
      UINT128_MAX_def str_of_int_def str_of_nat.simps)

end
