(* ===== verification/Shard_Map.thy ===== *)
theory Shard_Map
  imports Hashing "HOL-Library.Product_Lexorder"
begin

text \<open>
  Model of \<^verbatim>\<open>src/aiokpl/shard_map.py\<close>.  The replies of \<open>ListShards\<close> are inputs: a list of pages (or
  exceptions) consumed in order, a page being the response with the keys the code reads, each of
  which may be absent.  The state is the record \<open>ShardMap\<close>; a refresh or cleanup task is known by its
  cancel scope (a number, fresh for every task).  The loop \<open>while not self._closed\<close> of a refresh is
  \<open>refresh_loop\<close>, a recursion over the replies that have arrived; a refresh that still waits for a
  reply is in the state it returns.
\<close>

section \<open>Data\<close>

datatype ShardMapState = INVALID | UPDATING | READY

record Shard =
  shard_id :: int
  raw_shard_id :: pystr
  starting_hash_key :: int
  ending_hash_key :: int

record Snapshot =
  endings :: "int list"
  shard_ids :: "int list"
  shards :: "(int \<times> Shard) list"

text \<open>The response of the service, with optional keys.\<close>

record HashKeyRange =
  StartingHashKey :: "pystr option"
  EndingHashKey :: "pystr option"

record RawShard =
  ShardId :: "pystr option"
  HashKeyRange :: "HashKeyRange option"

record ListShardsPage =
  page_shards :: "RawShard list"
  NextToken :: "pystr option"

record ListShardsRequest =
  MaxResults :: nat
  req_StreamName :: "pystr option"
  ShardFilter :: "pystr option"
  StreamARN :: "pystr option"
  req_NextToken :: "pystr option"

section \<open>Parsing\<close>

text \<open>\<open>^shardId-(\d+)$\<close>: decimal digits of any script, and a newline may precede the end.\<close>

definition parse_shard_id :: "pystr \<Rightarrow> pyerr + int" where
  "parse_shard_id raw =
     (let prefix = lit ''shardId-''; suffix = drop (length prefix) raw;
          group1 = (if suffix \<noteq> [] \<and> last suffix = 10 then butlast suffix else suffix) in
      if take (length prefix) raw = prefix \<and> group1 \<noteq> [] \<and> list_all (\<lambda>c. decimal_value c \<noteq> None) group1
      then py_int group1
      else Inl (ValueError ''malformed shard id''))"

definition parse_hash_key :: "pystr \<Rightarrow> pyerr + int" where
  "parse_hash_key s =
     (if s = [] \<or> \<not> str_isascii s \<or> \<not> list_all ascii_digit s
      then Inl (ValueError ''not a canonical decimal uint128'')
      else ebind (py_int s) (\<lambda>value.
        if UINT128_MAX < value then Inl (ValueError ''hash key out of uint128 range'') else Inr value))"

text \<open>\<open>d[key]\<close> on a dictionary of the response.\<close>

definition get_item :: "string \<Rightarrow> 'a option \<Rightarrow> pyerr + 'a" where
  "get_item key v = (case v of None \<Rightarrow> Inl (KeyError key) | Some x \<Rightarrow> Inr x)"

definition build_shard :: "RawShard \<Rightarrow> pyerr + Shard" where
  "build_shard raw =
     ebind (get_item ''ShardId'' (ShardId raw)) (\<lambda>raw_id.
     ebind (parse_shard_id raw_id) (\<lambda>sid.
     ebind (get_item ''HashKeyRange'' (HashKeyRange raw)) (\<lambda>hkr.
     ebind (ebind (get_item ''StartingHashKey'' (StartingHashKey hkr)) parse_hash_key) (\<lambda>start.
     ebind (ebind (get_item ''EndingHashKey'' (EndingHashKey hkr)) parse_hash_key) (\<lambda>stop.
       if stop < start then Inl (ValueError ''starting hash key > ending hash key'')
       else Inr \<lparr>shard_id = sid, raw_shard_id = raw_id, starting_hash_key = start, ending_hash_key = stop\<rparr>)))))"

lemma parse_shard_id_digits:
  assumes "ds \<noteq> []" "list_all ascii_digit ds" "length ds \<le> int_max_str_digits"
  shows "parse_shard_id (lit ''shardId-'' @ ds) = Inr (int (digits_value 0 (map (\<lambda>c. c - 0x30) ds)))"
proof -
  have "ascii_digit (last ds)" using assms(1,2) last_in_set [of ds] by (simp add: list_all_iff)
  then have "last ds \<noteq> 10" by (auto simp: ascii_digit_def)
  moreover have "list_all (\<lambda>c. \<exists>y. decimal_value c = Some y) ds"
    using assms(2) by (auto simp: list_all_iff)
  ultimately show ?thesis using assms by (simp add: parse_shard_id_def py_int_ascii Let_def)
qed

lemma parse_hash_key_str: "0 \<le> n \<Longrightarrow> n \<le> UINT128_MAX \<Longrightarrow> parse_hash_key (str_of_int n) = Inr n"
  using parse_str_of_int [of n]
  by (auto simp: parse_hash_key_def parse_explicit_hash_key_def err_simps split: if_splits)

section \<open>Configuration and state\<close>

record shard_map_cfg =
  stream_name :: pystr
  stream_arn :: "pystr option"
  min_backoff :: real
  max_backoff :: real
  closed_shard_ttl :: real
  max_results_per_page :: nat

definition shard_map_cfg_default :: "pystr \<Rightarrow> shard_map_cfg" where
  "shard_map_cfg_default s = \<lparr>stream_name = s, stream_arn = None, min_backoff = 1, max_backoff = 30,
     closed_shard_ttl = 60, max_results_per_page = 1000\<rparr>"

record ShardMap =
  sm_state :: ShardMapState
  sm_snapshot :: Snapshot
  closed_at :: "(int \<times> real) list"
  updated_at :: "real option"
  backoff :: real
  refresh_done :: bool
  refresh_in_flight :: bool
  cleanup_scope :: "nat option"
  refresh_scope :: "nat option"
  sm_closed :: bool
  sm_tg :: bool
  refresh_tasks :: "nat list"
  cleanup_tasks :: "(nat \<times> real) list"
  next_task :: nat

definition shard_map_init :: "shard_map_cfg \<Rightarrow> ShardMap" where
  "shard_map_init cfg = \<lparr>sm_state = INVALID, sm_snapshot = \<lparr>endings = [], shard_ids = [], shards = []\<rparr>,
     closed_at = [], updated_at = None, backoff = min_backoff cfg, refresh_done = False,
     refresh_in_flight = False, cleanup_scope = None, refresh_scope = None, sm_closed = False,
     sm_tg = False, refresh_tasks = [], cleanup_tasks = [], next_task = 0\<rparr>"

definition sm_aenter :: "ShardMap \<Rightarrow> ShardMap" where
  "sm_aenter m = m\<lparr>sm_tg := True\<rparr>"

section \<open>Prediction\<close>

text \<open>The binary search of \<open>bisect.bisect_left\<close>.\<close>

function bisect_loop :: "int list \<Rightarrow> int \<Rightarrow> nat \<Rightarrow> nat \<Rightarrow> nat" where
  "bisect_loop a x lo hi =
     (if lo < hi
      then let mid = (lo + hi) div 2 in
        if a ! mid < x then bisect_loop a x (mid + 1) hi else bisect_loop a x lo mid
      else lo)"
  by pat_completeness auto
termination
  by (relation "measure (\<lambda>(a, x, lo, hi). hi - lo)") auto

declare bisect_loop.simps [simp del]

definition bisect_left :: "int list \<Rightarrow> int \<Rightarrow> nat" where
  "bisect_left a x = bisect_loop a x 0 (length a)"

definition predict :: "ShardMap \<Rightarrow> int \<Rightarrow> int option" where
  "predict m hash_key =
     (if sm_state m \<noteq> READY then None
      else let snap = sm_snapshot m; idx = bisect_left (endings snap) hash_key in
        if idx = length (endings snap) then None else Some (shard_ids snap ! idx))"

definition hashrange :: "ShardMap \<Rightarrow> int \<Rightarrow> (int \<times> int) option" where
  "hashrange m sid =
     (case dict_get (shards (sm_snapshot m)) sid of
        None \<Rightarrow> None | Some s \<Rightarrow> Some (starting_hash_key s, ending_hash_key s))"

section \<open>Fetching\<close>

definition list_shards_request :: "shard_map_cfg \<Rightarrow> pystr option \<Rightarrow> ListShardsRequest" where
  "list_shards_request cfg token =
     (case token of
        None \<Rightarrow> \<lparr>MaxResults = max_results_per_page cfg, req_StreamName = Some (stream_name cfg),
                 ShardFilter = Some (lit ''AT_LATEST''), StreamARN = stream_arn cfg, req_NextToken = None\<rparr>
      | Some tok \<Rightarrow> \<lparr>MaxResults = max_results_per_page cfg, req_StreamName = None, ShardFilter = None,
                 StreamARN = None, req_NextToken = Some tok\<rparr>)"

text \<open>The shards of a page join the dictionary and the list of endings.\<close>

fun add_shards :: "RawShard list \<Rightarrow> (int \<times> int) list \<Rightarrow> (int \<times> Shard) list
    \<Rightarrow> pyerr + (int \<times> int) list \<times> (int \<times> Shard) list" where
  "add_shards [] es sh = Inr (es, sh)"
| "add_shards (raw # raws) es sh =
     ebind (build_shard raw) (\<lambda>s.
       add_shards raws (es @ [(ending_hash_key s, shard_id s)]) (dict_set (shard_id s) s sh))"

definition make_snapshot :: "(int \<times> int) list \<Rightarrow> (int \<times> Shard) list \<Rightarrow> Snapshot" where
  "make_snapshot es sh = (let es = sort es in \<lparr>endings = map fst es, shard_ids = map snd es, shards = sh\<rparr>)"

text \<open>One call of \<open>_fetch_all_pages\<close>: the requests it makes, and, unless it still waits for a reply, its
  exception or snapshot with the replies it has not read.\<close>

fun fetch_pages :: "shard_map_cfg \<Rightarrow> pystr option \<Rightarrow> (int \<times> int) list \<Rightarrow> (int \<times> Shard) list
    \<Rightarrow> (pyerr + ListShardsPage) list
    \<Rightarrow> ListShardsRequest list \<times> ((pyerr + Snapshot) \<times> (pyerr + ListShardsPage) list) option" where
  "fetch_pages cfg token es sh [] = ([list_shards_request cfg token], None)"
| "fetch_pages cfg token es sh (Inl e # replies) = ([list_shards_request cfg token], Some (Inl e, replies))"
| "fetch_pages cfg token es sh (Inr page # replies) =
     (case add_shards (page_shards page) es sh of
        Inl e \<Rightarrow> ([list_shards_request cfg token], Some (Inl e, replies))
      | Inr (es, sh) \<Rightarrow>
          (case NextToken page of
             Some (c # cs) \<Rightarrow>
               (case fetch_pages cfg (Some (c # cs)) es sh replies of
                  (reqs, res) \<Rightarrow> (list_shards_request cfg token # reqs, res))
           | _ \<Rightarrow> ([list_shards_request cfg token], Some (Inr (make_snapshot es sh), replies))))"

definition fetch_all_pages :: "shard_map_cfg \<Rightarrow> (pyerr + ListShardsPage) list
    \<Rightarrow> ListShardsRequest list \<times> ((pyerr + Snapshot) \<times> (pyerr + ListShardsPage) list) option" where
  "fetch_all_pages cfg replies = fetch_pages cfg None [] [] replies"

section \<open>Installing and cleaning up\<close>

text \<open>The loop over the previous shards: those that disappeared are stamped and kept until their time
  is up, those that are back lose their stamp.\<close>

fun merge_closed :: "real \<Rightarrow> real \<Rightarrow> (int \<times> Shard) list \<Rightarrow> (int \<times> Shard) list
    \<Rightarrow> (int \<times> Shard) list \<Rightarrow> (int \<times> real) list \<Rightarrow> (int \<times> Shard) list \<times> (int \<times> real) list" where
  "merge_closed now ttl new_ids [] merged ca = (merged, ca)"
| "merge_closed now ttl new_ids ((sid, shard) # prev) merged ca =
     (if dict_get new_ids sid = None
      then let ca = (if dict_get ca sid = None then dict_set sid now ca else ca) in
        merge_closed now ttl new_ids prev
          (if now < the (dict_get ca sid) + ttl then dict_set sid shard merged else merged) ca
      else merge_closed now ttl new_ids prev merged (dict_del sid ca))"

definition schedule_cleanup :: "shard_map_cfg \<Rightarrow> real \<Rightarrow> ShardMap \<Rightarrow> ShardMap" where
  "schedule_cleanup cfg now m =
     (if sm_closed m then m
      else let m = (case cleanup_scope m of None \<Rightarrow> m
             | Some s \<Rightarrow> m\<lparr>cleanup_tasks := filter (\<lambda>t. fst t \<noteq> s) (cleanup_tasks m)\<rparr>) in
        if \<not> sm_tg m then m
        else m\<lparr>cleanup_scope := Some (next_task m), next_task := next_task m + 1,
               cleanup_tasks := cleanup_tasks m @ [(next_task m, now + closed_shard_ttl cfg)]\<rparr>)"

definition install_snapshot :: "shard_map_cfg \<Rightarrow> real \<Rightarrow> Snapshot \<Rightarrow> ShardMap \<Rightarrow> ShardMap" where
  "install_snapshot cfg now snap m =
     (let (merged, ca) = merge_closed now (closed_shard_ttl cfg) (shards snap)
            (shards (sm_snapshot m)) (shards snap) (closed_at m)
      in schedule_cleanup cfg now
           (m\<lparr>closed_at := ca, sm_snapshot := snap\<lparr>shards := merged\<rparr>, sm_state := READY,
              updated_at := Some now, backoff := min_backoff cfg\<rparr>))"

definition cleanup :: "shard_map_cfg \<Rightarrow> real \<Rightarrow> ShardMap \<Rightarrow> ShardMap" where
  "cleanup cfg now m =
     (let m = m\<lparr>cleanup_scope := None\<rparr> in
      if sm_closed m \<or> sm_state m \<noteq> READY then m
      else let expired = map fst (filter (\<lambda>c. snd c + closed_shard_ttl cfg \<le> now) (closed_at m)) in
        if expired = [] then m
        else m\<lparr>sm_snapshot := (sm_snapshot m)\<lparr>shards := filter (\<lambda>s. fst s \<notin> set expired) (shards (sm_snapshot m))\<rparr>,
               closed_at := filter (\<lambda>c. fst c \<notin> set expired) (closed_at m)\<rparr>)"

text \<open>The cleanup task after its sleep.\<close>

definition cleanup_task :: "shard_map_cfg \<Rightarrow> real \<Rightarrow> nat \<Rightarrow> ShardMap \<Rightarrow> ShardMap" where
  "cleanup_task cfg now scope m =
     cleanup cfg now (m\<lparr>cleanup_tasks := filter (\<lambda>t. fst t \<noteq> scope) (cleanup_tasks m)\<rparr>)"

section \<open>Refreshing\<close>

definition spawn_refresh :: "shard_map_cfg \<Rightarrow> ShardMap \<Rightarrow> pyerr option \<times> ShardMap" where
  "spawn_refresh cfg m =
     (if sm_state m = UPDATING then (None, m)
      else let m = m\<lparr>sm_state := UPDATING, backoff := min_backoff cfg, refresh_done := False,
                     refresh_in_flight := True\<rparr> in
        if \<not> sm_tg m then (Some (RuntimeError ''ShardMap must be used as an async context manager''), m)
        else (None, m\<lparr>refresh_scope := Some (next_task m), next_task := next_task m + 1,
                      refresh_tasks := refresh_tasks m @ [next_task m]\<rparr>))"

definition invalidate :: "shard_map_cfg \<Rightarrow> real \<Rightarrow> int option \<Rightarrow> ShardMap \<Rightarrow> pyerr option \<times> ShardMap" where
  "invalidate cfg seen_at predicted_shard m =
     (if sm_closed m then (None, m)
      else if (case updated_at m of None \<Rightarrow> False | Some u \<Rightarrow> seen_at \<le> u) then (None, m)
      else if (case predicted_shard of None \<Rightarrow> False
               | Some p \<Rightarrow> dict_get (shards (sm_snapshot m)) p = None) then (None, m)
      else spawn_refresh cfg m)"

text \<open>The end of the refresh task: the \<open>finally\<close> clause, and the task leaves the group.\<close>

definition refresh_finish :: "nat \<Rightarrow> ShardMap \<Rightarrow> ShardMap" where
  "refresh_finish scope m =
     m\<lparr>refresh_in_flight := False, refresh_done := True,
       refresh_tasks := filter (\<lambda>s. s \<noteq> scope) (refresh_tasks m)\<rparr>"

text \<open>A failed fetch doubles the backoff up to the maximum and sleeps for the old value.\<close>

definition refresh_failed :: "shard_map_cfg \<Rightarrow> ShardMap \<Rightarrow> real \<times> ShardMap" where
  "refresh_failed cfg m = (backoff m, m\<lparr>backoff := min (backoff m * 2) (max_backoff cfg)\<rparr>)"

lemma fetch_pages_shorter: "snd (fetch_pages cfg tok es sh replies) = Some (res, rest) \<Longrightarrow> length rest < length replies"
proof (induction cfg tok es sh replies rule: fetch_pages.induct)
  case (3 cfg token es sh page replies)
  show ?case
  proof (cases "add_shards (page_shards page) es sh")
    case (Inr b)
    obtain es' sh' where b: "b = (es', sh')" by fastforce
    show ?thesis
    proof (cases "\<exists>c cs. NextToken page = Some (c # cs)")
      case True
      then obtain c cs where tok: "NextToken page = Some (c # cs)" by blast
      from "3.IH" [OF Inr b [symmetric] tok refl] "3.prems" Inr b tok show ?thesis
        by (auto split: prod.splits)
    qed (use "3.prems" Inr b in \<open>auto split: option.splits list.splits\<close>)
  qed (use "3.prems" in simp)
qed auto

text \<open>The loop of the refresh task over the replies that arrive: the sleeps it takes and the state it
  reaches, waiting for more replies or finished.  \<open>clk\<close> is the clock reading of the installation.\<close>

function refresh_loop :: "shard_map_cfg \<Rightarrow> real \<Rightarrow> nat \<Rightarrow> (pyerr + ListShardsPage) list \<Rightarrow> ShardMap
    \<Rightarrow> real list \<times> ShardMap" where
  "refresh_loop cfg clk scope replies m =
     (if sm_closed m then ([], refresh_finish scope m)
      else case snd (fetch_all_pages cfg replies) of
          None \<Rightarrow> ([], m)
        | Some (Inl e, rest) \<Rightarrow>
            (case refresh_failed cfg m of (d, m') \<Rightarrow>
             case refresh_loop cfg clk scope rest m' of (ds, m'') \<Rightarrow> (d # ds, m''))
        | Some (Inr snap, rest) \<Rightarrow> ([], refresh_finish scope (install_snapshot cfg clk snap m)))"
  by pat_completeness auto

termination
  by (relation "measure (\<lambda>(cfg, clk, scope, replies, m). length replies)")
    (auto simp: fetch_all_pages_def dest: fetch_pages_shorter)

declare refresh_loop.simps [simp del]

text \<open>\<open>start\<close>: whether it then waits for the refresh.\<close>

definition start :: "shard_map_cfg \<Rightarrow> ShardMap \<Rightarrow> (pyerr + bool) \<times> ShardMap" where
  "start cfg m =
     (case spawn_refresh cfg m of
        (Some e, m) \<Rightarrow> (Inl e, m)
      | (None, m) \<Rightarrow> (Inr (refresh_in_flight m \<and> \<not> refresh_done m), m))"

text \<open>\<open>aclose\<close> cancels both tasks (the cancelled refresh runs its \<open>finally\<close>) and unblocks \<open>start\<close>.\<close>

definition sm_aclose :: "ShardMap \<Rightarrow> ShardMap" where
  "sm_aclose m =
     (let m = m\<lparr>sm_closed := True\<rparr>;
          m = (case cleanup_scope m of None \<Rightarrow> m
             | Some s \<Rightarrow> m\<lparr>cleanup_tasks := filter (\<lambda>t. fst t \<noteq> s) (cleanup_tasks m), cleanup_scope := None\<rparr>);
          m = (case refresh_scope m of None \<Rightarrow> m
             | Some s \<Rightarrow> (if s \<in> set (refresh_tasks m) then refresh_finish s m else m)\<lparr>refresh_scope := None\<rparr>)
      in m\<lparr>refresh_done := True\<rparr>)"

definition sm_aexit :: "ShardMap \<Rightarrow> pyerr + ShardMap" where
  "sm_aexit m = (let m = sm_aclose m in if \<not> sm_tg m then Inl AssertionError else Inr (m\<lparr>sm_tg := False\<rparr>))"

section \<open>Binary search\<close>

lemma bisect_loop_spec:
  "sorted a \<Longrightarrow> lo \<le> hi \<Longrightarrow> hi \<le> length a \<Longrightarrow> (\<forall>i<lo. a ! i < x) \<Longrightarrow> (\<forall>i. hi \<le> i \<and> i < length a \<longrightarrow> x \<le> a ! i) \<Longrightarrow>
   bisect_loop a x lo hi \<le> length a \<and> (\<forall>i<bisect_loop a x lo hi. a ! i < x) \<and>
   (\<forall>i. bisect_loop a x lo hi \<le> i \<and> i < length a \<longrightarrow> x \<le> a ! i)"
proof (induction a x lo hi rule: bisect_loop.induct)
  case (1 a x lo hi)
  let ?mid = "(lo + hi) div 2"
  show ?case
  proof (cases "lo < hi")
    case True
    then have mid: "lo \<le> ?mid" "?mid < hi" "?mid < length a" using "1.prems" by auto
    show ?thesis
    proof (cases "a ! ?mid < x")
      case True
      have "a ! i < x" if "i < ?mid + 1" for i
        using sorted_nth_mono [OF "1.prems"(1), of i ?mid] that mid(3) True by linarith
      with "1.IH"(1) [OF \<open>lo < hi\<close> refl True "1.prems"(1)] "1.prems"(3,5) mid(2)
      have "bisect_loop a x (?mid + 1) hi \<le> length a \<and> (\<forall>i<bisect_loop a x (?mid + 1) hi. a ! i < x) \<and>
        (\<forall>i. bisect_loop a x (?mid + 1) hi \<le> i \<and> i < length a \<longrightarrow> x \<le> a ! i)"
        by simp
      moreover have "bisect_loop a x lo hi = bisect_loop a x (?mid + 1) hi"
        using True \<open>lo < hi\<close> by (subst bisect_loop.simps) (simp add: Let_def)
      ultimately show ?thesis by simp
    next
      case False
      have "x \<le> a ! i" if "?mid \<le> i" "i < length a" for i
        using sorted_nth_mono [OF "1.prems"(1) that] False by linarith
      with "1.IH"(2) [OF \<open>lo < hi\<close> refl False "1.prems"(1) mid(1)] "1.prems"(4) mid(3)
      have "bisect_loop a x lo ?mid \<le> length a \<and> (\<forall>i<bisect_loop a x lo ?mid. a ! i < x) \<and>
        (\<forall>i. bisect_loop a x lo ?mid \<le> i \<and> i < length a \<longrightarrow> x \<le> a ! i)"
        by simp
      moreover have "bisect_loop a x lo hi = bisect_loop a x lo ?mid"
        using False \<open>lo < hi\<close> by (subst bisect_loop.simps) (simp add: Let_def)
      ultimately show ?thesis by simp
    qed
  next
    case False
    then have "bisect_loop a x lo hi = lo" by (subst bisect_loop.simps) simp
    with False "1.prems" show ?thesis by simp
  qed
qed

text \<open>The reference: the number of elements below \<open>x\<close>.\<close>

lemma bisect_left_spec:
  assumes "sorted a"
  shows "bisect_left a x \<le> length a" "i < bisect_left a x \<Longrightarrow> a ! i < x"
    "bisect_left a x \<le> i \<Longrightarrow> i < length a \<Longrightarrow> x \<le> a ! i"
  using bisect_loop_spec [OF assms, of 0 "length a" x] by (auto simp: bisect_left_def)

lemma bisect_left_takeWhile:
  assumes "sorted a"
  shows "bisect_left a x = length (takeWhile (\<lambda>e. e < x) a)"
proof (rule antisym)
  let ?n = "length (takeWhile (\<lambda>e. e < x) a)"
  have n: "?n \<le> length a" by (rule length_takeWhile_le)
  show "bisect_left a x \<le> ?n"
  proof (rule ccontr)
    assume "\<not> bisect_left a x \<le> ?n"
    then have "?n < bisect_left a x" by simp
    moreover from this have "?n < length a" using bisect_left_spec(1) [OF assms, of x] by simp
    ultimately show False
      using nth_length_takeWhile [of "\<lambda>e. e < x" a] bisect_left_spec(2) [OF assms] by blast
  qed
  show "?n \<le> bisect_left a x"
  proof (rule ccontr)
    assume "\<not> ?n \<le> bisect_left a x"
    then have lt: "bisect_left a x < ?n" by simp
    then have "a ! bisect_left a x < x"
      using nth_mem [OF lt] takeWhile_nth [OF lt] by (metis set_takeWhileD)
    with bisect_left_spec(3) [OF assms order_refl, of x] lt n show False by simp
  qed
qed

section \<open>Fetching reads every page\<close>

definition end_key :: "Shard \<Rightarrow> int \<times> int" where
  "end_key s = (ending_hash_key s, shard_id s)"

definition shard_dict :: "Shard list \<Rightarrow> (int \<times> Shard) list \<Rightarrow> (int \<times> Shard) list" where
  "shard_dict xs d = fold (\<lambda>s. dict_set (shard_id s) s) xs d"

lemma add_shards_emap:
  "add_shards raws es sh = ebind (emap build_shard raws) (\<lambda>xs. Inr (es @ map end_key xs, shard_dict xs sh))"
  by (induction raws es sh rule: add_shards.induct)
    (auto simp: ebind_assoc shard_dict_def end_key_def intro!: ebind_cong)

text \<open>A complete listing: every page but the last has a continuation token.\<close>

fun complete :: "ListShardsPage list \<Rightarrow> bool" where
  "complete [] = False"
| "complete [p] = (NextToken p = None \<or> NextToken p = Some [])"
| "complete (p # ps) = ((\<exists>c cs. NextToken p = Some (c # cs)) \<and> complete ps)"

lemma fetch_pages_complete:
  assumes "complete pages" "emap build_shard (concat (map page_shards pages)) = Inr xs"
  shows "snd (fetch_pages cfg tok es sh (map Inr pages @ rest)) =
    Some (Inr (make_snapshot (es @ map end_key xs) (shard_dict xs sh)), rest)"
  using assms
proof (induction pages arbitrary: tok es sh xs rule: complete.induct)
  case (2 p)
  then show ?case by (auto simp: add_shards_emap)
next
  case (3 p q ps)
  then obtain c cs where tok: "NextToken p = Some (c # cs)" by auto
  obtain as bs where ab: "emap build_shard (page_shards p) = Inr as" "xs = as @ bs"
      "emap build_shard (concat (map page_shards (q # ps))) = Inr bs"
    using "3.prems"(2) by (auto simp: emap_append err_simps)
  have "snd (fetch_pages cfg (Some (c # cs)) (es @ map end_key as) (shard_dict as sh) (map Inr (q # ps) @ rest)) =
    Some (Inr (make_snapshot ((es @ map end_key as) @ map end_key bs) (shard_dict bs (shard_dict as sh))), rest)"
    using "3.IH" [OF _ ab(3)] "3.prems"(1) by simp
  then show ?case using ab tok
    by (auto simp: add_shards_emap shard_dict_def split: prod.splits)
qed simp

lemma shard_dict_get:
  "distinct (map shard_id xs) \<Longrightarrow> s \<in> set xs \<Longrightarrow> dict_get (shard_dict xs d) (shard_id s) = Some s"
proof (induction xs arbitrary: d)
  case (Cons x xs)
  have keep: "k \<notin> shard_id ` set ys \<Longrightarrow> dict_get (shard_dict ys e) k = dict_get e k" for ys e k
    by (induction ys arbitrary: e) (auto simp: shard_dict_def)
  show ?case
  proof (cases "s \<in> set xs")
    case True
    with Cons show ?thesis by (simp add: shard_dict_def)
  next
    case False
    with Cons.prems have "s = x" by simp
    with keep [of "shard_id x" xs] Cons.prems show ?thesis by (simp add: shard_dict_def)
  qed
qed simp

lemma shard_dict_ok: "dict_ok d \<Longrightarrow> dict_ok (shard_dict xs d)"
  by (induction xs arbitrary: d) (simp_all add: shard_dict_def)

section \<open>Installing\<close>

lemma merge_closed_open:
  "dict_get new sid \<noteq> None \<Longrightarrow> dict_get (fst (merge_closed now ttl new prev merged ca)) sid = dict_get merged sid"
  by (induction now ttl new prev merged ca rule: merge_closed.induct) (auto simp: Let_def)

lemma schedule_cleanup_keeps [simp]:
  "sm_snapshot (schedule_cleanup cfg now m) = sm_snapshot m" "sm_state (schedule_cleanup cfg now m) = sm_state m"
  "closed_at (schedule_cleanup cfg now m) = closed_at m" "updated_at (schedule_cleanup cfg now m) = updated_at m"
  "backoff (schedule_cleanup cfg now m) = backoff m" "sm_closed (schedule_cleanup cfg now m) = sm_closed m"
  "refresh_tasks (schedule_cleanup cfg now m) = refresh_tasks m"
  "refresh_in_flight (schedule_cleanup cfg now m) = refresh_in_flight m"
  "refresh_done (schedule_cleanup cfg now m) = refresh_done m" "sm_tg (schedule_cleanup cfg now m) = sm_tg m"
  "refresh_scope (schedule_cleanup cfg now m) = refresh_scope m"
  by (auto simp: schedule_cleanup_def Let_def split: option.splits)

lemma install_snapshot_sel [simp]:
  "endings (sm_snapshot (install_snapshot cfg now snap m)) = endings snap"
  "shard_ids (sm_snapshot (install_snapshot cfg now snap m)) = shard_ids snap"
  "sm_state (install_snapshot cfg now snap m) = READY"
  "updated_at (install_snapshot cfg now snap m) = Some now"
  "backoff (install_snapshot cfg now snap m) = min_backoff cfg"
  "shards (sm_snapshot (install_snapshot cfg now snap m)) =
     fst (merge_closed now (closed_shard_ttl cfg) (shards snap) (shards (sm_snapshot m)) (shards snap) (closed_at m))"
  "closed_at (install_snapshot cfg now snap m) =
     snd (merge_closed now (closed_shard_ttl cfg) (shards snap) (shards (sm_snapshot m)) (shards snap) (closed_at m))"
  "sm_closed (install_snapshot cfg now snap m) = sm_closed m"
  "refresh_tasks (install_snapshot cfg now snap m) = refresh_tasks m"
  "refresh_in_flight (install_snapshot cfg now snap m) = refresh_in_flight m"
  "sm_tg (install_snapshot cfg now snap m) = sm_tg m"
  by (simp_all add: install_snapshot_def Let_def split: prod.splits)

lemma make_snapshot_sorted:
  "sorted (endings (make_snapshot es sh)) \<and> length (endings (make_snapshot es sh)) = length (shard_ids (make_snapshot es sh))"
proof -
  have "sorted (map fst ps)" if "sorted ps" for ps :: "(int \<times> int) list"
    using that by (induction ps) (auto simp: less_eq_prod_def)
  then show ?thesis by (simp add: make_snapshot_def Let_def)
qed

section \<open>Prediction is right\<close>

definition covers_key :: "Shard \<Rightarrow> int \<Rightarrow> bool" where
  "covers_key s h \<longleftrightarrow> starting_hash_key s \<le> h \<and> h \<le> ending_hash_key s"

definition disjoint_ranges :: "Shard list \<Rightarrow> bool" where
  "disjoint_ranges xs \<longleftrightarrow> (\<forall>s\<in>set xs. \<forall>s'\<in>set xs. s \<noteq> s' \<longrightarrow> (\<forall>h. \<not> (covers_key s h \<and> covers_key s' h)))"

lemma build_shard_range: "build_shard raw = Inr s \<Longrightarrow> starting_hash_key s \<le> ending_hash_key s"
  by (auto simp: build_shard_def err_simps split: if_splits)

lemma bisect_finds:
  assumes "distinct (map shard_id xs)" "disjoint_ranges xs" "\<forall>s\<in>set xs. starting_hash_key s \<le> ending_hash_key s"
    "s \<in> set xs" "covers_key s h"
  shows "\<exists>i<length xs. bisect_left (endings (make_snapshot (map end_key xs) sh)) h = i
    \<and> shard_ids (make_snapshot (map end_key xs) sh) ! i = shard_id s"
proof -
  let ?ps = "sort (map end_key xs)" and ?a = "endings (make_snapshot (map end_key xs) sh)"
  have a: "?a = map fst ?ps" "shard_ids (make_snapshot (map end_key xs) sh) = map snd ?ps"
    by (simp_all add: make_snapshot_def Let_def)
  have "end_key s \<in> set ?ps" using assms(4) by simp
  then obtain i where i: "i < length ?ps" "?ps ! i = end_key s" by (metis in_set_conv_nth)
  have dist: "distinct ?ps"
    using assms(1) by (simp add: distinct_map inj_on_def end_key_def)
  have below: "?a ! j < h" if "j < i" for j
  proof -
    have j: "j < length ?ps" using that i by simp
    then have "?ps ! j \<in> set ?ps" by (rule nth_mem)
    then obtain s' where s': "s' \<in> set xs" "?ps ! j = end_key s'" by auto
    have "?ps ! j \<le> ?ps ! i" by (rule sorted_nth_mono) (use that i(1) in simp_all)
    then have le: "ending_hash_key s' \<le> ending_hash_key s"
      using s'(2) i(2) by (auto simp: end_key_def less_eq_prod_def)
    have "s' \<noteq> s" using dist that i j s'(2) by (metis nat_neq_iff nth_eq_iff_index_eq)
    then have "\<not> covers_key s (ending_hash_key s')"
      using assms(2,3,4) s'(1) by (auto simp: disjoint_ranges_def covers_key_def)
    with le assms(5) have "ending_hash_key s' < h" by (auto simp: covers_key_def)
    with s'(2) j a(1) show ?thesis by (simp add: end_key_def)
  qed
  have at: "h \<le> ?a ! i" using i a(1) assms(5) by (simp add: end_key_def covers_key_def)
  have sa: "sorted ?a" using make_snapshot_sorted by blast
  have "bisect_left ?a h = i"
  proof (rule linorder_cases [of "bisect_left ?a h" i])
    assume lt: "bisect_left ?a h < i"
    with bisect_left_spec(3) [OF sa order_refl, of h] below [OF lt] i a(1) show ?thesis by simp
  next
    assume "i < bisect_left ?a h"
    with bisect_left_spec(2) [OF sa] at show ?thesis by fastforce
  qed
  moreover have "shard_ids (make_snapshot (map end_key xs) sh) ! i = shard_id s"
    using i a(2) by (simp add: end_key_def)
  ultimately show ?thesis using i(1) by auto
qed

text \<open>C7.  Prediction is right.  Let \<open>ListShards\<close> answer with any number of pages whose entries parse to
  the shards \<open>xs\<close>, with distinct ids and disjoint hash ranges.  Then a fetch reads them all and, once
  the snapshot is installed (whatever the map held before), every hash key inside the range of a
  shard is predicted to go to that shard, and \<open>hashrange\<close> of the shard is that range.\<close>

theorem predict_correct:
  assumes "complete pages" "emap build_shard (concat (map page_shards pages)) = Inr xs"
    "distinct (map shard_id xs)" "disjoint_ranges xs" "s \<in> set xs" "covers_key s h"
  shows "\<exists>snap. snd (fetch_all_pages cfg (map Inr pages @ rest)) = Some (Inr snap, rest)
    \<and> predict (install_snapshot cfg now snap m) h = Some (shard_id s)
    \<and> hashrange (install_snapshot cfg now snap m) (shard_id s) = Some (starting_hash_key s, ending_hash_key s)"
proof -
  let ?snap = "make_snapshot (map end_key xs) (shard_dict xs [])"
  have "snd (fetch_all_pages cfg (map Inr pages @ rest)) = Some (Inr ?snap, rest)"
    using fetch_pages_complete [OF assms(1,2)] by (simp add: fetch_all_pages_def)
  moreover have "\<forall>s\<in>set xs. starting_hash_key s \<le> ending_hash_key s"
    using emap_nth [OF assms(2)] emap_length [OF assms(2)] build_shard_range
    by (metis in_set_conv_nth)
  from bisect_finds [OF assms(3,4) this assms(5,6)]
  have "predict (install_snapshot cfg now ?snap m) h = Some (shard_id s)"
    by (auto simp: predict_def Let_def make_snapshot_def)
  moreover have "dict_get (shards ?snap) (shard_id s) = Some s"
    using shard_dict_get [OF assms(3,5)] by (simp add: make_snapshot_def Let_def)
  then have "hashrange (install_snapshot cfg now ?snap m) (shard_id s) = Some (starting_hash_key s, ending_hash_key s)"
    by (simp add: hashrange_def merge_closed_open)
  ultimately show ?thesis by blast
qed

text \<open>Two shards on two pages.\<close>

definition demo_raw :: "nat \<Rightarrow> int \<Rightarrow> int \<Rightarrow> RawShard" where
  "demo_raw i a b = \<lparr>ShardId = Some (lit ''shardId-'' @ [0x30, 0x30 + i]),
     HashKeyRange = Some \<lparr>StartingHashKey = Some (str_of_int a), EndingHashKey = Some (str_of_int b)\<rparr>\<rparr>"

definition demo_pages :: "ListShardsPage list" where
  "demo_pages = [\<lparr>page_shards = [demo_raw 1 50 99], NextToken = Some (lit ''t'')\<rparr>,
     \<lparr>page_shards = [demo_raw 2 0 49], NextToken = None\<rparr>]"

definition demo_shards :: "Shard list" where
  "demo_shards = [\<lparr>shard_id = 1, raw_shard_id = lit ''shardId-'' @ [0x30, 0x31], starting_hash_key = 50, ending_hash_key = 99\<rparr>,
     \<lparr>shard_id = 2, raw_shard_id = lit ''shardId-'' @ [0x30, 0x32], starting_hash_key = 0, ending_hash_key = 49\<rparr>]"

lemma demo_complete: "complete demo_pages"
  by (simp add: demo_pages_def lit_def)

lemma demo_listing: "emap build_shard (concat (map page_shards demo_pages)) = Inr demo_shards"
  by (simp add: demo_pages_def demo_raw_def demo_shards_def build_shard_def get_item_def
    parse_shard_id_digits ascii_digit_def int_max_str_digits_def parse_hash_key_str UINT128_MAX_def)

theorem predict_correct_witness:
  "\<exists>snap. snd (fetch_all_pages (shard_map_cfg_default []) (map Inr demo_pages)) = Some (Inr snap, [])
    \<and> predict (install_snapshot (shard_map_cfg_default []) 0 snap (shard_map_init (shard_map_cfg_default []))) 49 = Some 2"
proof -
  let ?s = "\<lparr>shard_id = 2, raw_shard_id = lit ''shardId-'' @ [0x30, 0x32], starting_hash_key = 0, ending_hash_key = 49\<rparr>"
  have "distinct (map shard_id demo_shards)" "disjoint_ranges demo_shards" "?s \<in> set demo_shards" "covers_key ?s 49"
    by (auto simp: demo_shards_def disjoint_ranges_def covers_key_def)
  from predict_correct [OF demo_complete demo_listing this, of "shard_map_cfg_default []" "[]"] show ?thesis by fastforce
qed

section \<open>The state machine\<close>

text \<open>Every order of refreshes, invalidations, replies, cleanups and the close.\<close>

inductive sm_reach :: "shard_map_cfg \<Rightarrow> real \<Rightarrow> ShardMap \<Rightarrow> bool" for cfg where
  enter: "sm_reach cfg t (sm_aenter (shard_map_init cfg))"
| start: "sm_reach cfg t m \<Longrightarrow> t \<le> t' \<Longrightarrow> start cfg m = (res, m') \<Longrightarrow> sm_reach cfg t' m'"
| invalidate: "sm_reach cfg t m \<Longrightarrow> t \<le> t' \<Longrightarrow> invalidate cfg seen_at p m = (e, m') \<Longrightarrow> sm_reach cfg t' m'"
| replies: "sm_reach cfg t m \<Longrightarrow> t \<le> t' \<Longrightarrow> scope \<in> set (refresh_tasks m) \<Longrightarrow>
     refresh_loop cfg t' scope replies m = (sleeps, m') \<Longrightarrow> sm_reach cfg t' m'"
| cleanup: "sm_reach cfg t m \<Longrightarrow> t \<le> t' \<Longrightarrow> (s, due) \<in> set (cleanup_tasks m) \<Longrightarrow> due \<le> t' \<Longrightarrow>
     sm_reach cfg t' (cleanup_task cfg t' s m)"
| close: "sm_reach cfg t m \<Longrightarrow> t \<le> t' \<Longrightarrow> sm_reach cfg t' (sm_aclose m)"

definition aligned :: "Snapshot \<Rightarrow> bool" where
  "aligned snap \<longleftrightarrow> sorted (endings snap) \<and> length (shard_ids snap) = length (endings snap) \<and> dict_ok (shards snap)"

definition sm_inv :: "shard_map_cfg \<Rightarrow> real \<Rightarrow> ShardMap \<Rightarrow> bool" where
  "sm_inv cfg t m \<longleftrightarrow> sm_tg m \<and> aligned (sm_snapshot m) \<and> dict_ok (closed_at m) \<and>
     min_backoff cfg \<le> backoff m \<and> backoff m \<le> max_backoff cfg \<and>
     (refresh_in_flight m \<longleftrightarrow> refresh_tasks m \<noteq> []) \<and>
     (refresh_tasks m \<noteq> [] \<longrightarrow> sm_state m = UPDATING \<and> refresh_tasks m = [the (refresh_scope m)] \<and> refresh_scope m \<noteq> None) \<and>
     (\<not> sm_closed m \<and> sm_state m = UPDATING \<longrightarrow> refresh_tasks m \<noteq> []) \<and>
     (sm_state m = READY \<longrightarrow> updated_at m \<noteq> None) \<and>
     (case updated_at m of None \<Rightarrow> True | Some u \<Rightarrow> u \<le> t)"

lemma sm_inv_mono: "sm_inv cfg t m \<Longrightarrow> t \<le> t' \<Longrightarrow> sm_inv cfg t' m"
  by (auto simp: sm_inv_def split: option.splits)

lemma fetch_pages_snapshot:
  "snd (fetch_pages cfg tok es sh replies) = Some (Inr snap, rest) \<Longrightarrow> dict_ok sh \<Longrightarrow>
   \<exists>es' sh'. snap = make_snapshot es' sh' \<and> dict_ok sh'"
proof (induction cfg tok es sh replies rule: fetch_pages.induct)
  case (3 cfg token es sh page replies)
  show ?case
  proof (cases "add_shards (page_shards page) es sh")
    case (Inr b)
    then obtain xs where b: "b = (es @ map end_key xs, shard_dict xs sh)"
      by (auto simp: add_shards_emap err_simps)
    have ok: "dict_ok (shard_dict xs sh)" using "3.prems"(2) by (rule shard_dict_ok)
    show ?thesis
    proof (cases "\<exists>c cs. NextToken page = Some (c # cs)")
      case True
      then obtain c cs where tok: "NextToken page = Some (c # cs)" by blast
      from "3.IH" [OF Inr b [symmetric] tok refl] "3.prems"(1) Inr b tok ok show ?thesis
        by (auto split: prod.splits)
    qed (use "3.prems" Inr b ok in \<open>auto split: option.splits list.splits\<close>)
  qed (use "3.prems" in simp)
qed auto

lemma fetch_aligned: "snd (fetch_all_pages cfg replies) = Some (Inr snap, rest) \<Longrightarrow> aligned snap"
  using fetch_pages_snapshot [of cfg None "[]" "[]" replies snap rest]
  by (auto simp: fetch_all_pages_def aligned_def make_snapshot_sorted)
    (auto simp: make_snapshot_def Let_def)

lemma merge_closed_dict_ok:
  "dict_ok merged \<Longrightarrow> dict_ok ca \<Longrightarrow> dict_ok (fst (merge_closed now ttl new prev merged ca)) \<and>
   dict_ok (snd (merge_closed now ttl new prev merged ca))"
  by (induction now ttl new prev merged ca rule: merge_closed.induct) (auto simp: Let_def)

lemma install_inv:
  assumes "sm_inv cfg t m" "aligned snap" "scope \<in> set (refresh_tasks m)"
  shows "sm_inv cfg t (refresh_finish scope (install_snapshot cfg t snap m))"
proof -
  have "refresh_tasks m = [scope]" using assms(1,3) by (auto simp: sm_inv_def)
  moreover have "dict_ok (shards snap)" "dict_ok (closed_at m)"
    using assms by (auto simp: sm_inv_def aligned_def)
  ultimately show ?thesis
    using assms(1,2) merge_closed_dict_ok [of "shards snap" "closed_at m"]
    by (auto simp: sm_inv_def refresh_finish_def aligned_def)
qed

lemma finish_inv:
  assumes "sm_inv cfg t m" "sm_closed m" "scope \<in> set (refresh_tasks m)"
  shows "sm_inv cfg t (refresh_finish scope m)"
proof -
  have "refresh_tasks m = [scope]" using assms(1,3) by (auto simp: sm_inv_def)
  with assms(1,2) show ?thesis by (auto simp: sm_inv_def refresh_finish_def)
qed

definition backoff_ok :: "shard_map_cfg \<Rightarrow> bool" where
  "backoff_ok cfg \<longleftrightarrow> 0 \<le> min_backoff cfg \<and> min_backoff cfg \<le> max_backoff cfg"

lemma failed_inv: "sm_inv cfg t m \<Longrightarrow> backoff_ok cfg \<Longrightarrow> sm_inv cfg t (snd (refresh_failed cfg m))"
  by (auto simp: sm_inv_def refresh_failed_def backoff_ok_def)

lemma refresh_loop_inv:
  "sm_inv cfg t m \<Longrightarrow> backoff_ok cfg \<Longrightarrow> scope \<in> set (refresh_tasks m) \<Longrightarrow>
   sm_inv cfg t (snd (refresh_loop cfg t scope replies m))"
proof (induction cfg t scope replies m rule: refresh_loop.induct)
  case (1 cfg clk scope replies m)
  show ?case
  proof (cases "sm_closed m")
    case True
    with finish_inv [OF "1.prems"(1) True "1.prems"(3)] show ?thesis by (simp add: refresh_loop.simps [of cfg clk scope replies m])
  next
    case open': False
    show ?thesis
    proof (cases "snd (fetch_all_pages cfg replies)")
      case None
      with open' "1.prems" show ?thesis by (simp add: refresh_loop.simps [of cfg clk scope replies m])
    next
      case (Some p)
      obtain res rest where p: "p = (res, rest)" by fastforce
      show ?thesis
      proof (cases res)
        case (Inl e)
        have t: "refresh_tasks (snd (refresh_failed cfg m)) = refresh_tasks m" by (simp add: refresh_failed_def)
        from "1.IH" [OF open' Some p [symmetric] Inl prod.collapse failed_inv [OF "1.prems"(1,2)] "1.prems"(2)] "1.prems"(3) t
        have "sm_inv cfg clk (snd (refresh_loop cfg clk scope rest (snd (refresh_failed cfg m))))" by simp
        then show ?thesis using open' Some p Inl
          by (simp add: refresh_loop.simps [of cfg clk scope replies m] split_beta)
      next
        case (Inr snap)
        with install_inv [OF "1.prems"(1) _ "1.prems"(3)] fetch_aligned [of cfg replies snap rest] open' Some p
        show ?thesis by (simp add: refresh_loop.simps [of cfg clk scope replies m])
      qed
    qed
  qed
qed

lemma spawn_inv: "sm_inv cfg t m \<Longrightarrow> backoff_ok cfg \<Longrightarrow> sm_inv cfg t (snd (spawn_refresh cfg m))"
  by (auto simp: sm_inv_def spawn_refresh_def backoff_ok_def Let_def)

lemma start_inv: "sm_inv cfg t m \<Longrightarrow> backoff_ok cfg \<Longrightarrow> sm_inv cfg t (snd (start cfg m))"
  using spawn_inv [of cfg t m] by (auto simp: start_def split: prod.splits option.splits)

lemma invalidate_inv: "sm_inv cfg t m \<Longrightarrow> backoff_ok cfg \<Longrightarrow> sm_inv cfg t (snd (invalidate cfg seen p m))"
  using spawn_inv [of cfg t m] by (simp add: invalidate_def)

lemma cleanup_inv: "sm_inv cfg t m \<Longrightarrow> sm_inv cfg t (cleanup_task cfg t s m)"
  by (auto simp: sm_inv_def cleanup_task_def cleanup_def aligned_def Let_def)

lemma aclose_inv: "sm_inv cfg t m \<Longrightarrow> sm_inv cfg t (sm_aclose m)"
  by (auto simp: sm_inv_def sm_aclose_def refresh_finish_def Let_def split: option.splits)

lemma sm_reach_inv: "sm_reach cfg t m \<Longrightarrow> backoff_ok cfg \<Longrightarrow> sm_inv cfg t m"
proof (induction rule: sm_reach.induct)
  case (enter t)
  then show ?case
    by (simp add: sm_inv_def sm_aenter_def shard_map_init_def aligned_def backoff_ok_def)
next
  case (start t m t' res m')
  then have "sm_inv cfg t' m" using sm_inv_mono by blast
  with start_inv [of cfg t' m] start show ?case by simp
next
  case (invalidate t m t' seen_at p e m')
  then have "sm_inv cfg t' m" using sm_inv_mono by blast
  with invalidate_inv [of cfg t' m seen_at p] invalidate show ?case by simp
next
  case (replies t m t' scope replies sleeps m')
  then have "sm_inv cfg t' m" using sm_inv_mono by blast
  with refresh_loop_inv [of cfg t' m scope replies] replies show ?case by simp
next
  case (cleanup t m t' s due)
  then show ?case using cleanup_inv sm_inv_mono by blast
next
  case (close t m t')
  then show ?case using aclose_inv sm_inv_mono by blast
qed

text \<open>C16.  The life cycle of an entered shard map, over every interleaving of its operations: at most one
  refresh is in flight; while the map is open, \<open>UPDATING\<close> holds exactly while one is (so it is
  never stuck); a \<open>READY\<close> map has an update time, not in the future; the backoff stays between its bounds;
  and the arrays that \<open>predict\<close> searches are sorted and of equal length, so the indexing cannot fail.\<close>

theorem shard_map_lifecycle:
  assumes "sm_reach cfg t m" "0 \<le> min_backoff cfg" "min_backoff cfg \<le> max_backoff cfg"
  shows "length (refresh_tasks m) \<le> 1 \<and> (refresh_in_flight m \<longleftrightarrow> refresh_tasks m \<noteq> [])
    \<and> (\<not> sm_closed m \<longrightarrow> (sm_state m = UPDATING \<longleftrightarrow> refresh_in_flight m))
    \<and> (sm_state m = READY \<longrightarrow> (\<exists>u\<le>t. updated_at m = Some u))
    \<and> min_backoff cfg \<le> backoff m \<and> backoff m \<le> max_backoff cfg
    \<and> sorted (endings (sm_snapshot m)) \<and> length (shard_ids (sm_snapshot m)) = length (endings (sm_snapshot m))"
  using sm_reach_inv [OF assms(1)] assms(2,3)
  by (cases "refresh_tasks m = []") (auto simp: sm_inv_def backoff_ok_def aligned_def split: option.splits)

theorem shard_map_lifecycle_witness:
  "length (refresh_tasks (snd (start (shard_map_cfg_default []) (sm_aenter (shard_map_init (shard_map_cfg_default [])))))) \<le> 1"
  using shard_map_lifecycle [OF sm_reach.start [OF sm_reach.enter order_refl surjective_pairing],
      of "shard_map_cfg_default []" 0]
  by (simp add: shard_map_cfg_default_def)

section \<open>A refresh succeeds once the service does\<close>

definition nth_backoff :: "real \<Rightarrow> real \<Rightarrow> nat \<Rightarrow> real" where
  "nth_backoff b mx i = min (b * 2 ^ i) mx"

lemma backoff_shift:
  assumes "0 \<le> mx"
  shows "map (nth_backoff (min (b * 2) mx) mx) [0..<n] = map (nth_backoff b mx) [1..<Suc n]"
proof -
  have "nth_backoff (min (b * 2) mx) mx i = nth_backoff b mx (Suc i)" for i
  proof -
    have "mx \<le> mx * 2 ^ i" using assms mult_left_mono [of 1 "2 ^ i" mx] by simp
    moreover have "min (b * 2) mx * 2 ^ i = min (b * 2 * 2 ^ i) (mx * 2 ^ i)"
      by (simp add: min_mult_distrib_right)
    ultimately show ?thesis
      by (simp only: nth_backoff_def min.assoc power_Suc mult.assoc min_absorb2)
  qed
  then show ?thesis by (simp add: map_Suc_upt [symmetric] del: upt_Suc)
qed

lemma refresh_loop_retries:
  assumes "complete pages" "emap build_shard (concat (map page_shards pages)) = Inr xs" "0 \<le> max_backoff cfg"
  shows "\<not> sm_closed m \<Longrightarrow> backoff m \<le> max_backoff cfg \<Longrightarrow>
    \<exists>m'. refresh_loop cfg clk scope (map Inl es @ map Inr pages) m =
      (map (nth_backoff (backoff m) (max_backoff cfg)) [0..<length es],
       refresh_finish scope (install_snapshot cfg clk (make_snapshot (map end_key xs) (shard_dict xs [])) m'))
    \<and> \<not> sm_closed m'"
proof (induction es arbitrary: m)
  case Nil
  have "snd (fetch_all_pages cfg (map Inr pages @ [])) =
      Some (Inr (make_snapshot ([] @ map end_key xs) (shard_dict xs [])), [])"
    unfolding fetch_all_pages_def by (rule fetch_pages_complete [OF assms(1,2)])
  with Nil(1) show ?case by (auto simp: refresh_loop.simps [of cfg clk scope _ m])
next
  case (Cons e es)
  let ?m = "snd (refresh_failed cfg m)"
  have m: "\<not> sm_closed ?m" "backoff ?m = min (backoff m * 2) (max_backoff cfg)" "fst (refresh_failed cfg m) = backoff m"
    using Cons.prems by (simp_all add: refresh_failed_def)
  from Cons.IH [OF m(1)] m(2) obtain m' where
    IH: "refresh_loop cfg clk scope (map Inl es @ map Inr pages) ?m =
      (map (nth_backoff (min (backoff m * 2) (max_backoff cfg)) (max_backoff cfg)) [0..<length es],
       refresh_finish scope (install_snapshot cfg clk (make_snapshot (map end_key xs) (shard_dict xs [])) m'))"
      "\<not> sm_closed m'" by auto
  have "snd (fetch_all_pages cfg (map Inl (e # es) @ map Inr pages)) = Some (Inl e, map Inl es @ map Inr pages)"
    by (simp add: fetch_all_pages_def)
  moreover have "backoff m = nth_backoff (backoff m) (max_backoff cfg) 0"
    using Cons.prems(2) by (simp add: nth_backoff_def)
  ultimately show ?case
    using Cons.prems(1) IH m(3) backoff_shift [OF assms(3), of "backoff m" "length es"]
    by (simp add: refresh_loop.simps [of cfg clk scope _ m] split_beta upt_conv_Cons del: upt_Suc) blast
qed

text \<open>C25.  A refresh never gives up.  If \<open>ListShards\<close> fails any number of times and then answers with a
  well-formed listing, the refresh task of an open map ends with the map \<open>READY\<close> and its waiters released, after
  sleeping, between the attempts, the minimal backoff doubled each time and capped at the maximum.\<close>

theorem refresh_eventually_ready:
  assumes "complete pages" "emap build_shard (concat (map page_shards pages)) = Inr xs"
    and "0 \<le> min_backoff cfg" "min_backoff cfg \<le> max_backoff cfg" "\<not> sm_closed m" "sm_tg m" "sm_state m \<noteq> UPDATING"
    and m1: "spawn_refresh cfg m = (e, m1)" and run: "refresh_loop cfg clk (the (refresh_scope m1)) (map Inl es @ map Inr pages) m1 = (sleeps, m2)"
  shows "e = None \<and> sm_state m2 = READY \<and> updated_at m2 = Some clk \<and> refresh_done m2 \<and> \<not> refresh_in_flight m2
    \<and> sleeps = map (\<lambda>i. min (min_backoff cfg * 2 ^ i) (max_backoff cfg)) [0..<length es]"
proof -
  have s: "e = None" "backoff m1 = min_backoff cfg" "\<not> sm_closed m1"
    using m1 assms(5-7) by (auto simp: spawn_refresh_def Let_def)
  from refresh_loop_retries [OF assms(1,2) _ s(3), of cfg clk "the (refresh_scope m1)" es] s(2) assms(3,4) run
  obtain m' where "sleeps = map (nth_backoff (min_backoff cfg) (max_backoff cfg)) [0..<length es]"
      "m2 = refresh_finish (the (refresh_scope m1)) (install_snapshot cfg clk (make_snapshot (map end_key xs) (shard_dict xs [])) m')"
    by auto
  then show ?thesis using s(1) by (simp add: refresh_finish_def nth_backoff_def)
qed

theorem refresh_eventually_ready_witness:
  "let cfg = shard_map_cfg_default []; m1 = snd (spawn_refresh cfg (sm_aenter (shard_map_init cfg)));
       res = refresh_loop cfg 9 (the (refresh_scope m1)) (map Inl [KeyError ''x'', KeyError ''x''] @ map Inr demo_pages) m1
   in sm_state (snd res) = READY \<and> fst res = [1, 2]"
proof -
  let ?cfg = "shard_map_cfg_default []"
  let ?m = "sm_aenter (shard_map_init ?cfg)"
  have "\<not> sm_closed ?m" "sm_tg ?m" "sm_state ?m \<noteq> UPDATING" "0 \<le> min_backoff ?cfg" "min_backoff ?cfg \<le> max_backoff ?cfg"
    by (simp_all add: sm_aenter_def shard_map_init_def shard_map_cfg_default_def)
  from refresh_eventually_ready [OF demo_complete demo_listing this(4,5,1,2,3) surjective_pairing surjective_pairing,
      of 9 "[KeyError ''x'', KeyError ''x'']"]
  show ?thesis by (simp add: Let_def shard_map_cfg_default_def upt_rec)
qed

section \<open>Closed shards\<close>

lemma merge_closed_spec:
  assumes "dict_get new sid = None" "dict_ok prev"
  shows "dict_get (snd (merge_closed now ttl new prev merged ca)) sid =
      (case dict_get ca sid of Some c \<Rightarrow> Some c | None \<Rightarrow> if dict_get prev sid = None then None else Some now)
    \<and> dict_get (fst (merge_closed now ttl new prev merged ca)) sid =
      (case dict_get prev sid of None \<Rightarrow> dict_get merged sid
       | Some s \<Rightarrow> if now < (case dict_get ca sid of Some c \<Rightarrow> c | None \<Rightarrow> now) + ttl then Some s else dict_get merged sid)"
  using assms
proof (induction now ttl new prev merged ca rule: merge_closed.induct)
  case (2 now ttl new k shard prev merged ca)
  then have fresh: "dict_get prev k = None" by (simp add: map_of_eq_None_iff)
  show ?case
  proof (cases "dict_get new k")
    case None
    show ?thesis
      using "2.IH"(1) [OF None refl "2.prems"(1)] "2.prems" None fresh
      by (auto simp: Let_def split: option.splits)
  next
    case (Some v)
    with "2.prems" have "k \<noteq> sid" by auto
    with "2.IH"(2) "2.prems" Some show ?thesis by (auto split: option.splits)
  qed
qed (auto split: option.splits)

lemma expired_iff:
  assumes "dict_ok ca" "dict_get ca sid = Some c"
  shows "sid \<in> set (map fst (filter (\<lambda>c. snd c + ttl \<le> t) ca)) \<longleftrightarrow> c + ttl \<le> (t :: real)"
proof -
  have "(sid, x) \<in> set ca \<longleftrightarrow> x = c" for x
    using map_of_eq_Some_iff [OF assms(1), of sid x] assms(2) by auto
  then show ?thesis by (auto simp: image_iff)
qed

lemma cleanup_get:
  assumes "dict_ok (shards (sm_snapshot m))" "\<not> sm_closed m" "sm_state m = READY"
  shows "dict_get (shards (sm_snapshot (cleanup cfg t m))) sid =
    (if sid \<in> set (map fst (filter (\<lambda>c. snd c + closed_shard_ttl cfg \<le> t) (closed_at m))) then None
     else dict_get (shards (sm_snapshot m)) sid)"
proof (cases "filter (\<lambda>c. snd c + closed_shard_ttl cfg \<le> t) (closed_at m) = []")
  case False
  then show ?thesis using assms
    by (simp add: cleanup_def Let_def dict_get_filter split: option.splits)
qed (use assms in \<open>simp add: cleanup_def Let_def\<close>)

text \<open>C26.  A shard that disappears from the listing (it was split or merged) stays answerable: right
  after the installation \<open>hashrange\<close> still gives its range, and a cleanup at any later time keeps it
  exactly as long as less than the TTL has passed since the installation.\<close>

theorem closed_shard_ttl_exact:
  assumes "dict_get (shards (sm_snapshot m)) sid = Some s" "dict_get (shards snap) sid = None"
    and "dict_get (closed_at m) sid = None" "0 < closed_shard_ttl cfg" "\<not> sm_closed m"
    and "dict_ok (shards (sm_snapshot m))" "dict_ok (shards snap)" "dict_ok (closed_at m)"
  shows "hashrange (install_snapshot cfg now snap m) sid = Some (starting_hash_key s, ending_hash_key s)
    \<and> hashrange (cleanup cfg t (install_snapshot cfg now snap m)) sid =
       (if t < now + closed_shard_ttl cfg then Some (starting_hash_key s, ending_hash_key s) else None)"
proof -
  let ?m = "install_snapshot cfg now snap m"
  have g: "dict_get (closed_at ?m) sid = Some now" "dict_get (shards (sm_snapshot ?m)) sid = Some s"
    using merge_closed_spec [OF assms(2,6)] assms(1,3,4) by auto
  have ok: "dict_ok (closed_at ?m)" "dict_ok (shards (sm_snapshot ?m))"
    using merge_closed_dict_ok [OF assms(7,8)] by auto
  let ?e = "map fst (filter (\<lambda>c. snd c + closed_shard_ttl cfg \<le> t) (closed_at ?m))"
  have e: "sid \<in> set ?e \<longleftrightarrow> now + closed_shard_ttl cfg \<le> t"
    by (rule expired_iff [OF ok(1) g(1)])
  have "dict_get (shards (sm_snapshot (cleanup cfg t ?m))) sid = (if sid \<in> set ?e then None else Some s)"
    using cleanup_get [of ?m cfg t sid] g(2) ok(2) assms(5) by (simp del: install_snapshot_sel(6,7))
  with e g(2) show ?thesis by (auto simp: hashrange_def not_le)
qed

theorem closed_shard_ttl_exact_witness:
  "let cfg = shard_map_cfg_default []; s = hd demo_shards;
       m = (shard_map_init cfg)\<lparr>sm_snapshot := \<lparr>endings = [99], shard_ids = [1], shards = [(1, s)]\<rparr>\<rparr>;
       m' = install_snapshot cfg 5 \<lparr>endings = [], shard_ids = [], shards = []\<rparr> m
   in hashrange m' 1 = Some (50, 99) \<and> hashrange (cleanup cfg 65 m') 1 = None"
  using closed_shard_ttl_exact [of "(shard_map_init (shard_map_cfg_default []))\<lparr>sm_snapshot :=
      \<lparr>endings = [99], shard_ids = [1], shards = [(1, hd demo_shards)]\<rparr>\<rparr>" 1 "hd demo_shards"
      "\<lparr>endings = [], shard_ids = [], shards = []\<rparr>" "shard_map_cfg_default []" 5 65]
  by (simp add: Let_def shard_map_init_def shard_map_cfg_default_def demo_shards_def)

section \<open>Where the code departs from its documentation\<close>

text \<open>An invalidation for a shard that the map does not know is ignored: after a split, the retrier
  reports the child shard a record landed on, and the map is not refreshed.\<close>

lemma invalidate_unknown_shard:
  "dict_get (shards (sm_snapshot m)) p = None \<Longrightarrow> invalidate cfg seen_at (Some p) m = (None, m)"
  by (simp add: invalidate_def)

text \<open>A closed shard is still in the dictionary until its TTL, so an invalidation for it does spawn a
  refresh, contrary to the documentation.\<close>

lemma invalidate_closed_shard_refreshes:
  "let cfg = shard_map_cfg_default []; s = hd demo_shards;
       m = (sm_aenter (shard_map_init cfg))\<lparr>sm_snapshot := \<lparr>endings = [99], shard_ids = [1], shards = [(1, s)]\<rparr>\<rparr>;
       m' = install_snapshot cfg 5 \<lparr>endings = [], shard_ids = [], shards = []\<rparr> m
   in dict_get (closed_at m') 1 = Some 5 \<and> sm_state (snd (invalidate cfg 6 (Some 1) m')) = UPDATING"
  by (simp add: Let_def shard_map_init_def shard_map_cfg_default_def sm_aenter_def install_snapshot_def
    schedule_cleanup_def invalidate_def spawn_refresh_def)

text \<open>A shard that disappears, is still listed as closed when its TTL has passed at the next
  installation, and then reappears keeps its old stamp; the next cleanup drops the open shard from the
  dictionary, and \<open>hashrange\<close> no longer answers for it.\<close>

lemma merge_closed_untouched:
  "dict_get prev sid = None \<Longrightarrow>
   dict_get (snd (merge_closed now ttl new prev merged ca)) sid = dict_get ca sid"
  by (induction now ttl new prev merged ca rule: merge_closed.induct) (auto simp: Let_def split: if_splits)

lemma reopened_shard_is_purged:
  assumes "dict_get (shards (sm_snapshot m)) sid = Some s0" "dict_get (closed_at m) sid = Some c"
    "c + closed_shard_ttl cfg \<le> t1" "dict_get (shards snap1) sid = None" "dict_get (shards snap2) sid = Some s"
    "dict_ok (shards (sm_snapshot m))" "dict_ok (closed_at m)" "dict_ok (shards snap1)" "dict_ok (shards snap2)"
    "\<not> sm_closed m" "t1 \<le> t"
  shows "hashrange (install_snapshot cfg t2 snap2 (install_snapshot cfg t1 snap1 m)) sid
      = Some (starting_hash_key s, ending_hash_key s)
    \<and> hashrange (cleanup cfg t (install_snapshot cfg t2 snap2 (install_snapshot cfg t1 snap1 m))) sid = None"
proof -
  let ?m1 = "install_snapshot cfg t1 snap1 m"
  let ?m2 = "install_snapshot cfg t2 snap2 ?m1"
  have m1: "dict_get (shards (sm_snapshot ?m1)) sid = None" "dict_get (closed_at ?m1) sid = Some c"
    using merge_closed_spec [OF assms(4,6)] assms(1-4) by auto
  have ok1: "dict_ok (closed_at ?m1)" using merge_closed_dict_ok [OF assms(8,7)] by simp
  have m2: "dict_get (closed_at ?m2) sid = Some c" "dict_get (shards (sm_snapshot ?m2)) sid = Some s"
    using merge_closed_untouched [OF m1(1)] m1(2) assms(5)
    by (simp_all only: install_snapshot_sel(6,7) merge_closed_open)
      (simp_all add: merge_closed_open)
  have ok2: "dict_ok (closed_at ?m2)" "dict_ok (shards (sm_snapshot ?m2))"
    using merge_closed_dict_ok [OF assms(9) ok1] by (simp_all only: install_snapshot_sel(6,7))
  have "sid \<in> set (map fst (filter (\<lambda>c. snd c + closed_shard_ttl cfg \<le> t) (closed_at ?m2)))"
    using expired_iff [OF ok2(1) m2(1)] assms(3,11) by simp
  with cleanup_get [OF ok2(2), of cfg t sid] assms(10) m2(2) show ?thesis
    by (simp add: hashrange_def del: install_snapshot_sel(6,7))
qed

end
