(* ===== verification/Metrics.thy ===== *)
theory Metrics
  imports Python_Str
begin

text \<open>
  Model of \<^verbatim>\<open>src/aiokpl/metrics.py\<close> and of the data types of \<^verbatim>\<open>src/aiokpl/sinks/_types.py\<close>.  An
  accumulator is its deque of per-second buckets, oldest first; the registry of the manager is a
  dictionary from keys to accumulators.  Every clock reading is an argument.  The calls that the
  other components make of the manager are values of \<open>metric_call\<close>, replayed by \<open>mm_calls\<close>.  The
  accumulator is shown to compute exactly the statistics of the observations of its window.
\<close>

section \<open>Data\<close>

datatype MetricsLevel = NONE | SUMMARY | DETAILED

definition NAME_USER_RECORDS_RECEIVED :: pystr where "NAME_USER_RECORDS_RECEIVED = lit ''UserRecordsReceived''"
definition NAME_USER_RECORDS_PUT :: pystr where "NAME_USER_RECORDS_PUT = lit ''UserRecordsPut''"
definition NAME_USER_RECORDS_DATA_PUT :: pystr where "NAME_USER_RECORDS_DATA_PUT = lit ''UserRecordsDataPut''"
definition NAME_USER_RECORDS_PENDING :: pystr where "NAME_USER_RECORDS_PENDING = lit ''UserRecordsPending''"
definition NAME_KINESIS_RECORDS_PUT :: pystr where "NAME_KINESIS_RECORDS_PUT = lit ''KinesisRecordsPut''"
definition NAME_KINESIS_RECORDS_DATA_PUT :: pystr where "NAME_KINESIS_RECORDS_DATA_PUT = lit ''KinesisRecordsDataPut''"
definition NAME_ALL_ERRORS :: pystr where "NAME_ALL_ERRORS = lit ''AllErrors''"
definition NAME_ERRORS_BY_CODE :: pystr where "NAME_ERRORS_BY_CODE = lit ''ErrorsByCode''"
definition NAME_RETRIES_PER_RECORD :: pystr where "NAME_RETRIES_PER_RECORD = lit ''RetriesPerRecord''"
definition NAME_BUFFERED_TIME :: pystr where "NAME_BUFFERED_TIME = lit ''BufferedTime''"
definition NAME_REQUEST_TIME :: pystr where "NAME_REQUEST_TIME = lit ''RequestTime''"
definition NAME_EXPIRED_RECORDS :: pystr where "NAME_EXPIRED_RECORDS = lit ''ExpiredRecords''"

definition WINDOW_SECONDS :: int where "WINDOW_SECONDS = 60"

record Bucket =
  bk_count :: nat
  bk_sum :: real
  bk_min :: pyfloat
  bk_max :: pyfloat

definition bucket_init :: Bucket where
  "bucket_init = \<lparr>bk_count = 0, bk_sum = 0, bk_min = PInf, bk_max = NInf\<rparr>"

section \<open>The accumulator\<close>

record Accumulator =
  window :: int
  buckets :: "(int \<times> Bucket) list"

definition acc_init :: "int \<Rightarrow> Accumulator" where
  "acc_init w = \<lparr>window = w, buckets = []\<rparr>"

text \<open>\<open>int(x)\<close> truncates towards zero.\<close>

definition py_trunc :: "real \<Rightarrow> int" where
  "py_trunc x = (if 0 \<le> x then \<lfloor>x\<rfloor> else \<lceil>x\<rceil>)"

definition acc_evict :: "int \<Rightarrow> Accumulator \<Rightarrow> Accumulator" where
  "acc_evict now_sec a =
     (let cutoff = now_sec - window a + 1 in
      a\<lparr>buckets := dropWhile (\<lambda>b. fst b < cutoff) (buckets a)\<rparr>)"

definition bucket_put :: "real \<Rightarrow> Bucket \<Rightarrow> Bucket" where
  "bucket_put v b = \<lparr>bk_count = bk_count b + 1, bk_sum = bk_sum b + v,
     bk_min = (if Fin v < bk_min b then Fin v else bk_min b),
     bk_max = (if bk_max b < Fin v then Fin v else bk_max b)\<rparr>"

text \<open>The bucket of the second is the last one of the deque, or a new one at its end.\<close>

definition put_bucket :: "int \<Rightarrow> real \<Rightarrow> (int \<times> Bucket) list \<Rightarrow> (int \<times> Bucket) list" where
  "put_bucket now_sec v bs =
     (if bs \<noteq> [] \<and> fst (last bs) = now_sec
      then butlast bs @ [(now_sec, bucket_put v (snd (last bs)))]
      else bs @ [(now_sec, bucket_put v bucket_init)])"

definition acc_put :: "real \<Rightarrow> real \<Rightarrow> Accumulator \<Rightarrow> Accumulator" where
  "acc_put clock v a =
     (let now_sec = py_trunc clock; a = acc_evict now_sec a in
      a\<lparr>buckets := put_bucket now_sec v (buckets a)\<rparr>)"

type_synonym stats = "nat \<times> real \<times> pyfloat \<times> pyfloat"

fun stats_loop :: "stats \<Rightarrow> (int \<times> Bucket) list \<Rightarrow> stats" where
  "stats_loop st [] = st"
| "stats_loop (c, s, mn, mx) ((_, b) # bs) =
     stats_loop (c + bk_count b, s + bk_sum b, if bk_min b < mn then bk_min b else mn,
       if mx < bk_max b then bk_max b else mx) bs"

definition acc_stats :: "real \<Rightarrow> Accumulator \<Rightarrow> stats option \<times> Accumulator" where
  "acc_stats clock a =
     (let a = acc_evict (py_trunc clock) a in
      (if buckets a = [] then None else Some (stats_loop (0, 0, PInf, NInf) (buckets a)), a))"

definition window_bounds :: "Accumulator \<Rightarrow> real \<times> real" where
  "window_bounds a =
     (if buckets a = [] then (0, 0)
      else (real_of_int (fst (hd (buckets a))), real_of_int (fst (last (buckets a)) + 1)))"

section \<open>Keys, snapshots and the manager\<close>

record MetricKey =
  mk_name :: pystr
  mk_stream :: "pystr option"
  mk_shard_id :: "pystr option"
  mk_error_code :: "pystr option"

definition dimension :: "string \<Rightarrow> pystr option \<Rightarrow> (pystr \<times> pystr) list" where
  "dimension n v = (case v of None \<Rightarrow> [] | Some x \<Rightarrow> [(lit n, x)])"

definition dimensions :: "MetricKey \<Rightarrow> (pystr \<times> pystr) list" where
  "dimensions k = dimension ''stream'' (mk_stream k) @ dimension ''shard'' (mk_shard_id k)
     @ dimension ''error_code'' (mk_error_code k)"

record MetricEvent =
  me_name :: pystr
  me_value :: real
  me_timestamp :: real
  me_dimensions :: "(pystr \<times> pystr) list"

record MetricSnapshot =
  ms_name :: pystr
  ms_count :: nat
  ms_sum :: real
  ms_min :: pyfloat
  ms_max :: pyfloat
  ms_dimensions :: "(pystr \<times> pystr) list"
  ms_window_start :: real
  ms_window_end :: real

text \<open>The manager: \<open>eventful\<close> says whether its sink implements \<open>EventfulMetricsSink\<close>; \<open>recorded\<close> and
  \<open>exported\<close> are the calls it has made of the sink; \<open>sink_open\<close> that the sink was entered and not yet left; \<open>mm_tg\<close> and \<open>upload_scope\<close>
  that the task group and the state with its scope are set; \<open>upload_task\<close> that the upload loop is running, and \<open>upload_error\<close> the exception that
  ended it.\<close>

record MetricsManager =
  level :: MetricsLevel
  eventful :: bool
  registry :: "(MetricKey \<times> Accumulator) list"
  recorded :: "MetricEvent list"
  exported :: "MetricSnapshot list list"
  sink_open :: bool
  mm_tg :: bool
  upload_scope :: bool
  upload_task :: bool
  upload_error :: "pyerr option"
  mm_closed :: bool

definition mm_init :: "MetricsLevel \<Rightarrow> bool \<Rightarrow> MetricsManager" where
  "mm_init l ev = \<lparr>level = l, eventful = ev, registry = [], recorded = [], exported = [], sink_open = False,
     mm_tg = False, upload_scope = False, upload_task = False, upload_error = None, mm_closed = False\<rparr>"

datatype metric_call = MetricPut (call_name: pystr) (call_value: real) (call_stream: "pystr option")
  (call_shard: "pystr option") (call_error: "pystr option")

definition mm_key :: "MetricsLevel \<Rightarrow> metric_call \<Rightarrow> MetricKey" where
  "mm_key l c =
     (if l = SUMMARY
      then \<lparr>mk_name = call_name c, mk_stream = call_stream c, mk_shard_id = None, mk_error_code = None\<rparr>
      else \<lparr>mk_name = call_name c, mk_stream = call_stream c, mk_shard_id = call_shard c,
            mk_error_code = call_error c\<rparr>)"

text \<open>\<open>put\<close> reads the clock in the accumulator and once more for the event.\<close>

definition mm_put :: "real \<Rightarrow> real \<Rightarrow> metric_call \<Rightarrow> MetricsManager \<Rightarrow> MetricsManager" where
  "mm_put clock clock2 c m =
     (if level m = NONE then m
      else let key = mm_key (level m) c;
          metric = (case dict_get (registry m) key of Some a \<Rightarrow> a | None \<Rightarrow> acc_init WINDOW_SECONDS);
          m = m\<lparr>registry := dict_set key (acc_put clock (call_value c) metric) (registry m)\<rparr> in
        if eventful m
        then m\<lparr>recorded := recorded m @ [\<lparr>me_name = call_name c, me_value = call_value c,
               me_timestamp = clock2, me_dimensions = dimensions key\<rparr>]\<rparr>
        else m)"

fun mm_calls :: "(real \<times> real \<times> metric_call) list \<Rightarrow> MetricsManager \<Rightarrow> MetricsManager" where
  "mm_calls [] m = m"
| "mm_calls ((t, t2, c) # cs) m = mm_calls cs (mm_put t t2 c m)"

text \<open>The registry is walked in order; reading the statistics evicts, clock readings per metric.\<close>

fun walk_registry :: "(nat \<Rightarrow> real) \<Rightarrow> nat \<Rightarrow> (MetricKey \<times> Accumulator) list
    \<Rightarrow> (MetricKey \<times> stats \<times> Accumulator) list \<times> (MetricKey \<times> Accumulator) list" where
  "walk_registry clk i [] = ([], [])"
| "walk_registry clk i ((k, a) # reg) =
     (let (st, a') = acc_stats (clk i) a; (out, reg') = walk_registry clk (i + 1) reg in
      (case st of None \<Rightarrow> out | Some s \<Rightarrow> (k, s, a') # out, (k, a') # reg'))"

definition snapshot :: "(nat \<Rightarrow> real) \<Rightarrow> MetricsManager \<Rightarrow> (MetricKey \<times> stats) list \<times> MetricsManager" where
  "snapshot clk m =
     (let (out, reg) = walk_registry clk 0 (registry m) in
      (map (\<lambda>(k, s, _). (k, s)) out, m\<lparr>registry := reg\<rparr>))"

definition mk_snapshot :: "MetricKey \<times> stats \<times> Accumulator \<Rightarrow> MetricSnapshot" where
  "mk_snapshot e = (case e of (k, (c, s, mn, mx), a) \<Rightarrow>
     \<lparr>ms_name = mk_name k, ms_count = c, ms_sum = s, ms_min = mn, ms_max = mx,
      ms_dimensions = dimensions k, ms_window_start = fst (window_bounds a),
      ms_window_end = snd (window_bounds a)\<rparr>)"

definition snapshots :: "(nat \<Rightarrow> real) \<Rightarrow> MetricsManager \<Rightarrow> MetricSnapshot list \<times> MetricsManager" where
  "snapshots clk m =
     (let (out, reg) = walk_registry clk 0 (registry m) in
      (map mk_snapshot out, m\<lparr>registry := reg\<rparr>))"

text \<open>The sink belongs to the user: \<open>export snaps\<close> is the exception its \<open>export\<close> raises, if any; entering and leaving it may
  raise too.\<close>

definition mm_flush :: "(MetricSnapshot list \<Rightarrow> pyerr option) \<Rightarrow> (nat \<Rightarrow> real) \<Rightarrow> MetricsManager
    \<Rightarrow> pyerr option \<times> MetricsManager" where
  "mm_flush export clk m =
     (if level m = NONE then (None, m)
      else let (snaps, m) = snapshots clk m in
        if snaps = [] then (None, m) else (export snaps, m\<lparr>exported := exported m @ [snaps]\<rparr>))"

definition mm_aenter :: "pyerr option \<Rightarrow> MetricsManager \<Rightarrow> pyerr option \<times> MetricsManager" where
  "mm_aenter sink_enters m =
     (if level m = NONE then (None, m)
      else case sink_enters of
        Some e \<Rightarrow> (Some e, m)
      | None \<Rightarrow> (None, m\<lparr>sink_open := True, mm_tg := True, upload_scope := True, upload_task := True\<rparr>))"

text \<open>Leaving cancels the scope, which ends the upload loop; leaving the task group raises what the loop ended with.\<close>

definition mm_aexit :: "(MetricSnapshot list \<Rightarrow> pyerr option) \<Rightarrow> (nat \<Rightarrow> real) \<Rightarrow> pyerr option \<Rightarrow> MetricsManager
    \<Rightarrow> pyerr option \<times> MetricsManager" where
  "mm_aexit export clk sink_exits m =
     (if level m = NONE then (None, m)
      else case mm_flush export clk (m\<lparr>mm_closed := True\<rparr>) of
        (Some e, m) \<Rightarrow> (Some e, m)
      | (None, m) \<Rightarrow>
          if \<not> upload_scope m then (Some AssertionError, m)
          else let m = m\<lparr>upload_task := False\<rparr>; tg = mm_tg m; m = m\<lparr>mm_tg := False\<rparr> in
            if \<not> tg then (Some AssertionError, m)
            else (case upload_error m of
              Some e \<Rightarrow> (Some e, m)
            | None \<Rightarrow> (sink_exits, m\<lparr>sink_open := False\<rparr>)))"

text \<open>The upload loop: a flush after every sleep, for the list of what the sink and the clock do in each turn.  The end of the list is
  the cancellation during a sleep; an exception of the sink ends the loop.\<close>

fun upload_loop :: "((MetricSnapshot list \<Rightarrow> pyerr option) \<times> (nat \<Rightarrow> real)) list \<Rightarrow> MetricsManager \<Rightarrow> MetricsManager" where
  "upload_loop [] m = m"
| "upload_loop ((export, clk) # turns) m =
     (case mm_flush export clk m of
        (Some e, m) \<Rightarrow> m\<lparr>upload_task := False, upload_error := Some e\<rparr>
      | (None, m) \<Rightarrow> upload_loop turns m)"

section \<open>The window is exact\<close>

text \<open>The abstract accumulator is the list of its observations, a second and a value each.\<close>

definition group :: "(int \<times> real) list \<Rightarrow> (int \<times> Bucket) list" where
  "group h = foldl (\<lambda>bs (s, v). put_bucket s v bs) [] h"

lemma group_Nil [simp]: "group [] = []"
  by (simp add: group_def)

lemma group_snoc [simp]: "group (h @ [(s, v)]) = put_bucket s v (group h)"
  by (simp add: group_def)

abbreviation secs :: "(int \<times> 'a) list \<Rightarrow> int list" where
  "secs bs \<equiv> map fst bs"

lemma put_bucket_snoc:
  "put_bucket s v (bs @ [(s', b)]) =
     (if s' = s then bs @ [(s, bucket_put v b)] else bs @ [(s', b), (s, bucket_put v bucket_init)])"
  by (simp add: put_bucket_def)

lemma put_bucket_Nil: "put_bucket s v [] = [(s, bucket_put v bucket_init)]"
  by (simp add: put_bucket_def)

text \<open>The buckets of a history in time order are in strict order.\<close>

lemma sorted_put_bucket:
  "sorted (secs bs) \<Longrightarrow> \<forall>b\<in>set bs. fst b \<le> s \<Longrightarrow>
   sorted (secs (put_bucket s v bs)) \<and> (\<forall>b\<in>set (put_bucket s v bs). fst b \<le> s)"
  by (cases bs rule: rev_cases) (auto simp: put_bucket_def sorted_append)

lemma group_sorted: "sorted (secs h) \<Longrightarrow> \<forall>x\<in>set h. fst x \<le> s \<Longrightarrow>
   sorted (secs (group h)) \<and> (\<forall>b\<in>set (group h). fst b \<le> s)"
proof (induction h arbitrary: s rule: rev_induct)
  case (snoc x h)
  obtain t v where x: "x = (t, v)" by fastforce
  have "sorted (secs (group h)) \<and> (\<forall>b\<in>set (group h). fst b \<le> t)"
    using snoc by (auto simp: sorted_append x)
  with sorted_put_bucket [of "group h" t v] snoc.prems show ?case by (force simp: x)
qed simp

lemma dropWhile_sorted:
  "sorted (secs bs) \<Longrightarrow> dropWhile (\<lambda>b. fst b < c) bs = filter (\<lambda>b. c \<le> fst b) bs"
  by (induction bs) (auto simp: not_less dest: order_trans intro!: filter_True [symmetric])

lemma filter_put_bucket:
  assumes "c \<le> s" "sorted (secs bs)"
  shows "filter (\<lambda>b. c \<le> fst b) (put_bucket s v bs) = put_bucket s v (filter (\<lambda>b. c \<le> fst b) bs)"
proof (cases bs rule: rev_cases)
  case (snoc ys y)
  obtain t b where y: "y = (t, b)" by fastforce
  show ?thesis
  proof (cases "c \<le> t")
    case False
    then have "filter (\<lambda>b. c \<le> fst b) ys = []"
      using assms(2) by (auto simp: snoc y sorted_append filter_empty_conv)
    with False assms(1) show ?thesis by (simp add: snoc y put_bucket_snoc put_bucket_Nil)
  qed (use assms(1) in \<open>simp add: snoc y put_bucket_snoc\<close>)
qed (use assms(1) in \<open>simp add: put_bucket_Nil\<close>)

lemma filter_group:
  "sorted (secs h) \<Longrightarrow> filter (\<lambda>b. c \<le> fst b) (group h) = group (filter (\<lambda>b. c \<le> fst b) h)"
proof (induction h rule: rev_induct)
  case (snoc x h)
  obtain t v where x: "x = (t, v)" by fastforce
  have h: "sorted (secs h)" "\<forall>y\<in>set h. fst y \<le> t"
    using snoc.prems by (auto simp: sorted_append x)
  from group_sorted [OF h] have g: "sorted (secs (group h))" "\<forall>b\<in>set (group h). fst b \<le> t" by auto
  show ?case
  proof (cases "c \<le> t")
    case True
    with filter_put_bucket [OF True g(1)] snoc.IH [OF h(1)] show ?thesis by (simp add: x)
  next
    case False
    then have "filter (\<lambda>b. c \<le> fst b) (put_bucket t v (group h)) = []"
      using sorted_put_bucket [OF g] by (force simp: filter_empty_conv)
    moreover have "filter (\<lambda>b. c \<le> fst b) (h @ [x]) = []"
      using False h(2) by (force simp: filter_empty_conv x)
    ultimately show ?thesis by (simp add: x)
  qed
qed simp

lemma group_eq_Nil [simp]: "group h = [] \<longleftrightarrow> h = []"
proof (cases h rule: rev_cases)
  case (snoc g x)
  then show ?thesis by (cases x) (simp add: put_bucket_def)
qed simp

lemma evict_group:
  assumes "sorted (secs h)"
  shows "acc_evict n \<lparr>window = w, buckets = group h\<rparr> =
    \<lparr>window = w, buckets = group (filter (\<lambda>x. n - w + 1 \<le> fst x) h)\<rparr>"
  using assms group_sorted [OF assms, of "Max (insert 0 (fst ` set h))"]
  by (simp add: acc_evict_def dropWhile_sorted filter_group)

text \<open>The totals over the buckets are the totals over the observations.\<close>

fun pymax :: "pyfloat list \<Rightarrow> pyfloat" where
  "pymax [] = NInf"
| "pymax (x # xs) = max x (pymax xs)"

lemma pymin_append: "pymin (xs @ ys) = min (pymin xs) (pymin ys)"
  by (induction xs) (auto simp: min.assoc)

lemma pymax_append: "pymax (xs @ ys) = max (pymax xs) (pymax ys)"
  by (induction xs) (auto simp: max.assoc max_def)

definition totals :: "real list \<Rightarrow> stats" where
  "totals vs = (length vs, sum_list vs, pymin (map Fin vs), pymax (map Fin vs))"

fun join :: "stats \<Rightarrow> stats \<Rightarrow> stats" where
  "join (c, s, mn, mx) (c', s', mn', mx') = (c + c', s + s', min mn mn', max mx mx')"

lemma join_assoc: "join (join a b) c = join a (join b c)"
  by (cases a; cases b; cases c) (simp add: min.assoc max.assoc)

lemma join_unit [simp]: "join (0, 0, PInf, NInf) st = st" "join st (0, 0, PInf, NInf) = st"
  by (cases st, simp add: max_def)+

definition bstats :: "Bucket \<Rightarrow> stats" where
  "bstats b = (bk_count b, bk_sum b, bk_min b, bk_max b)"

lemma bstats_put: "bstats (bucket_put v b) = join (bstats b) (totals [v])"
  by (auto simp: bstats_def bucket_put_def totals_def min_def max_def less_le_not_le)

lemma bstats_init [simp]: "bstats bucket_init = (0, 0, PInf, NInf)"
  by (simp add: bstats_def bucket_init_def)

lemma stats_loop_join: "stats_loop st bs = join st (stats_loop (0, 0, PInf, NInf) bs)"
proof (induction bs arbitrary: st)
  case Nil
  then show ?case by (cases st) simp
next
  case (Cons x bs)
  obtain t b where x: "x = (t, b)" by fastforce
  have step: "stats_loop st (x # bs) = stats_loop (join st (bstats b)) bs" for st
    by (cases st) (auto simp: x bstats_def min_def max_def less_le_not_le)
  show ?case
    unfolding step by (subst (1 2) Cons.IH) (simp add: join_assoc)
qed

lemma stats_loop_append:
  "stats_loop st (xs @ ys) = stats_loop (stats_loop st xs) ys"
  by (induction st xs rule: stats_loop.induct) auto

lemma stats_loop_single: "stats_loop st [(t, b)] = join st (bstats b)"
  by (cases st) (auto simp: bstats_def min_def max_def less_le_not_le)

lemma stats_loop_two: "stats_loop st [(t, b), (t', b')] = join (join st (bstats b)) (bstats b')"
  using stats_loop_append [of st "[(t, b)]" "[(t', b')]"] by (simp add: stats_loop_single)

lemma stats_put_bucket:
  "stats_loop st (put_bucket s v bs) = join (stats_loop st bs) (totals [v])"
proof (cases bs rule: rev_cases)
  case Nil
  then show ?thesis by (simp add: put_bucket_Nil stats_loop_single bstats_put)
next
  case (snoc ys y)
  then show ?thesis
    by (cases y) (simp add: put_bucket_snoc stats_loop_append stats_loop_single stats_loop_two
      bstats_put join_assoc del: stats_loop.simps)
qed

lemma totals_snoc: "totals (vs @ [v]) = join (totals vs) (totals [v])"
  by (simp add: totals_def pymin_append pymax_append)

lemma stats_group: "stats_loop (0, 0, PInf, NInf) (group h) = totals (map snd h)"
proof (induction h rule: rev_induct)
  case (snoc x h)
  then show ?case by (cases x) (simp add: stats_put_bucket totals_snoc)
qed (simp add: totals_def)

text \<open>A run of observations at increasing times.\<close>

definition secs_of :: "(real \<times> real) list \<Rightarrow> (int \<times> real) list" where
  "secs_of h = map (\<lambda>(t, v). (py_trunc t, v)) h"

lemma py_trunc_mono: "s \<le> t \<Longrightarrow> py_trunc s \<le> py_trunc t"
  by (auto simp: py_trunc_def floor_mono ceiling_mono)
    (meson ceiling_le_zero dual_order.trans linorder_not_le order_less_imp_le zero_le_floor)

lemma secs_of_sorted: "sorted (map fst h) \<Longrightarrow> sorted (secs (secs_of h))"
  by (induction h) (auto simp: secs_of_def py_trunc_mono)

definition acc_run :: "int \<Rightarrow> (real \<times> real) list \<Rightarrow> Accumulator" where
  "acc_run w h = foldl (\<lambda>a (t, v). acc_put t v a) (acc_init w) h"

lemma acc_run_snoc: "acc_run w (h @ [(t, v)]) = acc_put t v (acc_run w h)"
  by (simp add: acc_run_def)

lemma filter_filter_le:
  "(c :: int) \<le> d \<Longrightarrow> filter (\<lambda>x. d \<le> fst x) (filter (\<lambda>x. c \<le> fst x) h) = filter (\<lambda>x. d \<le> fst x) h"
  by (induction h) auto

lemma acc_run_evict:
  "sorted (map fst h) \<Longrightarrow> \<forall>x\<in>set h. py_trunc (fst x) \<le> n \<Longrightarrow>
   acc_evict n (acc_run w h) = \<lparr>window = w, buckets = group (filter (\<lambda>x. n - w + 1 \<le> fst x) (secs_of h))\<rparr>"
proof (induction h arbitrary: n rule: rev_induct)
  case Nil
  then show ?case by (simp add: acc_run_def acc_init_def acc_evict_def secs_of_def)
next
  case (snoc x h)
  obtain t v where x: "x = (t, v)" by fastforce
  let ?s = "py_trunc t" and ?g = "filter (\<lambda>x. py_trunc t - w + 1 \<le> fst x) (secs_of h)"
  have so: "sorted (map fst h)" "\<forall>y\<in>set h. py_trunc (fst y) \<le> ?s"
    using snoc.prems by (auto simp: sorted_append x py_trunc_mono)
  have run: "acc_run w (h @ [x]) = \<lparr>window = w, buckets = group (?g @ [(?s, v)])\<rparr>"
    using snoc.IH [OF so] by (simp add: x acc_run_snoc acc_put_def Let_def)
  have so': "sorted (secs (?g @ [(?s, v)]))"
    using secs_of_sorted [OF so(1)] so(2)
    by (auto simp: sorted_append secs_of_def intro!: sorted_filter)
  have "?s - w + 1 \<le> n - w + 1" using snoc.prems by (simp add: x)
  from filter_filter_le [OF this, of "secs_of h"] show ?case
    by (simp only: run evict_group [OF so'] filter_append) (simp add: secs_of_def x)
qed

lemma secs_of_window:
  "map snd (filter (\<lambda>x. c \<le> fst x) (secs_of h)) = map snd (filter (\<lambda>x. c \<le> py_trunc (fst x)) h)"
  by (induction h) (auto simp: secs_of_def)

text \<open>C28.  The rolling window is exact: after any observations at non-decreasing times, the
  statistics read at a later time are the count, sum, minimum and maximum of exactly the
  observations whose second lies within the last \<open>w\<close> seconds, and \<open>None\<close> when there is none.  (The
  eviction is lazy and the buckets are shared within a second; neither shows.)\<close>

theorem accumulator_window_exact:
  assumes "sorted (map fst h)" "\<forall>x\<in>set h. fst x \<le> now"
  shows "fst (acc_stats now (acc_run w h)) =
    (let vs = map snd (filter (\<lambda>x. py_trunc now - w < py_trunc (fst x)) h) in
     if vs = [] then None else Some (length vs, sum_list vs, pymin (map Fin vs), pymax (map Fin vs)))"
proof -
  let ?c = "py_trunc now - w + 1"
  let ?g = "filter (\<lambda>x. ?c \<le> fst x) (secs_of h)"
  have "\<forall>x\<in>set h. py_trunc (fst x) \<le> py_trunc now" using assms(2) py_trunc_mono by blast
  from acc_run_evict [OF assms(1) this, of w]
  have "fst (acc_stats now (acc_run w h)) = (if ?g = [] then None else Some (totals (map snd ?g)))"
    by (simp add: acc_stats_def stats_group)
  moreover have "map snd ?g = map snd (filter (\<lambda>x. py_trunc now - w < py_trunc (fst x)) h)"
    using secs_of_window [of ?c h] by (simp add: add1_zle_eq)
  moreover have "?g = [] \<longleftrightarrow> map snd ?g = []" by simp
  ultimately show ?thesis by (simp only: Let_def totals_def)
qed

theorem accumulator_window_exact_witness:
  "fst (acc_stats 63 (acc_run 60 [(1, 5), (2, 7), (62, 4), (62, 6)])) = Some (2, 10, Fin 4, Fin 6)"
  using accumulator_window_exact [of "[(1, 5), (2, 7), (62, 4), (62, 6)]" 63 60]
  by (simp add: py_trunc_def Let_def max_def)

definition coarse :: "MetricKey \<Rightarrow> bool" where
  "coarse k \<longleftrightarrow> mk_shard_id k = None \<and> mk_error_code k = None"

lemma mm_put_level [simp]: "level (mm_put t t2 c m) = level m"
  by (simp add: mm_put_def Let_def)

lemma mm_calls_level [simp]: "level (mm_calls cs m) = level m"
  by (induction cs m rule: mm_calls.induct) simp_all

lemma mm_put_summary:
  "level m = SUMMARY \<Longrightarrow> \<forall>k\<in>fst ` set (registry m). coarse k \<Longrightarrow> k \<in> fst ` set (registry (mm_put t t2 c m)) \<Longrightarrow> coarse k"
  by (auto simp: mm_put_def Let_def mm_key_def coarse_def split: if_splits)

lemma mm_calls_summary:
  "level m = SUMMARY \<Longrightarrow> \<forall>k\<in>fst ` set (registry m). coarse k \<Longrightarrow>
   \<forall>k\<in>fst ` set (registry (mm_calls cs m)). coarse k"
proof (induction cs m rule: mm_calls.induct)
  case (2 t t2 c cs m)
  have "\<forall>k\<in>fst ` set (registry (mm_put t t2 c m)). coarse k"
    using mm_put_summary [OF "2.prems"] by blast
  with "2.IH" "2.prems" show ?case by simp
qed simp

lemma mm_calls_dict_ok: "dict_ok (registry m) \<Longrightarrow> dict_ok (registry (mm_calls cs m))"
proof (induction cs m rule: mm_calls.induct)
  case (2 t t2 c cs m)
  then show ?case by (simp add: mm_put_def Let_def)
qed simp

lemma mm_calls_none: "level m = NONE \<Longrightarrow> mm_calls cs m = m"
  by (induction cs m rule: mm_calls.induct) (simp_all add: mm_put_def)

text \<open>What a flush changes: the registry loses what is out of its window, and the sink gets the statistics of what is left.\<close>

lemma mm_flush_spec:
  assumes "level m \<noteq> NONE" "mm_flush export clk m = (e, m')"
  shows "(let snaps = fst (snapshots clk m) in
       e = (if snaps = [] then None else export snaps) \<and> exported m' = exported m @ (if snaps = [] then [] else [snaps]))
    \<and> level m' = level m \<and> sink_open m' = sink_open m \<and> mm_tg m' = mm_tg m \<and> upload_scope m' = upload_scope m
    \<and> upload_task m' = upload_task m \<and> upload_error m' = upload_error m"
  using assms by (auto simp: mm_flush_def snapshots_def Let_def split: prod.splits if_splits)

text \<open>The life of a manager between enter and exit: observations, flushes by the owner and turns of the upload loop.\<close>

inductive mrun :: "MetricsLevel \<Rightarrow> bool \<Rightarrow> MetricsManager \<Rightarrow> bool" for l ev where
  entered: "mm_aenter None (mm_init l ev) = (None, m) \<Longrightarrow> mrun l ev m"
| calls: "mrun l ev m \<Longrightarrow> mrun l ev (mm_calls cs m)"
| flush: "mrun l ev m \<Longrightarrow> mm_flush export clk m = (e, m') \<Longrightarrow> mrun l ev m'"
| upload: "mrun l ev m \<Longrightarrow> upload_task m \<Longrightarrow> mrun l ev (upload_loop turns m)"

definition mm_inv :: "MetricsLevel \<Rightarrow> MetricsManager \<Rightarrow> bool" where
  "mm_inv l m \<longleftrightarrow> level m = l \<and> sink_open m \<and> mm_tg m \<and> upload_scope m \<and> upload_task m = (upload_error m = None)"

lemma mm_inv_put: "mm_inv l m \<Longrightarrow> mm_inv l (mm_put t t2 c m)"
  by (simp add: mm_inv_def mm_put_def Let_def)

lemma mm_inv_calls: "mm_inv l m \<Longrightarrow> mm_inv l (mm_calls cs m)"
  by (induction cs m rule: mm_calls.induct) (auto intro: mm_inv_put)

lemma mm_inv_flush: "l \<noteq> NONE \<Longrightarrow> mm_inv l m \<Longrightarrow> mm_flush export clk m = (e, m') \<Longrightarrow> mm_inv l m'"
  using mm_flush_spec [of m export clk e m'] by (simp add: mm_inv_def)

lemma mm_inv_upload: "l \<noteq> NONE \<Longrightarrow> mm_inv l m \<Longrightarrow> mm_inv l (upload_loop turns m)"
proof (induction turns m rule: upload_loop.induct)
  case (2 export clk turns m)
  obtain e m' where f: "mm_flush export clk m = (e, m')" by fastforce
  have "mm_inv l m'" by (rule mm_inv_flush [OF "2.prems" f])
  with 2 f show ?case by (cases e) (auto simp: mm_inv_def)
qed simp

lemma mrun_inv: "mrun l ev m \<Longrightarrow> l \<noteq> NONE \<Longrightarrow> mm_inv l m"
proof (induction rule: mrun.induct)
  case (entered m)
  then show ?case by (auto simp: mm_aenter_def mm_init_def mm_inv_def)
qed (auto intro: mm_inv_calls mm_inv_flush mm_inv_upload)

text \<open>C29.  How a metrics manager shuts down.  After any use with metrics on, leaving it makes one last export of the live window (if that is not
  empty).  When the sink does not raise, now or in the upload loop before, the task group is left, the upload loop is over and the sink is closed.  When
  the last export raises, its exception leaves \<open>__aexit__\<close> at once: the upload loop goes on, and neither the task group nor the sink is left; and an
  exception that had ended the upload loop comes out of the exit, with the sink still open.\<close>

theorem metrics_shutdown:
  assumes "mrun l ev m" "l \<noteq> NONE" "mm_aexit export clk None m = (e, m')"
  shows "let snaps = fst (snapshots clk m); last_error = (if snaps = [] then None else export snaps) in
    exported m' = exported m @ (if snaps = [] then [] else [snaps])
    \<and> e = (if last_error = None then upload_error m else last_error)
    \<and> mm_tg m' = (last_error \<noteq> None) \<and> sink_open m' = (e \<noteq> None)
    \<and> upload_task m' = (upload_task m \<and> last_error \<noteq> None)"
proof -
  have inv: "level m = l" "sink_open m" "mm_tg m" "upload_scope m" using mrun_inv [OF assms(1,2)] by (simp_all add: mm_inv_def)
  let ?m = "m\<lparr>mm_closed := True\<rparr>"
  obtain e1 m1 where f: "mm_flush export clk ?m = (e1, m1)" by fastforce
  have snaps: "fst (snapshots clk ?m) = fst (snapshots clk m)" by (simp add: snapshots_def Let_def split: prod.splits)
  have "level ?m \<noteq> NONE" using inv(1) assms(2) by simp
  from mm_flush_spec [OF this f] snaps inv assms(2,3) f show ?thesis
    by (cases e1; cases "upload_error m") (auto simp: mm_aexit_def Let_def dest!: sym [of "Some _"])
qed

definition demo_snaps :: "nat \<Rightarrow> real" where
  "demo_snaps i = 5"

theorem metrics_shutdown_witness:
  "\<exists>m e m'. mrun DETAILED False m \<and> mm_aexit (\<lambda>_. Some (RuntimeError ''sink'')) demo_snaps None m = (e, m')
     \<and> e = Some (RuntimeError ''sink'') \<and> upload_task m' \<and> sink_open m'"
proof -
  let ?c = "MetricPut NAME_ALL_ERRORS 1 None None None"
  obtain m0 where m0: "mm_aenter None (mm_init DETAILED False) = (None, m0)" by (simp add: mm_aenter_def mm_init_def)
  define m where "m = mm_calls [(5, 5, ?c)] m0"
  have run: "mrun DETAILED False m" unfolding m_def by (intro mrun.calls mrun.entered [OF m0])
  have m0_eq: "registry m0 = []" "level m0 = DETAILED" "eventful m0 = False" "upload_task m0"
    using m0 by (auto simp: mm_aenter_def mm_init_def)
  then have "fst (snapshots demo_snaps m) \<noteq> []"
    by (simp add: m_def snapshots_def mm_put_def Let_def acc_stats_def acc_put_def acc_evict_def acc_init_def put_bucket_def
        WINDOW_SECONDS_def demo_snaps_def py_trunc_def)
  moreover have "upload_task m" using m0_eq by (simp add: m_def mm_put_def Let_def)
  moreover obtain e m' where ex: "mm_aexit (\<lambda>_. Some (RuntimeError ''sink'')) demo_snaps None m = (e, m')" by fastforce
  ultimately show ?thesis using metrics_shutdown [OF run _ ex] run by (auto simp: Let_def)
qed

text \<open>With the level \<open>NONE\<close> every call is a no-op, and so are enter, flush and exit; with \<open>SUMMARY\<close> no key of the registry, and with it
  no exported or recorded dimension, carries a shard or an error code; the keys of the registry are
  always distinct.\<close>

theorem metrics_levels:
  "mm_calls cs (mm_init NONE ev) = mm_init NONE ev
    \<and> mm_flush export clk (mm_init NONE ev) = (None, mm_init NONE ev)
    \<and> mm_aenter se (mm_init NONE ev) = (None, mm_init NONE ev) \<and> mm_aexit export clk sx (mm_init NONE ev) = (None, mm_init NONE ev)
    \<and> list_all (\<lambda>p. coarse (fst p)) (registry (mm_calls cs (mm_init SUMMARY ev)))
    \<and> dict_ok (registry (mm_calls cs (mm_init l ev)))"
  using mm_calls_summary [of "mm_init SUMMARY ev" cs] mm_calls_dict_ok [of "mm_init l ev" cs]
  by (simp add: mm_calls_none mm_flush_def mm_aenter_def mm_aexit_def mm_init_def list_all_iff)

end
