(* ===== verification/Sinks.thy ===== *)
theory Sinks
  imports Metrics
begin

text \<open>
  Models of the metric sinks under \<^verbatim>\<open>src/aiokpl/sinks\<close>: the null sink, the in-memory sink, and the adapters to
  CloudWatch, Datadog and OpenTelemetry.  The vendors' clients are outside the repository: a sink is modelled by the
  calls it makes of its client, in order, and a client call that can fail is a function argument.  The contract of a sink,
  that what is exported is delivered once and in order, is a locale, shown for the in-memory and the CloudWatch sink.
\<close>

section \<open>In memory and null\<close>

type_synonym InMemorySink = "MetricSnapshot list list"

definition memory_init :: InMemorySink where
  "memory_init = []"

definition memory_export :: "MetricSnapshot list \<Rightarrow> InMemorySink \<Rightarrow> InMemorySink" where
  "memory_export snaps sink = sink @ [snaps]"

definition all_snapshots :: "InMemorySink \<Rightarrow> MetricSnapshot list" where
  "all_snapshots sink = concat sink"

definition by_name :: "pystr \<Rightarrow> InMemorySink \<Rightarrow> MetricSnapshot list" where
  "by_name name sink = filter (\<lambda>s. ms_name s = name) (all_snapshots sink)"

definition null_export :: "MetricSnapshot list \<Rightarrow> unit \<Rightarrow> unit" where
  "null_export snaps sink = sink"

section \<open>CloudWatch\<close>

definition CLOUDWATCH_BATCH_LIMIT :: nat where "CLOUDWATCH_BATCH_LIMIT = 1000"

definition DIMENSION_NAMES :: "(pystr \<times> pystr) list" where
  "DIMENSION_NAMES = [(lit ''stream'', lit ''StreamName''), (lit ''shard'', lit ''ShardId''), (lit ''error_code'', lit ''ErrorCode'')]"

record Datum =
  MetricName :: pystr
  Dimensions :: "(pystr \<times> pystr) list"
  SampleCount :: real
  Sum :: real
  Minimum :: pyfloat
  Maximum :: pyfloat

definition snapshot_to_datum :: "MetricSnapshot \<Rightarrow> Datum" where
  "snapshot_to_datum s =
     \<lparr>MetricName = ms_name s,
      Dimensions = map (\<lambda>(key, v). (case dict_get DIMENSION_NAMES key of None \<Rightarrow> key | Some n \<Rightarrow> n, v)) (ms_dimensions s),
      SampleCount = real (ms_count s), Sum = ms_sum s, Minimum = ms_min s, Maximum = ms_max s\<rparr>"

record CloudWatchSink =
  cw_namespace :: pystr
  cw_client :: bool
  cw_client_ctx :: bool

definition cloudwatch_init :: "pystr \<Rightarrow> CloudWatchSink" where
  "cloudwatch_init namespace = \<lparr>cw_namespace = namespace, cw_client = False, cw_client_ctx = False\<rparr>"

definition cloudwatch_aenter :: "CloudWatchSink \<Rightarrow> CloudWatchSink" where
  "cloudwatch_aenter sink = sink\<lparr>cw_client_ctx := True, cw_client := True\<rparr>"

definition cloudwatch_aexit :: "CloudWatchSink \<Rightarrow> pyerr + CloudWatchSink" where
  "cloudwatch_aexit sink =
     (if \<not> cw_client_ctx sink then Inl AssertionError else Inr (sink\<lparr>cw_client := False, cw_client_ctx := False\<rparr>))"

text \<open>The loop over the chunks from position \<open>i\<close>; \<open>put_metric_data\<close> may raise, which ends it.  The result is the
  chunks that were posted and the exception.\<close>

function post_chunks :: "(Datum list \<Rightarrow> 'e option) \<Rightarrow> nat \<Rightarrow> Datum list \<Rightarrow> Datum list list \<times> 'e option" where
  "post_chunks put i datums =
     (if i < length datums
      then let chunk = take CLOUDWATCH_BATCH_LIMIT (drop i datums) in
        case put chunk of
          Some e \<Rightarrow> ([], Some e)
        | None \<Rightarrow> (case post_chunks put (i + CLOUDWATCH_BATCH_LIMIT) datums of (cs, e) \<Rightarrow> (chunk # cs, e))
      else ([], None))"
  by pat_completeness auto
termination by (relation "measure (\<lambda>(put, i, datums). length datums - i)") (auto simp: CLOUDWATCH_BATCH_LIMIT_def)

declare post_chunks.simps [simp del]

definition cloudwatch_export :: "(pystr \<Rightarrow> Datum list \<Rightarrow> 'e option) \<Rightarrow> CloudWatchSink \<Rightarrow> MetricSnapshot list
    \<Rightarrow> Datum list list \<times> 'e option" where
  "cloudwatch_export put_metric_data sink snaps =
     (if snaps = [] \<or> \<not> cw_client sink then ([], None)
      else post_chunks (put_metric_data (cw_namespace sink)) 0 (map snapshot_to_datum snaps))"

section \<open>Datadog\<close>

definition DISTRIBUTION_NAMES :: "pystr list" where
  "DISTRIBUTION_NAMES = [lit ''BufferedTime'', lit ''RequestTime'', lit ''RetriesPerRecord'']"

definition GAUGE_NAMES :: "pystr list" where
  "GAUGE_NAMES = [lit ''UserRecordsPending'']"

datatype dd_kind = DDCount | DDGauge

record DDSeries =
  dd_metric :: pystr
  dd_type :: dd_kind
  dd_ts :: real
  dd_value :: pyfloat
  dd_tags :: "pystr list"

record DDDistribution =
  ds_metric :: pystr
  ds_ts :: real
  ds_values :: "real list"
  ds_tags :: "pystr list"

definition mean :: "MetricSnapshot \<Rightarrow> real" where
  "mean s = (if ms_count s \<noteq> 0 then ms_sum s / real (ms_count s) else 0)"

definition dd_tags_of :: "MetricSnapshot \<Rightarrow> pystr list" where
  "dd_tags_of s = map (\<lambda>(k, v). k @ lit '':'' @ v) (ms_dimensions s)"

definition dd_ts_of :: "MetricSnapshot \<Rightarrow> real" where
  "dd_ts_of s = (if 0 < ms_window_end s then ms_window_end s else ms_window_start s)"

fun dd_loop :: "pystr \<Rightarrow> MetricSnapshot list \<Rightarrow> DDSeries list \<times> DDDistribution list" where
  "dd_loop prefix [] = ([], [])"
| "dd_loop prefix (s # ss) =
     (case dd_loop prefix ss of
        (series, distributions) \<Rightarrow>
          if ms_name s \<in> set DISTRIBUTION_NAMES
          then (series, \<lparr>ds_metric = prefix @ ms_name s, ds_ts = dd_ts_of s, ds_values = [mean s], ds_tags = dd_tags_of s\<rparr> # distributions)
          else if ms_name s \<in> set GAUGE_NAMES
          then (\<lparr>dd_metric = prefix @ ms_name s, dd_type = DDGauge, dd_ts = dd_ts_of s, dd_value = ms_max s, dd_tags = dd_tags_of s\<rparr> # series, distributions)
          else (\<lparr>dd_metric = prefix @ ms_name s, dd_type = DDCount, dd_ts = dd_ts_of s, dd_value = Fin (ms_sum s), dd_tags = dd_tags_of s\<rparr> # series, distributions))"

datatype dd_call = SubmitMetrics "DDSeries list" | SubmitDistributionPoints "DDDistribution list"

record DatadogSink =
  dd_metric_prefix :: pystr
  dd_api :: bool

definition datadog_aenter :: "DatadogSink \<Rightarrow> DatadogSink" where
  "datadog_aenter sink = sink\<lparr>dd_api := True\<rparr>"

definition datadog_aexit :: "DatadogSink \<Rightarrow> pyerr + DatadogSink" where
  "datadog_aexit sink = (if \<not> dd_api sink then Inl AssertionError else Inr (sink\<lparr>dd_api := False\<rparr>))"

text \<open>The calls of \<^verbatim>\<open>export\<close> in order, with the exception the last of them raised, if any: an exception of
  \<^verbatim>\<open>submit_metrics\<close> leaves \<^verbatim>\<open>export\<close> before the distributions are submitted.\<close>

definition submit_if :: "('c \<Rightarrow> pyerr option) \<Rightarrow> bool \<Rightarrow> 'c \<Rightarrow> 'c list \<times> pyerr option" where
  "submit_if submit due c = (if due then ([c], submit c) else ([], None))"

definition datadog_export :: "(dd_call \<Rightarrow> pyerr option) \<Rightarrow> DatadogSink \<Rightarrow> MetricSnapshot list \<Rightarrow> dd_call list \<times> pyerr option" where
  "datadog_export submit sink snaps =
     (if snaps = [] \<or> \<not> dd_api sink then ([], None)
      else case dd_loop (dd_metric_prefix sink) snaps of
        (series, distributions) \<Rightarrow>
          (case submit_if submit (series \<noteq> []) (SubmitMetrics series) of
             (cs, Some e) \<Rightarrow> (cs, Some e)
           | (cs, None) \<Rightarrow>
               (case submit_if submit (distributions \<noteq> []) (SubmitDistributionPoints distributions) of
                  (ds, e) \<Rightarrow> (cs @ ds, e))))"

section \<open>OpenTelemetry\<close>

definition COUNTER_NAMES :: "pystr list" where
  "COUNTER_NAMES = [lit ''UserRecordsReceived'', lit ''UserRecordsPut'', lit ''UserRecordsDataPut'', lit ''KinesisRecordsPut'',
     lit ''KinesisRecordsDataPut'', lit ''AllErrors'', lit ''ErrorsByCode'', lit ''ExpiredRecords'']"

definition HISTOGRAM_NAMES :: "pystr list" where
  "HISTOGRAM_NAMES = [lit ''BufferedTime'', lit ''RequestTime'', lit ''RetriesPerRecord'']"

definition UPDOWN_NAMES :: "pystr list" where
  "UPDOWN_NAMES = [lit ''UserRecordsPending'']"

datatype otel_call =
    CreateCounter pystr
  | CreateHistogram pystr
  | CreateUpDownCounter pystr
  | CounterAdd pystr real "(pystr \<times> pystr) list"
  | HistogramRecord pystr real "(pystr \<times> pystr) list"
  | UpDownAdd pystr pyfloat "(pystr \<times> pystr) list"

record OpenTelemetrySink =
  instrument_prefix :: pystr
  counters :: "pystr list"
  histograms :: "pystr list"
  updowns :: "pystr list"
  last_count :: "((pystr \<times> (pystr \<times> pystr) list) \<times> real) list"

definition otel_init :: "pystr \<Rightarrow> OpenTelemetrySink" where
  "otel_init prefix = \<lparr>instrument_prefix = prefix, counters = [], histograms = [], updowns = [], last_count = []\<rparr>"

text \<open>\<open>dict(s.dimensions)\<close>\<close>

definition attrs_of :: "MetricSnapshot \<Rightarrow> (pystr \<times> pystr) list" where
  "attrs_of s = foldl (\<lambda>d (k, v). dict_set k v d) [] (ms_dimensions s)"

definition instrument_name :: "OpenTelemetrySink \<Rightarrow> pystr \<Rightarrow> pystr" where
  "instrument_name sink name = instrument_prefix sink @ name"

definition record_counter :: "MetricSnapshot \<Rightarrow> OpenTelemetrySink \<Rightarrow> otel_call list \<times> OpenTelemetrySink" where
  "record_counter s sink =
     (let known = ms_name s \<in> set (counters sink);
          created = (if known then [] else [CreateCounter (instrument_name sink (ms_name s))]);
          sink = (if known then sink else sink\<lparr>counters := counters sink @ [ms_name s]\<rparr>);
          key = (ms_name s, ms_dimensions s);
          prev = (case dict_get (last_count sink) key of None \<Rightarrow> 0 | Some x \<Rightarrow> x);
          delta = ms_sum s - prev;
          delta = (if delta < 0 then ms_sum s else delta) in
      (created @ [CounterAdd (ms_name s) delta (attrs_of s)], sink\<lparr>last_count := dict_set key (ms_sum s) (last_count sink)\<rparr>))"

definition record_histogram :: "MetricSnapshot \<Rightarrow> OpenTelemetrySink \<Rightarrow> otel_call list \<times> OpenTelemetrySink" where
  "record_histogram s sink =
     (let known = ms_name s \<in> set (histograms sink) in
      ((if known then [] else [CreateHistogram (instrument_name sink (ms_name s))]) @ [HistogramRecord (ms_name s) (mean s) (attrs_of s)],
       if known then sink else sink\<lparr>histograms := histograms sink @ [ms_name s]\<rparr>))"

definition record_updown :: "MetricSnapshot \<Rightarrow> OpenTelemetrySink \<Rightarrow> otel_call list \<times> OpenTelemetrySink" where
  "record_updown s sink =
     (let known = ms_name s \<in> set (updowns sink) in
      ((if known then [] else [CreateUpDownCounter (instrument_name sink (ms_name s))]) @ [UpDownAdd (ms_name s) (ms_max s) (attrs_of s)],
       if known then sink else sink\<lparr>updowns := updowns sink @ [ms_name s]\<rparr>))"

fun otel_export :: "MetricSnapshot list \<Rightarrow> OpenTelemetrySink \<Rightarrow> otel_call list \<times> OpenTelemetrySink" where
  "otel_export [] sink = ([], sink)"
| "otel_export (s # ss) sink =
     (case (if ms_name s \<in> set COUNTER_NAMES then record_counter s sink
            else if ms_name s \<in> set HISTOGRAM_NAMES then record_histogram s sink
            else if ms_name s \<in> set UPDOWN_NAMES then record_updown s sink
            else record_counter s sink) of
        (cs, sink) \<Rightarrow> (case otel_export ss sink of (cs', sink) \<Rightarrow> (cs @ cs', sink)))"

section \<open>The contract of a sink\<close>

locale metrics_sink =
  fixes export :: "MetricSnapshot list \<Rightarrow> 's \<Rightarrow> 's"
    and delivered :: "'s \<Rightarrow> 'd list"
    and enc :: "MetricSnapshot \<Rightarrow> 'd"
  assumes export_delivers: "delivered (export snaps s) = delivered s @ map enc snaps"
begin

lemma exports_deliver: "delivered (fold export bss s) = delivered s @ map enc (concat bss)"
  by (induction bss arbitrary: s) (simp_all add: export_delivers)

end

interpretation memory: metrics_sink memory_export all_snapshots "\<lambda>s. s"
  by unfold_locales (simp add: memory_export_def all_snapshots_def)

lemma post_chunks_all:
  "concat (fst (post_chunks (\<lambda>_. None :: pyerr option) i ds)) = drop i ds \<and> snd (post_chunks (\<lambda>_. None :: pyerr option) i ds) = None
    \<and> list_all (\<lambda>c. c \<noteq> [] \<and> length c \<le> CLOUDWATCH_BATCH_LIMIT) (fst (post_chunks (\<lambda>_. None :: pyerr option) i ds))"
proof (induction "length ds - i" arbitrary: i rule: less_induct)
  case less
  have L: "0 < CLOUDWATCH_BATCH_LIMIT" by (simp add: CLOUDWATCH_BATCH_LIMIT_def)
  show ?case
  proof (cases "i < length ds")
    case True
    let ?r = "post_chunks (\<lambda>_. None :: pyerr option) (i + CLOUDWATCH_BATCH_LIMIT) ds"
    have "post_chunks (\<lambda>_. None :: pyerr option) i ds = (take CLOUDWATCH_BATCH_LIMIT (drop i ds) # fst ?r, snd ?r)"
      using True by (simp add: post_chunks.simps [of _ i] Let_def split_beta)
    moreover have "take CLOUDWATCH_BATCH_LIMIT (drop i ds) @ drop (i + CLOUDWATCH_BATCH_LIMIT) ds = drop i ds"
      by (metis add.commute append_take_drop_id drop_drop)
    ultimately show ?thesis using less [of "i + CLOUDWATCH_BATCH_LIMIT"] True L by auto
  qed (simp add: post_chunks.simps [of _ i])
qed

text \<open>An open CloudWatch sink whose client does not raise, with the calls it has made.\<close>

definition cloudwatch_calls :: "CloudWatchSink \<Rightarrow> MetricSnapshot list \<Rightarrow> Datum list list \<Rightarrow> Datum list list" where
  "cloudwatch_calls sink snaps calls = calls @ fst (cloudwatch_export (\<lambda>_ _. None :: pyerr option) (cloudwatch_aenter sink) snaps)"

lemma cloudwatch_calls_concat: "concat (cloudwatch_calls sink snaps calls) = concat calls @ map snapshot_to_datum snaps"
  using post_chunks_all [of 0 "map snapshot_to_datum snaps"]
  by (simp add: cloudwatch_calls_def cloudwatch_export_def cloudwatch_aenter_def)

interpretation cloudwatch: metrics_sink "cloudwatch_calls sink" concat snapshot_to_datum for sink
  by unfold_locales (rule cloudwatch_calls_concat)


section \<open>What the Datadog sink submits\<close>

text \<open>Every snapshot becomes one entry, of the payload its name selects, in the order of the snapshots.\<close>

lemma dd_loop_partition:
  "map dd_metric (fst (dd_loop prefix snaps)) = map (\<lambda>s. prefix @ ms_name s) (filter (\<lambda>s. ms_name s \<notin> set DISTRIBUTION_NAMES) snaps)
    \<and> map ds_metric (snd (dd_loop prefix snaps)) = map (\<lambda>s. prefix @ ms_name s) (filter (\<lambda>s. ms_name s \<in> set DISTRIBUTION_NAMES) snaps)"
  by (induction snaps) (simp_all add: split_beta)

lemma dd_loop_length: "length (fst (dd_loop prefix snaps)) + length (snd (dd_loop prefix snaps)) = length snaps"
  by (induction snaps) (simp_all add: split_beta)

text \<open>No call has an empty payload, an exception ends the export, and it is the exception of the last call.\<close>

lemma datadog_export_calls:
  "case datadog_export submit sink snaps of
     (cs, None) \<Rightarrow> list_all (\<lambda>c. submit c = None) cs
   | (cs, Some e) \<Rightarrow> cs \<noteq> [] \<and> submit (last cs) = Some e \<and> list_all (\<lambda>c. submit c = None) (butlast cs)"
  "list_all (\<lambda>c. c \<noteq> SubmitMetrics [] \<and> c \<noteq> SubmitDistributionPoints []) (fst (datadog_export submit sink snaps))"
  by (auto simp: datadog_export_def submit_if_def split: prod.splits option.splits)

text \<open>When \<^verbatim>\<open>submit_metrics\<close> raises, the distributions of the same snapshots are not submitted at all.\<close>

lemma datadog_export_stops:
  assumes "dd_api sink" and "fst (dd_loop (dd_metric_prefix sink) snaps) = series" and "series \<noteq> []"
    and "submit (SubmitMetrics series) = Some e"
  shows "datadog_export submit sink snaps = ([SubmitMetrics series], Some e)"
  using assms by (cases snaps) (auto simp: datadog_export_def submit_if_def split: prod.splits)

section \<open>Two defects of the OpenTelemetry sink\<close>

definition demo_snapshot :: "string \<Rightarrow> real \<Rightarrow> MetricSnapshot" where
  "demo_snapshot name v = \<lparr>ms_name = lit name, ms_count = 1, ms_sum = v, ms_min = Fin v, ms_max = Fin v, ms_dimensions = [],
     ms_window_start = 0, ms_window_end = 1\<rparr>"

text \<open>A snapshot is the sum of a window, not a running total.  Two windows with nothing in common, with 100 and 150 records,
  add 150 to the counter instead of 250.\<close>

lemma otel_counter_undercounts:
  "fst (otel_export [demo_snapshot ''UserRecordsPut'' 100, demo_snapshot ''UserRecordsPut'' 150] (otel_init []))
     = [CreateCounter (lit ''UserRecordsPut''), CounterAdd (lit ''UserRecordsPut'') 100 [], CounterAdd (lit ''UserRecordsPut'') 50 []]"
  by (simp add: demo_snapshot_def otel_init_def record_counter_def COUNTER_NAMES_def instrument_name_def attrs_of_def lit_def)

text \<open>The number of pending records is a level, but it is added at every export: five pending records seen by two exports
  read as ten.\<close>

lemma otel_gauge_accumulates:
  "fst (otel_export [demo_snapshot ''UserRecordsPending'' 5, demo_snapshot ''UserRecordsPending'' 5] (otel_init []))
     = [CreateUpDownCounter (lit ''UserRecordsPending''), UpDownAdd (lit ''UserRecordsPending'') (Fin 5) [],
        UpDownAdd (lit ''UserRecordsPending'') (Fin 5) []]"
  by (simp add: demo_snapshot_def otel_init_def record_updown_def COUNTER_NAMES_def HISTOGRAM_NAMES_def UPDOWN_NAMES_def
      instrument_name_def attrs_of_def lit_def)

end
