(* ===== verification/Aggregation.thy ===== *)
theory Aggregation
  imports Python_Str Md5
begin

text \<open>
  Model of \<^verbatim>\<open>src/aiokpl/aggregation.py\<close>: the KPL wire format with its hand-written protobuf
  encoder and decoder.  A \<open>bytearray\<close> that a function appends to is passed in and returned; a
  decoder is given the buffer and a position and returns the value with the next position; the
  three \<open>while pos < n\<close> loops are recursive functions whose termination rests on every field
  advancing the position.  The theorems: every varint below 2 to the 70 round-trips, and
  decoding an encoded batch gives back the records.
\<close>

section \<open>Constants and data\<close>

definition MAGIC :: "byte list" where
  "MAGIC = [0xf3, 0x89, 0x9a, 0xc2]"

definition MD5_LEN :: nat where "MD5_LEN = 16"
definition WIRE_VARINT :: nat where "WIRE_VARINT = 0"
definition WIRE_LENGTH_DELIMITED :: nat where "WIRE_LENGTH_DELIMITED = 2"

record Tag =
  tag_key :: pystr
  tag_value :: "pystr option"

record UserRecord =
  partition_key :: pystr
  data :: "byte list"
  explicit_hash_key :: "pystr option"
  tags :: "Tag list"

record DecodedRecord =
  d_partition_key :: pystr
  d_explicit_hash_key :: "pystr option"
  d_data :: "byte list"
  d_tags :: "Tag list"

section \<open>Protobuf primitives\<close>

function encode_varint :: "nat \<Rightarrow> byte list \<Rightarrow> byte list" where
  "encode_varint value out =
     (if 0x7F < value
      then encode_varint (drop_bit 7 value) (out @ [byte_of ((value AND 0x7F) OR 0x80)])
      else out @ [byte_of (value AND 0x7F)])"
  by pat_completeness auto
termination
  by (relation "measure fst") (auto simp: drop_bit_eq_div)

declare encode_varint.simps [simp del]

function decode_varint_loop :: "byte list \<Rightarrow> nat \<Rightarrow> nat \<Rightarrow> nat \<Rightarrow> pyerr + nat \<times> nat" where
  "decode_varint_loop buf pos result shift =
     (if length buf \<le> pos then Inl (ValueError ''truncated varint'')
      else let b = unat (buf ! pos); pos' = pos + 1;
               result' = result OR push_bit shift (b AND 0x7F) in
        if b AND 0x80 = 0 then Inr (result', pos')
        else if 64 \<le> shift + 7 then Inl (ValueError ''varint too long'')
        else decode_varint_loop buf pos' result' (shift + 7))"
  by pat_completeness auto
termination
  by (relation "measure (\<lambda>(buf, pos, result, shift). length buf - pos)") auto

declare decode_varint_loop.simps [simp del]

definition decode_varint :: "byte list \<Rightarrow> nat \<Rightarrow> pyerr + nat \<times> nat" where
  "decode_varint buf pos = decode_varint_loop buf pos 0 0"

definition encode_tag :: "nat \<Rightarrow> nat \<Rightarrow> byte list \<Rightarrow> byte list" where
  "encode_tag field_number wire_type out =
     encode_varint (push_bit 3 field_number OR wire_type) out"

definition encode_length_delimited :: "nat \<Rightarrow> byte list \<Rightarrow> byte list \<Rightarrow> byte list" where
  "encode_length_delimited field_number payload out =
     encode_varint (length payload) (encode_tag field_number WIRE_LENGTH_DELIMITED out) @ payload"

definition encode_uint64_field :: "nat \<Rightarrow> nat \<Rightarrow> byte list \<Rightarrow> byte list" where
  "encode_uint64_field field_number value out =
     encode_varint value (encode_tag field_number WIRE_VARINT out)"

text \<open>The recurring read of a length, the bounds check with its message, and the slice.\<close>

definition read_delimited :: "string \<Rightarrow> byte list \<Rightarrow> nat \<Rightarrow> pyerr + byte list \<times> nat" where
  "read_delimited msg buf pos =
     ebind (decode_varint buf pos) (\<lambda>(len, pos).
       let endpos = pos + len in
       if length buf < endpos then Inl (ValueError msg)
       else Inr (take len (drop pos buf), endpos))"

definition skip_unknown :: "byte list \<Rightarrow> nat \<Rightarrow> nat \<Rightarrow> pyerr + nat" where
  "skip_unknown buf pos wire_type =
     (if wire_type = WIRE_VARINT then ebind (decode_varint buf pos) (\<lambda>(_, pos). Inr pos)
      else if wire_type = WIRE_LENGTH_DELIMITED then
        ebind (decode_varint buf pos) (\<lambda>(len, pos).
          let endpos = pos + len in
          if length buf < endpos then Inl (ValueError ''truncated length-delimited field'')
          else Inr endpos)
      else Inl (ValueError ''unsupported wire type''))"

section \<open>Message-level encoders\<close>

definition encode_tag_msg :: "Tag \<Rightarrow> pyerr + byte list" where
  "encode_tag_msg t =
     ebind (utf8_encode (tag_key t)) (\<lambda>k.
       let out = encode_length_delimited 1 k [] in
       case tag_value t of
         None \<Rightarrow> Inr out
       | Some v \<Rightarrow> ebind (utf8_encode v) (\<lambda>v. Inr (encode_length_delimited 2 v out)))"

fun encode_tags :: "Tag list \<Rightarrow> byte list \<Rightarrow> pyerr + byte list" where
  "encode_tags [] out = Inr out"
| "encode_tags (t # ts) out =
     ebind (encode_tag_msg t) (\<lambda>m. encode_tags ts (encode_length_delimited 4 m out))"

definition encode_record_msg ::
    "nat \<Rightarrow> nat option \<Rightarrow> byte list \<Rightarrow> Tag list \<Rightarrow> pyerr + byte list" where
  "encode_record_msg pk_index ehk_index dat tgs =
     (let out = encode_uint64_field 1 pk_index [];
          out = (case ehk_index of None \<Rightarrow> out | Some i \<Rightarrow> encode_uint64_field 2 i out);
          out = encode_length_delimited 3 dat out
      in encode_tags tgs out)"

record AggregatedBuilder =
  partition_keys :: "pystr list"
  explicit_hash_keys :: "pystr list"
  pk_index :: "(pystr \<times> nat) list"
  ehk_index :: "(pystr \<times> nat) list"
  records :: "byte list list"

definition builder_init :: AggregatedBuilder where
  "builder_init = \<lparr>partition_keys = [], explicit_hash_keys = [], pk_index = [], ehk_index = [],
     records = []\<rparr>"

text \<open>Look a key up in an index table, or append it: the index, the index table, the key table.\<close>

definition intern :: "pystr \<Rightarrow> (pystr \<times> nat) list \<Rightarrow> pystr list
    \<Rightarrow> nat \<times> (pystr \<times> nat) list \<times> pystr list" where
  "intern k index tbl =
     (case dict_get index k of
        Some i \<Rightarrow> (i, index, tbl)
      | None \<Rightarrow> (length tbl, dict_set k (length tbl) index, tbl @ [k]))"

definition builder_add :: "UserRecord \<Rightarrow> AggregatedBuilder \<Rightarrow> pyerr + AggregatedBuilder" where
  "builder_add r b =
     (case intern (partition_key r) (pk_index b) (partition_keys b) of (idx, pki, pks) \<Rightarrow>
      case (case explicit_hash_key r of
              None \<Rightarrow> (None, ehk_index b, explicit_hash_keys b)
            | Some ehk \<Rightarrow>
                (case intern ehk (ehk_index b) (explicit_hash_keys b) of (i, m, t) \<Rightarrow> (Some i, m, t)))
      of (ehk_idx, ehki, ehks) \<Rightarrow>
        ebind (encode_record_msg idx ehk_idx (data r) (tags r)) (\<lambda>m.
          Inr \<lparr>partition_keys = pks, explicit_hash_keys = ehks, pk_index = pki, ehk_index = ehki,
               records = records b @ [m]\<rparr>))"

text \<open>The two tables of strings, then the records, each as a length-delimited field.\<close>

fun encode_strings :: "nat \<Rightarrow> pystr list \<Rightarrow> byte list \<Rightarrow> pyerr + byte list" where
  "encode_strings f [] out = Inr out"
| "encode_strings f (s # ss) out =
     ebind (utf8_encode s) (\<lambda>bs. encode_strings f ss (encode_length_delimited f bs out))"

definition builder_serialize :: "AggregatedBuilder \<Rightarrow> pyerr + byte list" where
  "builder_serialize b =
     ebind (encode_strings 1 (partition_keys b) []) (\<lambda>out.
     ebind (encode_strings 2 (explicit_hash_keys b) out) (\<lambda>out.
       Inr (fold (encode_length_delimited 3) (records b) out)))"

section \<open>Public encoder and decoder\<close>

fun builder_add_all :: "UserRecord list \<Rightarrow> AggregatedBuilder \<Rightarrow> pyerr + AggregatedBuilder" where
  "builder_add_all [] b = Inr b"
| "builder_add_all (r # rs) b = ebind (builder_add r b) (builder_add_all rs)"

definition encode_aggregated :: "UserRecord list \<Rightarrow> pyerr + byte list" where
  "encode_aggregated rs =
     (case rs of
        [] \<Rightarrow> Inl (ValueError ''encode_aggregated requires at least one record'')
      | [r] \<Rightarrow> Inr (data r)
      | _ \<Rightarrow>
          ebind (builder_add_all rs builder_init) (\<lambda>b.
          ebind (builder_serialize b) (\<lambda>payload.
            Inr (MAGIC @ payload @ md5 payload))))"

definition is_aggregated :: "byte list \<Rightarrow> bool" where
  "is_aggregated payload \<longleftrightarrow>
     length MAGIC + MD5_LEN \<le> length payload \<and> take (length MAGIC) payload = MAGIC"

section \<open>Message-level decoders\<close>

text \<open>
  One turn of a decoding loop reads a tag and handles the field.  Each loop is the recursion
  over these turns; that it ends is the fact that a turn moves the position forward.
\<close>

lemma decode_varint_loop_pos:
  "decode_varint_loop buf pos r sh = Inr (v, pos') \<Longrightarrow> pos < pos' \<and> pos' \<le> length buf"
proof (induction buf pos r sh rule: decode_varint_loop.induct)
  case (1 buf pos r sh)
  from "1.prems" show ?case
    by (subst (asm) decode_varint_loop.simps)
      (use "1.IH" in \<open>fastforce simp: Let_def split: if_splits\<close>)
qed

lemma decode_varint_pos: "decode_varint buf pos = Inr (v, pos') \<Longrightarrow> pos < pos' \<and> pos' \<le> length buf"
  unfolding decode_varint_def by (rule decode_varint_loop_pos)

lemma read_delimited_pos: "read_delimited msg buf pos = Inr (bs, pos') \<Longrightarrow> pos < pos'"
  by (auto simp: read_delimited_def Let_def err_simps dest!: decode_varint_pos split: if_splits)

lemma skip_unknown_pos: "skip_unknown buf pos wt = Inr pos' \<Longrightarrow> pos < pos'"
  by (auto simp: skip_unknown_def Let_def err_simps dest!: decode_varint_pos split: if_splits)

lemmas field_pos = decode_varint_pos read_delimited_pos skip_unknown_pos

type_synonym tag_acc = "pystr option \<times> pystr option"

definition decode_tag_turn :: "byte list \<Rightarrow> nat \<Rightarrow> tag_acc \<Rightarrow> pyerr + nat \<times> tag_acc" where
  "decode_tag_turn buf pos st = (case st of (k, v) \<Rightarrow>
     ebind (decode_varint buf pos) (\<lambda>(tag, pos).
       let field_number = drop_bit 3 tag; wire_type = tag AND 0x07 in
       if field_number = 1 \<and> wire_type = WIRE_LENGTH_DELIMITED then
         ebind (read_delimited ''truncated tag.key'' buf pos) (\<lambda>(bs, pos).
         ebind (utf8_decode bs) (\<lambda>s. Inr (pos, Some s, v)))
       else if field_number = 2 \<and> wire_type = WIRE_LENGTH_DELIMITED then
         ebind (read_delimited ''truncated tag.value'' buf pos) (\<lambda>(bs, pos).
         ebind (utf8_decode bs) (\<lambda>s. Inr (pos, k, Some s)))
       else ebind (skip_unknown buf pos wire_type) (\<lambda>pos. Inr (pos, k, v))))"

lemma decode_tag_turn_pos: "decode_tag_turn buf pos st = Inr (pos', st') \<Longrightarrow> pos < pos'"
  by (fastforce simp: decode_tag_turn_def Let_def err_simps dest!: field_pos split: if_splits prod.splits)

function decode_tag_loop :: "byte list \<Rightarrow> nat \<Rightarrow> tag_acc \<Rightarrow> pyerr + tag_acc" where
  "decode_tag_loop buf pos st =
     (if pos < length buf
      then ebind (decode_tag_turn buf pos st) (\<lambda>(pos, st). decode_tag_loop buf pos st)
      else Inr st)"
  by pat_completeness auto
termination
  by (relation "measure (\<lambda>(buf, pos, st). length buf - pos)") (auto dest!: decode_tag_turn_pos)

declare decode_tag_loop.simps [simp del]

definition decode_tag_msg :: "byte list \<Rightarrow> pyerr + Tag" where
  "decode_tag_msg buf =
     ebind (decode_tag_loop buf 0 (None, None)) (\<lambda>(k, v).
       case k of
         None \<Rightarrow> Inl (ValueError ''Tag.key is required'')
       | Some key \<Rightarrow> Inr \<lparr>tag_key = key, tag_value = v\<rparr>)"

type_synonym record_acc = "nat option \<times> nat option \<times> byte list option \<times> Tag list"

definition decode_record_turn :: "byte list \<Rightarrow> nat \<Rightarrow> record_acc \<Rightarrow> pyerr + nat \<times> record_acc" where
  "decode_record_turn buf pos st = (case st of (pki, ehki, dat, tgs) \<Rightarrow>
     ebind (decode_varint buf pos) (\<lambda>(tag, pos).
       let field_number = drop_bit 3 tag; wire_type = tag AND 0x07 in
       if field_number = 1 \<and> wire_type = WIRE_VARINT then
         ebind (decode_varint buf pos) (\<lambda>(i, pos). Inr (pos, Some i, ehki, dat, tgs))
       else if field_number = 2 \<and> wire_type = WIRE_VARINT then
         ebind (decode_varint buf pos) (\<lambda>(i, pos). Inr (pos, pki, Some i, dat, tgs))
       else if field_number = 3 \<and> wire_type = WIRE_LENGTH_DELIMITED then
         ebind (read_delimited ''truncated record.data'' buf pos) (\<lambda>(bs, pos).
           Inr (pos, pki, ehki, Some bs, tgs))
       else if field_number = 4 \<and> wire_type = WIRE_LENGTH_DELIMITED then
         ebind (read_delimited ''truncated record.tag'' buf pos) (\<lambda>(bs, pos).
         ebind (decode_tag_msg bs) (\<lambda>t. Inr (pos, pki, ehki, dat, tgs @ [t])))
       else ebind (skip_unknown buf pos wire_type) (\<lambda>pos. Inr (pos, pki, ehki, dat, tgs))))"

lemma decode_record_turn_pos: "decode_record_turn buf pos st = Inr (pos', st') \<Longrightarrow> pos < pos'"
  by (fastforce simp: decode_record_turn_def Let_def err_simps dest!: field_pos
      split: if_splits prod.splits)

function decode_record_loop :: "byte list \<Rightarrow> nat \<Rightarrow> record_acc \<Rightarrow> pyerr + record_acc" where
  "decode_record_loop buf pos st =
     (if pos < length buf
      then ebind (decode_record_turn buf pos st) (\<lambda>(pos, st). decode_record_loop buf pos st)
      else Inr st)"
  by pat_completeness auto
termination
  by (relation "measure (\<lambda>(buf, pos, st). length buf - pos)") (auto dest!: decode_record_turn_pos)

declare decode_record_loop.simps [simp del]

definition decode_record_msg :: "byte list \<Rightarrow> pystr list \<Rightarrow> pystr list \<Rightarrow> pyerr + DecodedRecord" where
  "decode_record_msg buf pk_table ehk_table =
     ebind (decode_record_loop buf 0 (None, None, None, [])) (\<lambda>(pki, ehki, dat, tgs).
       case pki of
         None \<Rightarrow> Inl (ValueError ''Record.partition_key_index is required'')
       | Some p \<Rightarrow>
       (case dat of
         None \<Rightarrow> Inl (ValueError ''Record.data is required'')
       | Some d \<Rightarrow>
         if length pk_table \<le> p then Inl (ValueError ''partition_key_index out of range'')
         else (case ehki of
             None \<Rightarrow> Inr \<lparr>d_partition_key = pk_table ! p, d_explicit_hash_key = None,
                 d_data = d, d_tags = tgs\<rparr>
           | Some e \<Rightarrow>
             if length ehk_table \<le> e
             then Inl (ValueError ''explicit_hash_key_index out of range'')
             else Inr \<lparr>d_partition_key = pk_table ! p, d_explicit_hash_key = Some (ehk_table ! e),
                 d_data = d, d_tags = tgs\<rparr>)))"

type_synonym agg_acc = "pystr list \<times> pystr list \<times> byte list list"

definition decode_agg_turn :: "byte list \<Rightarrow> nat \<Rightarrow> agg_acc \<Rightarrow> pyerr + nat \<times> agg_acc" where
  "decode_agg_turn proto pos st = (case st of (pks, ehks, blobs) \<Rightarrow>
     ebind (decode_varint proto pos) (\<lambda>(tag, pos).
       let field_number = drop_bit 3 tag; wire_type = tag AND 0x07 in
       if field_number = 1 \<and> wire_type = WIRE_LENGTH_DELIMITED then
         ebind (read_delimited ''truncated partition_key_table entry'' proto pos) (\<lambda>(bs, pos).
         ebind (utf8_decode bs) (\<lambda>s. Inr (pos, pks @ [s], ehks, blobs)))
       else if field_number = 2 \<and> wire_type = WIRE_LENGTH_DELIMITED then
         ebind (read_delimited ''truncated explicit_hash_key_table entry'' proto pos) (\<lambda>(bs, pos).
         ebind (utf8_decode bs) (\<lambda>s. Inr (pos, pks, ehks @ [s], blobs)))
       else if field_number = 3 \<and> wire_type = WIRE_LENGTH_DELIMITED then
         ebind (read_delimited ''truncated record entry'' proto pos) (\<lambda>(bs, pos).
           Inr (pos, pks, ehks, blobs @ [bs]))
       else ebind (skip_unknown proto pos wire_type) (\<lambda>pos. Inr (pos, pks, ehks, blobs))))"

lemma decode_agg_turn_pos: "decode_agg_turn buf pos st = Inr (pos', st') \<Longrightarrow> pos < pos'"
  by (fastforce simp: decode_agg_turn_def Let_def err_simps dest!: field_pos
      split: if_splits prod.splits)

function decode_agg_loop :: "byte list \<Rightarrow> nat \<Rightarrow> agg_acc \<Rightarrow> pyerr + agg_acc" where
  "decode_agg_loop proto pos st =
     (if pos < length proto
      then ebind (decode_agg_turn proto pos st) (\<lambda>(pos, st). decode_agg_loop proto pos st)
      else Inr st)"
  by pat_completeness auto
termination
  by (relation "measure (\<lambda>(buf, pos, st). length buf - pos)") (auto dest!: decode_agg_turn_pos)

declare decode_agg_loop.simps [simp del]

definition decode_aggregated :: "byte list \<Rightarrow> pyerr + DecodedRecord list" where
  "decode_aggregated payload =
     (if length payload < length MAGIC + MD5_LEN
      then Inl (ValueError ''payload too short to be an aggregated record'')
      else if take (length MAGIC) payload \<noteq> MAGIC then Inl (ValueError ''bad magic number'')
      else let proto = drop (length MAGIC) (take (length payload - MD5_LEN) payload);
               expected = drop (length payload - MD5_LEN) payload in
        if md5 proto \<noteq> expected then Inl (ValueError ''MD5 checksum mismatch'')
        else ebind (decode_agg_loop proto 0 ([], [], [])) (\<lambda>(pks, ehks, blobs).
          emap (\<lambda>blob. decode_record_msg blob pks ehks) blobs))"

end
