(* ===== verification/Aggregation_Roundtrip.thy ===== *)
theory Aggregation_Roundtrip
  imports Aggregation
begin

text \<open>
  Correctness of the codec of \<^verbatim>\<open>src/aiokpl/aggregation.py\<close>: varints, fields, the three message
  levels, and the round trip of a whole batch.  An encoder that appends to an output is first
  shown to be its output followed by a fixed string of bytes; a decoder is then shown to read
  that string off at any position of any buffer.
\<close>

section \<open>Varints\<close>

definition varint :: "nat \<Rightarrow> byte list" where
  "varint v = encode_varint v []"

lemma encode_varint_append: "encode_varint v (xs @ ys) = xs @ encode_varint v ys"
proof (induction v ys arbitrary: xs rule: encode_varint.induct)
  case (1 v ys)
  show ?case
    by (subst (1 2) encode_varint.simps) (use "1.IH" in simp)
qed

lemma encode_varint_eq: "encode_varint v out = out @ varint v"
  using encode_varint_append [of v out "[]"] by (simp add: varint_def)

lemma varint_small: "v < 128 \<Longrightarrow> varint v = [byte_of v]"
  by (simp add: varint_def encode_varint.simps bits7)

lemma varint_big: "128 \<le> v \<Longrightarrow> varint v = byte_of (v mod 128 + 128) # varint (v div 128)"
  using encode_varint.simps [of v "[]"] by (simp add: bits7 encode_varint_eq)

lemma varint_nonempty [simp]: "varint v \<noteq> []"
  by (cases "v < 128") (simp_all add: varint_small varint_big)

lemma decode_varint_loop_varint:
  "v < 128 ^ (10 - k) \<Longrightarrow> k < 10 \<Longrightarrow> r < 2 ^ (7 * k) \<Longrightarrow>
   decode_varint_loop (pre @ varint v @ post) (length pre) r (7 * k) =
     Inr (r + v * 2 ^ (7 * k), length pre + length (varint v))"
proof (induction v arbitrary: pre r k rule: less_induct)
  case (less v)
  show ?case
  proof (cases "v < 128")
    case True
    with less.prems show ?thesis
      by (subst decode_varint_loop.simps)
        (simp add: varint_small bits7 and_0x80 or_push_bit_add Let_def)
  next
    case False
    let ?b = "byte_of (v mod 128 + 128)"
    have b: "unat ?b = v mod 128 + 128" by simp
    have A: "v div 128 < 128 ^ (10 - Suc k)"
    proof -
      have "128 ^ (10 - k) = 128 * (128 :: nat) ^ (10 - Suc k)"
        using less.prems(2) by (simp add: Suc_diff_Suc flip: power_Suc)
      with less.prems(1) show ?thesis by (simp add: less_mult_imp_div_less mult.commute)
    qed
    from this False have B: "Suc k < 10"
      using less.prems(2) by (cases "k = 9") (auto simp: div_eq_0_iff)
    have C: "r + v mod 128 * 2 ^ (7 * k) < 2 ^ (7 * Suc k)"
    proof -
      have "v mod 128 \<le> 127" by simp
      then have "v mod 128 * 2 ^ (7 * k) \<le> 127 * 2 ^ (7 * k)" by (rule mult_le_mono1)
      moreover have "2 ^ (7 * Suc k) = 128 * (2 :: nat) ^ (7 * k)" by (simp add: power_add)
      ultimately show ?thesis using less.prems(3) by linarith
    qed
    have IH: "decode_varint_loop ((pre @ [?b]) @ varint (v div 128) @ post)
        (length (pre @ [?b])) (r + v mod 128 * 2 ^ (7 * k)) (7 * Suc k) =
      Inr (r + v mod 128 * 2 ^ (7 * k) + v div 128 * 2 ^ (7 * Suc k),
        length (pre @ [?b]) + length (varint (v div 128)))"
      by (rule less.IH [OF _ A B C]) (use False in simp)
    have sum: "v mod 128 * 2 ^ (7 * k) + v div 128 * 2 ^ (7 * Suc k) = v * 2 ^ (7 * k)"
    proof -
      have "v * 2 ^ (7 * k) = (v mod 128 + v div 128 * 128) * 2 ^ (7 * k)"
        by (simp only: mod_div_mult_eq)
      also have "\<dots> = v mod 128 * 2 ^ (7 * k) + v div 128 * (128 * 2 ^ (7 * k))"
        by (simp only: distrib_right mult.assoc)
      finally show ?thesis by (simp add: power_add)
    qed
    show ?thesis
      using IH sum False less.prems B
      by (subst decode_varint_loop.simps)
        (simp add: varint_big bits7 and_0x80 or_push_bit_add Let_def b add.commute)
  qed
qed

theorem decode_varint_varint:
  "v < 2 ^ 70 \<Longrightarrow> decode_varint (pre @ varint v @ post) (length pre) =
     Inr (v, length pre + length (varint v))"
  using decode_varint_loop_varint [of v 0 0 pre post] by (simp add: decode_varint_def)

section \<open>Fields\<close>

definition ld :: "nat \<Rightarrow> byte list \<Rightarrow> byte list" where
  "ld f p = varint (8 * f + 2) @ varint (length p) @ p"

definition vf :: "nat \<Rightarrow> nat \<Rightarrow> byte list" where
  "vf f v = varint (8 * f) @ varint v"

lemma ld_nonempty [simp]: "ld f p \<noteq> []" by (simp add: ld_def)
lemma vf_nonempty [simp]: "vf f v \<noteq> []" by (simp add: vf_def)

lemma ld_length: "length p < length (ld f p)"
  by (simp add: ld_def)

lemma encode_length_delimited_eq: "encode_length_delimited f p out = out @ ld f p"
  using or_push_bit_add [of 2 3 f]
  by (simp add: encode_length_delimited_def encode_tag_def encode_varint_eq ld_def
      WIRE_LENGTH_DELIMITED_def or.commute mult.commute)

lemma encode_uint64_field_eq: "encode_uint64_field f v out = out @ vf f v"
  by (simp add: encode_uint64_field_def encode_tag_def encode_varint_eq vf_def WIRE_VARINT_def
      push_bit_eq_mult mult.commute)

lemma decode_varint_at:
  "v < 2 ^ 70 \<Longrightarrow> buf = pre @ varint v @ post \<Longrightarrow> pos = length pre \<Longrightarrow>
   decode_varint buf pos = Inr (v, pos + length (varint v))"
  by (simp add: decode_varint_varint)

text \<open>Reading the tag of a field, and the payload that follows it.\<close>

lemma decode_ld_tag:
  "f < 16 \<Longrightarrow> decode_varint (pre @ ld f p @ post) (length pre) =
     Inr (8 * f + 2, length pre + length (varint (8 * f + 2)))"
  by (rule decode_varint_at [where post = "varint (length p) @ p @ post"]) (simp_all add: ld_def)

lemma decode_vf_tag:
  "f < 16 \<Longrightarrow> decode_varint (pre @ vf f v @ post) (length pre) =
     Inr (8 * f, length pre + length (varint (8 * f)))"
  by (rule decode_varint_at [where post = "varint v @ post"]) (simp_all add: vf_def)

lemma decode_vf_value:
  "v < 2 ^ 70 \<Longrightarrow> decode_varint (pre @ vf f v @ post) (length pre + length (varint (8 * f))) =
     Inr (v, length pre + length (vf f v))"
  using decode_varint_at [where pre = "pre @ varint (8 * f)" and v = v and post = post]
  by (simp add: vf_def)

lemma read_delimited_ld:
  assumes "length p < 2 ^ 70"
  shows "read_delimited msg (pre @ ld f p @ post) (length pre + length (varint (8 * f + 2))) =
    Inr (p, length pre + length (ld f p))"
proof -
  have "decode_varint (pre @ ld f p @ post) (length pre + length (varint (8 * f + 2))) =
      Inr (length p, length pre + length (varint (8 * f + 2)) + length (varint (length p)))"
    using assms by (intro decode_varint_at [where pre = "pre @ varint (8 * f + 2)"])
      (simp_all add: ld_def)
  then show ?thesis by (simp add: read_delimited_def ld_def)
qed

section \<open>Tags\<close>

definition tag_bytes :: "byte list \<Rightarrow> byte list option \<Rightarrow> byte list" where
  "tag_bytes k v = ld 1 k @ (case v of None \<Rightarrow> [] | Some v \<Rightarrow> ld 2 v)"

lemma decode_tag_loop_ld1:
  assumes "utf8_decode p = Inr s" "length p < 2 ^ 70"
  shows "decode_tag_loop (pre @ ld 1 p @ post) (length pre) (k, v) =
    decode_tag_loop (pre @ ld 1 p @ post) (length (pre @ ld 1 p)) (Some s, v)"
proof -
  have "decode_tag_turn (pre @ ld 1 p @ post) (length pre) (k, v) =
      Inr (length (pre @ ld 1 p), Some s, v)"
    using assms decode_ld_tag [of 1 pre p post] read_delimited_ld [where f = 1 and p = p]
    by (simp add: decode_tag_turn_def Let_def WIRE_LENGTH_DELIMITED_def bits7)
  then show ?thesis by (subst decode_tag_loop.simps) simp
qed

lemma decode_tag_loop_ld2:
  assumes "utf8_decode p = Inr s" "length p < 2 ^ 70"
  shows "decode_tag_loop (pre @ ld 2 p @ post) (length pre) (k, v) =
    decode_tag_loop (pre @ ld 2 p @ post) (length (pre @ ld 2 p)) (k, Some s)"
proof -
  have "decode_tag_turn (pre @ ld 2 p @ post) (length pre) (k, v) =
      Inr (length (pre @ ld 2 p), k, Some s)"
    using assms decode_ld_tag [of 2 pre p post] read_delimited_ld [where f = 2 and p = p]
    by (simp add: decode_tag_turn_def Let_def WIRE_LENGTH_DELIMITED_def bits7)
  then show ?thesis by (subst decode_tag_loop.simps) simp
qed

lemma encode_tag_msg_Inr:
  assumes "encode_tag_msg t = Inr bs"
  obtains k v where "utf8_encode (tag_key t) = Inr k"
    and "case tag_value t of None \<Rightarrow> v = None | Some s \<Rightarrow> (\<exists>b. v = Some b \<and> utf8_encode s = Inr b)"
    and "bs = tag_bytes k v"
  using assms
  by (auto simp: encode_tag_msg_def err_simps Let_def encode_length_delimited_eq tag_bytes_def
      split: option.splits)

lemma decode_encode_tag_msg:
  assumes "encode_tag_msg t = Inr bs" "length bs < 2 ^ 70"
  shows "decode_tag_msg bs = Inr t"
proof -
  from assms(1) obtain k v where k: "utf8_encode (tag_key t) = Inr k"
    and v: "case tag_value t of None \<Rightarrow> v = None | Some s \<Rightarrow> (\<exists>b. v = Some b \<and> utf8_encode s = Inr b)"
    and bs: "bs = tag_bytes k v" by (rule encode_tag_msg_Inr)
  have lk: "length k < 2 ^ 70" using assms(2) ld_length [of k 1] by (simp add: bs tag_bytes_def)
  show ?thesis
  proof (cases v)
    case None
    with v have "tag_value t = None" by (auto split: option.splits)
    with None bs decode_tag_loop_ld1 [OF utf8_decode_encode [OF k] lk, of "[]" "[]"] show ?thesis
      by (simp add: decode_tag_msg_def tag_bytes_def decode_tag_loop.simps [of _ "length _"])
  next
    case (Some b)
    with v obtain s where s: "tag_value t = Some s" "utf8_encode s = Inr b"
      by (auto split: option.splits)
    have lb: "length b < 2 ^ 70"
      using assms(2) ld_length [of b 2] Some by (simp add: bs tag_bytes_def)
    from Some bs s decode_tag_loop_ld1 [OF utf8_decode_encode [OF k] lk, of "[]" "ld 2 b"]
      decode_tag_loop_ld2 [OF utf8_decode_encode [OF s(2)] lb, of "ld 1 k" "[]"]
    show ?thesis
      by (simp add: decode_tag_msg_def tag_bytes_def decode_tag_loop.simps [of _ "_ + _"])
  qed
qed

section \<open>Records\<close>

lemma encode_tags_eq:
  "encode_tags ts out = ebind (emap encode_tag_msg ts) (\<lambda>ms. Inr (out @ concat (map (ld 4) ms)))"
  by (induction ts arbitrary: out) (simp_all add: ebind_assoc encode_length_delimited_eq)

definition record_bytes :: "nat \<Rightarrow> nat option \<Rightarrow> byte list \<Rightarrow> byte list list \<Rightarrow> byte list" where
  "record_bytes i e d ms =
     vf 1 i @ (case e of None \<Rightarrow> [] | Some j \<Rightarrow> vf 2 j) @ ld 3 d @ concat (map (ld 4) ms)"

lemma encode_record_msg_eq:
  "encode_record_msg i e d ts = ebind (emap encode_tag_msg ts) (\<lambda>ms. Inr (record_bytes i e d ms))"
  by (simp add: encode_record_msg_def record_bytes_def encode_tags_eq encode_uint64_field_eq
      encode_length_delimited_eq split: option.splits)

text \<open>One turn of the record loop per kind of field.\<close>

lemma decode_record_loop_vf1:
  assumes "i < 2 ^ 70"
  shows "decode_record_loop (pre @ vf 1 i @ post) (length pre) (a, e, d, ts) =
    decode_record_loop (pre @ vf 1 i @ post) (length (pre @ vf 1 i)) (Some i, e, d, ts)"
proof -
  have "decode_record_turn (pre @ vf 1 i @ post) (length pre) (a, e, d, ts) =
      Inr (length (pre @ vf 1 i), Some i, e, d, ts)"
    using assms decode_vf_tag [of 1 pre i post] decode_vf_value [where f = 1 and v = i]
    by (simp add: decode_record_turn_def Let_def WIRE_VARINT_def bits7)
  then show ?thesis by (subst decode_record_loop.simps) simp
qed

lemma decode_record_loop_vf2:
  assumes "i < 2 ^ 70"
  shows "decode_record_loop (pre @ vf 2 i @ post) (length pre) (a, e, d, ts) =
    decode_record_loop (pre @ vf 2 i @ post) (length (pre @ vf 2 i)) (a, Some i, d, ts)"
proof -
  have "decode_record_turn (pre @ vf 2 i @ post) (length pre) (a, e, d, ts) =
      Inr (length (pre @ vf 2 i), a, Some i, d, ts)"
    using assms decode_vf_tag [of 2 pre i post] decode_vf_value [where f = 2 and v = i]
    by (simp add: decode_record_turn_def Let_def WIRE_VARINT_def bits7)
  then show ?thesis by (subst decode_record_loop.simps) simp
qed

lemma decode_record_loop_ld3:
  assumes "length p < 2 ^ 70"
  shows "decode_record_loop (pre @ ld 3 p @ post) (length pre) (a, e, d, ts) =
    decode_record_loop (pre @ ld 3 p @ post) (length (pre @ ld 3 p)) (a, e, Some p, ts)"
proof -
  have "decode_record_turn (pre @ ld 3 p @ post) (length pre) (a, e, d, ts) =
      Inr (length (pre @ ld 3 p), a, e, Some p, ts)"
    using assms decode_ld_tag [of 3 pre p post] read_delimited_ld [where f = 3 and p = p]
    by (simp add: decode_record_turn_def Let_def WIRE_LENGTH_DELIMITED_def WIRE_VARINT_def bits7)
  then show ?thesis by (subst decode_record_loop.simps) simp
qed

lemma decode_record_loop_ld4:
  assumes "length p < 2 ^ 70" "decode_tag_msg p = Inr t"
  shows "decode_record_loop (pre @ ld 4 p @ post) (length pre) (a, e, d, ts) =
    decode_record_loop (pre @ ld 4 p @ post) (length (pre @ ld 4 p)) (a, e, d, ts @ [t])"
proof -
  have "decode_record_turn (pre @ ld 4 p @ post) (length pre) (a, e, d, ts) =
      Inr (length (pre @ ld 4 p), a, e, d, ts @ [t])"
    using assms decode_ld_tag [of 4 pre p post] read_delimited_ld [where f = 4 and p = p]
    by (simp add: decode_record_turn_def Let_def WIRE_LENGTH_DELIMITED_def WIRE_VARINT_def bits7)
  then show ?thesis by (subst decode_record_loop.simps) simp
qed

lemma decode_record_loop_end: "decode_record_loop buf (length buf) st = Inr st"
  by (subst decode_record_loop.simps) simp

lemma decode_record_loop_tags:
  assumes "emap encode_tag_msg tgs = Inr ms" "length (concat (map (ld 4) ms)) < 2 ^ 70"
  shows "decode_record_loop (pre @ concat (map (ld 4) ms)) (length pre) (a, e, d, ts) =
    Inr (a, e, d, ts @ tgs)"
  using assms
proof (induction tgs arbitrary: ms pre ts)
  case Nil
  then show ?case by (simp add: decode_record_loop_end)
next
  case (Cons t tgs)
  then obtain m ms' where m: "encode_tag_msg t = Inr m" and ms': "emap encode_tag_msg tgs = Inr ms'"
    and ms: "ms = m # ms'" by (auto simp: err_simps)
  have len: "length m < 2 ^ 70" "length (concat (map (ld 4) ms')) < 2 ^ 70"
    using Cons.prems(2) ld_length [of m 4] by (auto simp: ms)
  let ?post = "concat (map (ld 4) ms')"
  have "decode_record_loop (pre @ ld 4 m @ ?post) (length pre) (a, e, d, ts) =
      decode_record_loop (pre @ ld 4 m @ ?post) (length (pre @ ld 4 m)) (a, e, d, ts @ [t])"
    by (rule decode_record_loop_ld4 [OF len(1) decode_encode_tag_msg [OF m len(1)]])
  also have "\<dots> = Inr (a, e, d, (ts @ [t]) @ tgs)"
    using Cons.IH [OF ms' len(2), of "pre @ ld 4 m"] by simp
  finally show ?case by (simp add: ms)
qed

lemma decode_record_loop_bytes:
  assumes ms: "emap encode_tag_msg tgs = Inr ms" and len: "length (record_bytes i e d ms) < 2 ^ 70"
    and "i < 2 ^ 70" and "\<And>j. e = Some j \<Longrightarrow> j < 2 ^ 70"
  shows "decode_record_loop (record_bytes i e d ms) 0 (None, None, None, []) =
    Inr (Some i, e, Some d, tgs)"
proof -
  let ?t = "concat (map (ld 4) ms)"
  have ld: "length d < 2 ^ 70" and lt: "length ?t < 2 ^ 70"
    using len ld_length [of d 3] by (auto simp: record_bytes_def split: option.splits)
  have rest: "decode_record_loop (pre @ ld 3 d @ ?t) (length pre) (Some i, e, None, []) =
      Inr (Some i, e, Some d, tgs)" for pre e
    using decode_record_loop_ld3 [OF ld, of pre ?t "Some i" e None "[]"]
      decode_record_loop_tags [OF ms lt, of "pre @ ld 3 d"] by simp
  show ?thesis
  proof (cases e)
    case None
    with decode_record_loop_vf1 [OF assms(3), of "[]"] rest [of "vf 1 i"] show ?thesis
      by (simp add: record_bytes_def)
  next
    case (Some j)
    with decode_record_loop_vf1 [OF assms(3), of "[]"] rest [of "vf 1 i @ vf 2 j"]
      decode_record_loop_vf2 [OF assms(4), of j "vf 1 i"]
    show ?thesis by (simp add: record_bytes_def)
  qed
qed

section \<open>The builder's tables\<close>

text \<open>An index table agrees with its key table: it maps exactly the keys of the table, each to
  a position that holds it, and the table has no duplicates.\<close>

definition table_ok :: "(pystr \<times> nat) list \<Rightarrow> pystr list \<Rightarrow> bool" where
  "table_ok index tbl \<longleftrightarrow>
     distinct tbl \<and> (\<forall>k i. dict_get index k = Some i \<longrightarrow> i < length tbl \<and> tbl ! i = k) \<and>
     (\<forall>k. dict_get index k = None \<longrightarrow> k \<notin> set tbl)"

lemma table_ok_empty [simp]: "table_ok [] []"
  by (simp add: table_ok_def)

lemma intern_ok:
  assumes "table_ok index tbl" "intern k index tbl = (i, index', tbl')"
  shows "table_ok index' tbl' \<and> i < length tbl' \<and> tbl' ! i = k \<and> (\<exists>ext. tbl' = tbl @ ext)"
proof (cases "dict_get index k")
  case None
  with assms(2) have "i = length tbl" "index' = dict_set k (length tbl) index" "tbl' = tbl @ [k]"
    by (auto simp: intern_def)
  moreover have "k \<notin> set tbl" using assms(1) None by (simp add: table_ok_def)
  ultimately show ?thesis
    using assms(1) by (auto simp: table_ok_def nth_append intro: less_SucI split: if_splits)
next
  case (Some j)
  with assms show ?thesis by (auto simp: intern_def table_ok_def)
qed

text \<open>A message refers to a record with respect to the two tables; longer tables keep it.\<close>

definition msg_ok :: "pystr list \<Rightarrow> pystr list \<Rightarrow> UserRecord \<Rightarrow> byte list \<Rightarrow> bool" where
  "msg_ok pks ehks r m \<longleftrightarrow> (\<exists>i e ms. m = record_bytes i e (data r) ms \<and>
     emap encode_tag_msg (tags r) = Inr ms \<and> i < length pks \<and> pks ! i = partition_key r \<and>
     (case explicit_hash_key r of None \<Rightarrow> e = None
      | Some h \<Rightarrow> \<exists>j. e = Some j \<and> j < length ehks \<and> ehks ! j = h))"

lemma msg_ok_extend: "msg_ok pks ehks r m \<Longrightarrow> msg_ok (pks @ xs) (ehks @ ys) r m"
  unfolding msg_ok_def by (fastforce simp: nth_append split: option.splits)

definition builder_ok :: "UserRecord list \<Rightarrow> AggregatedBuilder \<Rightarrow> bool" where
  "builder_ok rs b \<longleftrightarrow> table_ok (pk_index b) (partition_keys b) \<and>
     table_ok (ehk_index b) (explicit_hash_keys b) \<and>
     list_all2 (msg_ok (partition_keys b) (explicit_hash_keys b)) rs (records b)"

lemma builder_add_Inr:
  assumes "builder_add r b = Inr b'"
  obtains i pki pks e ehki ehks ms where
    "intern (partition_key r) (pk_index b) (partition_keys b) = (i, pki, pks)"
    and "case explicit_hash_key r of
        None \<Rightarrow> e = None \<and> ehki = ehk_index b \<and> ehks = explicit_hash_keys b
      | Some h \<Rightarrow> \<exists>j. e = Some j \<and> intern h (ehk_index b) (explicit_hash_keys b) = (j, ehki, ehks)"
    and "emap encode_tag_msg (tags r) = Inr ms"
    and "b' = \<lparr>partition_keys = pks, explicit_hash_keys = ehks, pk_index = pki, ehk_index = ehki,
      records = records b @ [record_bytes i e (data r) ms]\<rparr>"
proof -
  obtain i pki pks where pk: "intern (partition_key r) (pk_index b) (partition_keys b) = (i, pki, pks)"
    by (metis prod_cases3)
  show ?thesis
  proof (cases "explicit_hash_key r")
    case None
    with assms pk that show ?thesis
      by (auto simp: builder_add_def encode_record_msg_eq err_simps)
  next
    case (Some h)
    obtain j m t where "intern h (ehk_index b) (explicit_hash_keys b) = (j, m, t)"
      by (metis prod_cases3)
    with assms pk Some that show ?thesis
      by (auto simp: builder_add_def encode_record_msg_eq err_simps)
  qed
qed

lemma builder_add_ok:
  assumes "builder_ok rs b" "builder_add r b = Inr b'"
  shows "builder_ok (rs @ [r]) b'"
  using assms(2)
proof (cases rule: builder_add_Inr)
  case (1 i pki pks e ehki ehks ms)
  from intern_ok [OF _ 1(1)] assms(1) obtain xs where P: "table_ok pki pks" "i < length pks"
    "pks ! i = partition_key r" "pks = partition_keys b @ xs" by (auto simp: builder_ok_def)
  have "table_ok ehki ehks \<and> (\<exists>ys. ehks = explicit_hash_keys b @ ys) \<and>
      (case explicit_hash_key r of None \<Rightarrow> e = None
        | Some h \<Rightarrow> \<exists>j. e = Some j \<and> j < length ehks \<and> ehks ! j = h)"
    using 1(2) assms(1) by (auto simp: builder_ok_def dest: intern_ok split: option.splits)
  then obtain ys where E: "table_ok ehki ehks" "ehks = explicit_hash_keys b @ ys"
    "case explicit_hash_key r of None \<Rightarrow> e = None
      | Some h \<Rightarrow> \<exists>j. e = Some j \<and> j < length ehks \<and> ehks ! j = h" by blast
  have "list_all2 (msg_ok pks ehks) rs (records b)"
    using assms(1) by (auto simp: builder_ok_def P(4) E(2) intro: msg_ok_extend elim!: list_all2_mono)
  moreover have "msg_ok pks ehks r (record_bytes i e (data r) ms)"
    using P(2,3) E(3) 1(3) by (auto simp: msg_ok_def)
  ultimately show ?thesis
    using P(1) E(1) by (simp add: 1(4) builder_ok_def list_all2_appendI)
qed

lemma builder_add_all_ok:
  "builder_ok rs b \<Longrightarrow> builder_add_all rs' b = Inr b' \<Longrightarrow> builder_ok (rs @ rs') b'"
proof (induction rs' arbitrary: rs b)
  case (Cons r rs')
  then obtain b1 where "builder_add r b = Inr b1" "builder_add_all rs' b1 = Inr b'"
    by (auto simp: err_simps)
  with Cons.IH [of "rs @ [r]" b1] builder_add_ok [OF Cons.prems(1)] show ?case by simp
qed simp

lemma builder_init_ok: "builder_ok [] builder_init"
  by (simp add: builder_ok_def builder_init_def)

section \<open>The aggregated message\<close>

lemma encode_strings_eq:
  "encode_strings f ss out = ebind (emap utf8_encode ss) (\<lambda>bs. Inr (out @ concat (map (ld f) bs)))"
  by (induction ss arbitrary: out) (simp_all add: ebind_assoc encode_length_delimited_eq)

lemma fold_ld: "fold (encode_length_delimited f) ms out = out @ concat (map (ld f) ms)"
  by (induction ms arbitrary: out) (simp_all add: encode_length_delimited_eq)

definition agg_bytes :: "byte list list \<Rightarrow> byte list list \<Rightarrow> byte list list \<Rightarrow> byte list" where
  "agg_bytes ps es ms = concat (map (ld 1) ps) @ concat (map (ld 2) es) @ concat (map (ld 3) ms)"

lemma builder_serialize_eq:
  "builder_serialize b = ebind (emap utf8_encode (partition_keys b)) (\<lambda>ps.
     ebind (emap utf8_encode (explicit_hash_keys b)) (\<lambda>es. Inr (agg_bytes ps es (records b))))"
  by (simp add: builder_serialize_def encode_strings_eq fold_ld agg_bytes_def ebind_assoc)

lemma decode_agg_loop_ld1:
  assumes "length p < 2 ^ 70" "utf8_decode p = Inr s"
  shows "decode_agg_loop (pre @ ld 1 p @ post) (length pre) (pks, ehks, ms) =
    decode_agg_loop (pre @ ld 1 p @ post) (length (pre @ ld 1 p)) (pks @ [s], ehks, ms)"
proof -
  have "decode_agg_turn (pre @ ld 1 p @ post) (length pre) (pks, ehks, ms) =
      Inr (length (pre @ ld 1 p), pks @ [s], ehks, ms)"
    using assms decode_ld_tag [of 1 pre p post] read_delimited_ld [where f = 1 and p = p]
    by (simp add: decode_agg_turn_def Let_def WIRE_LENGTH_DELIMITED_def bits7)
  then show ?thesis by (subst decode_agg_loop.simps) simp
qed

lemma decode_agg_loop_ld2:
  assumes "length p < 2 ^ 70" "utf8_decode p = Inr s"
  shows "decode_agg_loop (pre @ ld 2 p @ post) (length pre) (pks, ehks, ms) =
    decode_agg_loop (pre @ ld 2 p @ post) (length (pre @ ld 2 p)) (pks, ehks @ [s], ms)"
proof -
  have "decode_agg_turn (pre @ ld 2 p @ post) (length pre) (pks, ehks, ms) =
      Inr (length (pre @ ld 2 p), pks, ehks @ [s], ms)"
    using assms decode_ld_tag [of 2 pre p post] read_delimited_ld [where f = 2 and p = p]
    by (simp add: decode_agg_turn_def Let_def WIRE_LENGTH_DELIMITED_def bits7)
  then show ?thesis by (subst decode_agg_loop.simps) simp
qed

lemma decode_agg_loop_ld3:
  assumes "length p < 2 ^ 70"
  shows "decode_agg_loop (pre @ ld 3 p @ post) (length pre) (pks, ehks, ms) =
    decode_agg_loop (pre @ ld 3 p @ post) (length (pre @ ld 3 p)) (pks, ehks, ms @ [p])"
proof -
  have "decode_agg_turn (pre @ ld 3 p @ post) (length pre) (pks, ehks, ms) =
      Inr (length (pre @ ld 3 p), pks, ehks, ms @ [p])"
    using assms decode_ld_tag [of 3 pre p post] read_delimited_ld [where f = 3 and p = p]
    by (simp add: decode_agg_turn_def Let_def WIRE_LENGTH_DELIMITED_def bits7)
  then show ?thesis by (subst decode_agg_loop.simps) simp
qed

text \<open>Whole runs of fields of one kind.\<close>

definition short :: "nat \<Rightarrow> byte list list \<Rightarrow> bool" where
  "short f ps \<longleftrightarrow> length (concat (map (ld f) ps)) < 2 ^ 70"

lemma short_Cons: "short f (p # ps) \<Longrightarrow> length p < 2 ^ 70 \<and> short f ps"
  using ld_length [of p f] by (simp add: short_def)

lemma decode_agg_loop_pks:
  "emap utf8_encode ss = Inr ps \<Longrightarrow> short 1 ps \<Longrightarrow>
   decode_agg_loop (pre @ concat (map (ld 1) ps) @ post) (length pre) (pks, ehks, ms) =
   decode_agg_loop (pre @ concat (map (ld 1) ps) @ post) (length (pre @ concat (map (ld 1) ps)))
     (pks @ ss, ehks, ms)"
proof (induction ss arbitrary: ps pre pks)
  case (Cons s ss)
  then obtain p ps' where p: "utf8_encode s = Inr p" and ps': "emap utf8_encode ss = Inr ps'"
    and ps: "ps = p # ps'" by (auto simp: err_simps)
  from short_Cons Cons.prems(2) ps have "length p < 2 ^ 70" "short 1 ps'" by auto
  with decode_agg_loop_ld1 [OF _ utf8_decode_encode [OF p], of pre "concat (map (ld 1) ps') @ post"]
    Cons.IH [OF ps', of "pre @ ld 1 p" "pks @ [s]"] show ?case by (simp add: ps)
qed simp

lemma decode_agg_loop_ehks:
  "emap utf8_encode ss = Inr ps \<Longrightarrow> short 2 ps \<Longrightarrow>
   decode_agg_loop (pre @ concat (map (ld 2) ps) @ post) (length pre) (pks, ehks, ms) =
   decode_agg_loop (pre @ concat (map (ld 2) ps) @ post) (length (pre @ concat (map (ld 2) ps)))
     (pks, ehks @ ss, ms)"
proof (induction ss arbitrary: ps pre ehks)
  case (Cons s ss)
  then obtain p ps' where p: "utf8_encode s = Inr p" and ps': "emap utf8_encode ss = Inr ps'"
    and ps: "ps = p # ps'" by (auto simp: err_simps)
  from short_Cons Cons.prems(2) ps have "length p < 2 ^ 70" "short 2 ps'" by auto
  with decode_agg_loop_ld2 [OF _ utf8_decode_encode [OF p], of pre "concat (map (ld 2) ps') @ post"]
    Cons.IH [OF ps', of "pre @ ld 2 p" "ehks @ [s]"] show ?case by (simp add: ps)
qed simp

lemma decode_agg_loop_records:
  "short 3 bs \<Longrightarrow>
   decode_agg_loop (pre @ concat (map (ld 3) bs)) (length pre) (pks, ehks, ms) =
   Inr (pks, ehks, ms @ bs)"
proof (induction bs arbitrary: pre ms)
  case Nil
  show ?case by (subst decode_agg_loop.simps) simp
next
  case (Cons b bs)
  then have "length b < 2 ^ 70" "short 3 bs" using short_Cons by auto
  with decode_agg_loop_ld3 [of b pre "concat (map (ld 3) bs)"]
    Cons.IH [of "pre @ ld 3 b" "ms @ [b]"] show ?case by simp
qed

lemma decode_agg_loop_bytes:
  assumes "emap utf8_encode pks = Inr ps" "emap utf8_encode ehks = Inr es"
    and len: "length (agg_bytes ps es ms) < 2 ^ 70"
  shows "decode_agg_loop (agg_bytes ps es ms) 0 ([], [], []) = Inr (pks, ehks, ms)"
proof -
  have "short 1 ps" "short 2 es" "short 3 ms" using len by (simp_all add: agg_bytes_def short_def)
  with decode_agg_loop_pks [OF assms(1), of "[]" _ "[]"]
    decode_agg_loop_ehks [OF assms(2), of "concat (map (ld 1) ps)" _ pks "[]"]
    decode_agg_loop_records [of ms "concat (map (ld 1) ps) @ concat (map (ld 2) es)"]
  show ?thesis by (simp add: agg_bytes_def)
qed

section \<open>The round trip\<close>

definition to_decoded :: "UserRecord \<Rightarrow> DecodedRecord" where
  "to_decoded r = \<lparr>d_partition_key = partition_key r, d_explicit_hash_key = explicit_hash_key r,
     d_data = data r, d_tags = tags r\<rparr>"

lemma decode_record_msg_ok:
  assumes ok: "msg_ok pks ehks r m" and len: "length m < 2 ^ 70"
    and tbl: "length pks < 2 ^ 70" "length ehks < 2 ^ 70"
  shows "decode_record_msg m pks ehks = Inr (to_decoded r)"
proof -
  from ok obtain i e ms where m: "m = record_bytes i e (data r) ms"
    and ms: "emap encode_tag_msg (tags r) = Inr ms" and i: "i < length pks" "pks ! i = partition_key r"
    and e: "case explicit_hash_key r of None \<Rightarrow> e = None
      | Some h \<Rightarrow> \<exists>j. e = Some j \<and> j < length ehks \<and> ehks ! j = h"
    by (auto simp: msg_ok_def)
  have "decode_record_loop m 0 (None, None, None, []) = Inr (Some i, e, Some (data r), tags r)"
    unfolding m
    by (rule decode_record_loop_bytes [OF ms])
      (use len m i(1) tbl e in \<open>auto split: option.splits\<close>)
  with i e show ?thesis
    by (auto simp: decode_record_msg_def to_decoded_def split: option.splits)
qed

lemma length_concat_ld: "length ps \<le> length (concat (map (ld f) ps))"
proof (induction ps)
  case (Cons p ps)
  then show ?case using ld_length [of p f] by simp
qed simp

lemma length_in_concat_ld: "p \<in> set ps \<Longrightarrow> length p < length (concat (map (ld f) ps))"
proof (induction ps)
  case (Cons q ps)
  then show ?case using ld_length [of q f] by auto
qed simp

lemma decode_agg_records:
  assumes ok: "builder_ok rs b" and ser: "builder_serialize b = Inr payload"
    and len: "length payload < 2 ^ 70"
  shows "ebind (decode_agg_loop payload 0 ([], [], [])) (\<lambda>(pks, ehks, blobs).
      emap (\<lambda>blob. decode_record_msg blob pks ehks) blobs) = Inr (map to_decoded rs)"
proof -
  from ser obtain ps es where ps: "emap utf8_encode (partition_keys b) = Inr ps"
    and es: "emap utf8_encode (explicit_hash_keys b) = Inr es"
    and payload: "payload = agg_bytes ps es (records b)"
    by (auto simp: builder_serialize_eq err_simps)
  have tbl: "length (partition_keys b) < 2 ^ 70" "length (explicit_hash_keys b) < 2 ^ 70"
    using len length_concat_ld [of ps 1] length_concat_ld [of es 2] emap_length [OF ps]
      emap_length [OF es] by (simp_all add: payload agg_bytes_def)
  have "list_all2 (\<lambda>r m. decode_record_msg m (partition_keys b) (explicit_hash_keys b) =
      Inr (to_decoded r)) rs (records b)"
    unfolding list_all2_conv_all_nth
  proof (intro conjI allI impI)
    show "length rs = length (records b)"
      using ok by (auto simp: builder_ok_def dest: list_all2_lengthD)
    fix i assume "i < length rs"
    then have "msg_ok (partition_keys b) (explicit_hash_keys b) (rs ! i) (records b ! i)"
      and "records b ! i \<in> set (records b)"
      using ok by (auto simp: builder_ok_def list_all2_conv_all_nth)
    moreover from length_in_concat_ld [OF this(2), of 3] len have "length (records b ! i) < 2 ^ 70"
      by (simp add: payload agg_bytes_def)
    ultimately show "decode_record_msg (records b ! i) (partition_keys b) (explicit_hash_keys b) =
        Inr (to_decoded (rs ! i))"
      using tbl by (intro decode_record_msg_ok)
  qed
  then have "emap (\<lambda>m. decode_record_msg m (partition_keys b) (explicit_hash_keys b)) (records b) =
      Inr (map to_decoded rs)"
    by (induction rule: list_all2_induct) auto
  with decode_agg_loop_bytes [OF ps es] len show ?thesis by (simp add: payload)
qed

lemma decode_aggregated_framed:
  assumes "proto = MAGIC @ payload @ md5 payload"
  shows "decode_aggregated proto = ebind (decode_agg_loop payload 0 ([], [], []))
    (\<lambda>(pks, ehks, blobs). emap (\<lambda>blob. decode_record_msg blob pks ehks) blobs)"
  by (simp add: assms decode_aggregated_def MD5_LEN_def Let_def)

lemma encode_aggregated_many:
  "2 \<le> length rs \<Longrightarrow> encode_aggregated rs =
     ebind (ebind (builder_add_all rs builder_init) builder_serialize) (\<lambda>payload.
       Inr (MAGIC @ payload @ md5 payload))"
  by (auto simp: encode_aggregated_def ebind_assoc split: list.splits)

text \<open>C8: decoding what the encoder made of two or more records gives back exactly these
  records, in order, with their partition keys, explicit hash keys, data and tags.\<close>

theorem decode_encode_aggregated:
  assumes "2 \<le> length rs" "encode_aggregated rs = Inr blob" "length blob < 2 ^ 64"
  shows "decode_aggregated blob = Inr (map to_decoded rs)"
proof -
  from assms(1,2) obtain b payload where b: "builder_add_all rs builder_init = Inr b"
    and payload: "builder_serialize b = Inr payload" and blob: "blob = MAGIC @ payload @ md5 payload"
    by (auto simp: encode_aggregated_many err_simps)
  from builder_add_all_ok [OF builder_init_ok b] have "builder_ok rs b" by simp
  moreover have "length payload < 2 ^ 70" using assms(3) by (simp add: blob)
  ultimately show ?thesis
    using decode_agg_records payload by (simp add: decode_aggregated_framed [OF blob])
qed

text \<open>Two records with a shared partition key, an explicit hash key, a non-ASCII key and tags.\<close>

definition sample_records :: "UserRecord list" where
  "sample_records =
     [\<lparr>partition_key = lit ''pk'', data = [1, 2, 3], explicit_hash_key = None,
        tags = [\<lparr>tag_key = lit ''k'', tag_value = Some (lit ''v'')\<rparr>]\<rparr>,
      \<lparr>partition_key = lit ''pk'', data = [], explicit_hash_key = Some (lit ''42''), tags = []\<rparr>,
      \<lparr>partition_key = [0x20AC, 0x1F600], data = [255], explicit_hash_key = None, tags = []\<rparr>]"

lemma sample_payload:
  "ebind (builder_add_all sample_records builder_init) builder_serialize = Inr (map byte_of
     [10, 2, 112, 107, 10, 7, 226, 130, 172, 240, 159, 152, 128, 18, 2, 52, 50, 26, 15, 8, 0, 26,
      3, 1, 2, 3, 34, 6, 10, 1, 107, 18, 1, 118, 26, 6, 8, 0, 16, 0, 26, 0, 26, 5, 8, 1, 26, 1, 255])"
  by (simp add: sample_records_def builder_init_def builder_add_def intern_def
      encode_record_msg_eq lit_def encode_tag_msg_def utf8_encode_def utf8_char_def
      encode_length_delimited_eq builder_serialize_eq agg_bytes_def record_bytes_def ld_def vf_def
      varint_small) (simp add: byte_of_def)

theorem decode_encode_aggregated_witness:
  "\<exists>blob. 2 \<le> length sample_records \<and> encode_aggregated sample_records = Inr blob \<and>
     length blob < 2 ^ 64 \<and> decode_aggregated blob = Inr (map to_decoded sample_records)"
proof -
  have two: "2 \<le> length sample_records" by (simp add: sample_records_def)
  from encode_aggregated_many [OF this] sample_payload
  obtain blob where blob: "encode_aggregated sample_records = Inr blob" "length blob < 2 ^ 64"
    by (simp add: MAGIC_def)
  with two decode_encode_aggregated [OF two blob] show ?thesis by blast
qed

section \<open>When the encoder succeeds\<close>

definition tag_scalar :: "Tag \<Rightarrow> bool" where
  "tag_scalar t \<longleftrightarrow> (\<forall>c\<in>set (tag_key t). scalar c) \<and>
     (\<forall>v. tag_value t = Some v \<longrightarrow> (\<forall>c\<in>set v. scalar c))"

definition record_scalar :: "UserRecord \<Rightarrow> bool" where
  "record_scalar r \<longleftrightarrow> (\<forall>c\<in>set (partition_key r). scalar c) \<and>
     (\<forall>h. explicit_hash_key r = Some h \<longrightarrow> (\<forall>c\<in>set h. scalar c)) \<and>
     (\<forall>t\<in>set (tags r). tag_scalar t)"

lemma emap_Inr_iff: "(\<exists>ys. emap f xs = Inr ys) \<longleftrightarrow> (\<forall>x\<in>set xs. \<exists>y. f x = Inr y)"
  by (induction xs) (auto simp: err_simps)

lemma encode_tag_msg_Inr_iff: "(\<exists>m. encode_tag_msg t = Inr m) \<longleftrightarrow> tag_scalar t"
  by (cases "tag_value t") (auto simp: encode_tag_msg_def err_simps Let_def tag_scalar_def
      utf8_encode_Inr_iff [symmetric])

lemma intern_set:
  assumes "table_ok index tbl" "intern k index tbl = (i, index', tbl')"
  shows "set tbl' = insert k (set tbl)"
proof (cases "dict_get index k")
  case (Some j)
  with assms have "j < length tbl" "tbl ! j = k" "tbl' = tbl"
    by (auto simp: table_ok_def intern_def)
  then show ?thesis using nth_mem by blast
qed (use assms in \<open>auto simp: intern_def\<close>)

text \<open>The tables hold exactly the keys of the records added so far.\<close>

definition tables_of :: "UserRecord list \<Rightarrow> AggregatedBuilder \<Rightarrow> bool" where
  "tables_of rs b \<longleftrightarrow> set (partition_keys b) = partition_key ` set rs \<and>
     Some ` set (explicit_hash_keys b) = explicit_hash_key ` set rs - {None}"

lemma builder_add_Inr_iff: "(\<exists>b'. builder_add r b = Inr b') \<longleftrightarrow> (\<forall>t\<in>set (tags r). tag_scalar t)"
  unfolding encode_tag_msg_Inr_iff [symmetric] emap_Inr_iff [symmetric]
  by (auto simp: builder_add_def encode_record_msg_eq err_simps split: prod.splits)

lemma builder_add_tables:
  assumes "builder_ok rs b" "tables_of rs b" "builder_add r b = Inr b'"
  shows "tables_of (rs @ [r]) b'"
  using assms(3)
proof (cases rule: builder_add_Inr)
  case (1 i pki pks e ehki ehks ms)
  have "set pks = insert (partition_key r) (set (partition_keys b))"
    using assms(1) intern_set [OF _ 1(1)] by (simp add: builder_ok_def)
  moreover have "Some ` set ehks =
      insert (explicit_hash_key r) (Some ` set (explicit_hash_keys b)) - {None}"
    using 1(2) assms(1) by (auto simp: builder_ok_def dest!: intern_set split: option.splits)
  ultimately show ?thesis
    using assms(2) by (auto simp: 1(4) tables_of_def)
qed

lemma builder_add_all_tables:
  "builder_ok rs b \<Longrightarrow> tables_of rs b \<Longrightarrow> builder_add_all rs' b = Inr b' \<Longrightarrow> tables_of (rs @ rs') b'"
proof (induction rs' arbitrary: rs b)
  case (Cons r rs')
  then obtain b1 where b1: "builder_add r b = Inr b1" "builder_add_all rs' b1 = Inr b'"
    by (auto simp: err_simps)
  with Cons.IH [of "rs @ [r]" b1] builder_add_ok [OF Cons.prems(1)]
    builder_add_tables [OF Cons.prems(1,2)] show ?case by simp
qed simp

lemma builder_add_all_Inr_iff:
  "(\<exists>b'. builder_add_all rs b = Inr b') \<longleftrightarrow> (\<forall>r\<in>set rs. \<forall>t\<in>set (tags r). tag_scalar t)"
proof (induction rs arbitrary: b)
  case (Cons r rs)
  have "(\<exists>b'. builder_add_all (r # rs) b = Inr b') \<longleftrightarrow>
      (\<exists>b1. builder_add r b = Inr b1 \<and> (\<exists>b'. builder_add_all rs b1 = Inr b'))"
    by (auto simp: err_simps)
  also have "\<dots> \<longleftrightarrow> (\<exists>b1. builder_add r b = Inr b1) \<and> (\<forall>r\<in>set rs. \<forall>t\<in>set (tags r). tag_scalar t)"
    by (simp add: Cons.IH)
  finally show ?case by (simp add: builder_add_Inr_iff)
qed simp

abbreviation scalar_str :: "pystr \<Rightarrow> bool" where
  "scalar_str s \<equiv> \<forall>c\<in>set s. scalar c"

lemma tables_of_ehk:
  assumes "tables_of rs b"
  shows "h \<in> set (explicit_hash_keys b) \<longleftrightarrow> (\<exists>r\<in>set rs. explicit_hash_key r = Some h)"
proof -
  have "Some h \<in> Some ` set (explicit_hash_keys b) \<longleftrightarrow> Some h \<in> explicit_hash_key ` set rs - {None}"
    using assms by (simp only: tables_of_def)
  then show ?thesis by (auto simp: image_iff eq_commute)
qed

lemma builder_serialize_Inr_iff:
  assumes "tables_of rs b"
  shows "(\<exists>p. builder_serialize b = Inr p) \<longleftrightarrow> (\<forall>r\<in>set rs. scalar_str (partition_key r) \<and>
     (\<forall>h. explicit_hash_key r = Some h \<longrightarrow> scalar_str h))"
proof -
  have "(\<exists>p. builder_serialize b = Inr p) \<longleftrightarrow>
      (\<forall>s\<in>set (partition_keys b). scalar_str s) \<and> (\<forall>s\<in>set (explicit_hash_keys b). scalar_str s)"
    unfolding utf8_encode_Inr_iff [symmetric] emap_Inr_iff [symmetric]
    by (auto simp: builder_serialize_eq err_simps)
  moreover have "(\<forall>s\<in>set (partition_keys b). scalar_str s) \<longleftrightarrow>
      (\<forall>r\<in>set rs. scalar_str (partition_key r))"
    using assms by (simp add: tables_of_def)
  moreover have "(\<forall>s\<in>set (explicit_hash_keys b). scalar_str s) \<longleftrightarrow>
      (\<forall>r\<in>set rs. \<forall>h. explicit_hash_key r = Some h \<longrightarrow> scalar_str h)"
    using tables_of_ehk [OF assms] by blast
  ultimately show ?thesis by blast
qed

lemma encode_aggregated_Inr_iff:
  "(\<exists>blob. encode_aggregated rs = Inr blob) \<longleftrightarrow>
     length rs = 1 \<or> 2 \<le> length rs \<and> (\<forall>r\<in>set rs. record_scalar r)"
proof (cases "2 \<le> length rs")
  case False
  then show ?thesis by (cases rs; cases "tl rs") (auto simp: encode_aggregated_def)
next
  case True
  have init: "tables_of [] builder_init" by (simp add: tables_of_def builder_init_def)
  have tables: "tables_of rs b" if "builder_add_all rs builder_init = Inr b" for b
    using builder_add_all_tables [OF builder_init_ok init that] by simp
  have "(\<exists>blob. encode_aggregated rs = Inr blob) \<longleftrightarrow>
      (\<exists>b. builder_add_all rs builder_init = Inr b \<and> (\<exists>p. builder_serialize b = Inr p))"
    using True by (auto simp: encode_aggregated_many err_simps)
  also have "\<dots> \<longleftrightarrow> (\<exists>b. builder_add_all rs builder_init = Inr b) \<and>
      (\<forall>r\<in>set rs. scalar_str (partition_key r) \<and>
        (\<forall>h. explicit_hash_key r = Some h \<longrightarrow> scalar_str h))"
    using builder_serialize_Inr_iff [OF tables] by blast
  finally show ?thesis
    using True unfolding builder_add_all_Inr_iff record_scalar_def by auto
qed

text \<open>the encoder is total apart from two documented failures.  It raises on an empty batch;
  it returns the raw data of a single record, whatever its strings are; and for two or more
  records it succeeds exactly when every string in them can be encoded as UTF-8.\<close>

theorem encode_aggregated_total:
  "(\<exists>blob. encode_aggregated rs = Inr blob) \<longleftrightarrow>
     length rs = 1 \<or> 2 \<le> length rs \<and> list_all record_scalar rs"
  by (simp add: encode_aggregated_Inr_iff list_all_iff)

section \<open>What the decoder accepts and rejects\<close>

text \<open>C33: a blob that decodes is the magic number, a payload and the payload's own MD5 digest, and
  the cheap check recognises it; so a payload whose checksum does not match is never decoded.\<close>

theorem decode_aggregated_integrity:
  assumes "decode_aggregated blob = Inr ds"
  shows "is_aggregated blob \<and> (\<exists>payload. blob = MAGIC @ payload @ md5 payload)"
proof -
  let ?k = "length blob - MD5_LEN"
  have len: "length MAGIC + MD5_LEN \<le> length blob" and magic: "take (length MAGIC) blob = MAGIC"
    and sum: "md5 (drop (length MAGIC) (take ?k blob)) = drop ?k blob"
    using assms by (auto simp: decode_aggregated_def Let_def not_less split: if_splits)
  have "take ?k blob = take (length MAGIC) (take ?k blob) @ drop (length MAGIC) (take ?k blob)"
    by (rule append_take_drop_id [symmetric])
  also have "take (length MAGIC) (take ?k blob) = MAGIC"
  proof -
    have "length MAGIC \<le> ?k" using len by linarith
    with magic show ?thesis by (simp add: min_absorb1)
  qed
  finally have "blob = MAGIC @ drop (length MAGIC) (take ?k blob) @ drop ?k blob"
    by (metis append.assoc append_take_drop_id)
  with sum len magic show ?thesis unfolding is_aggregated_def by metis
qed

theorem decode_aggregated_integrity_witness:
  "\<exists>blob ds. decode_aggregated blob = Inr ds \<and> is_aggregated blob \<and>
     (\<exists>payload. blob = MAGIC @ payload @ md5 payload)"
proof -
  have "decode_aggregated (MAGIC @ [] @ md5 []) = Inr []"
    by (subst decode_aggregated_framed [OF refl]) (simp add: decode_agg_loop.simps)
  with decode_aggregated_integrity [OF this] show ?thesis by blast
qed

text \<open>The exceptions of the decoder: \<open>ValueError\<close> or its subclass \<open>UnicodeDecodeError\<close>.\<close>

definition value_error :: "pyerr \<Rightarrow> bool" where
  "value_error e \<longleftrightarrow> (case e of ValueError _ \<Rightarrow> True | UnicodeDecodeError \<Rightarrow> True | _ \<Rightarrow> False)"

lemma value_error_simps [simp]: "value_error (ValueError m)" "value_error UnicodeDecodeError"
  by (simp_all add: value_error_def)

lemma decode_varint_error: "decode_varint buf pos = Inl e \<Longrightarrow> value_error e"
proof -
  have "decode_varint_loop buf pos r sh = Inl e \<Longrightarrow> value_error e" for r sh
  proof (induction buf pos r sh rule: decode_varint_loop.induct)
    case (1 buf pos r sh)
    from "1.prems" show ?case
      by (subst (asm) decode_varint_loop.simps)
        (use "1.IH" in \<open>fastforce simp: Let_def split: if_splits\<close>)
  qed
  then show "decode_varint buf pos = Inl e \<Longrightarrow> value_error e" by (simp add: decode_varint_def)
qed

lemma read_delimited_error: "read_delimited msg buf pos = Inl e \<Longrightarrow> value_error e"
  by (auto simp: read_delimited_def err_simps Let_def dest: decode_varint_error split: if_splits)

lemma skip_unknown_error: "skip_unknown buf pos w = Inl e \<Longrightarrow> value_error e"
  by (auto simp: skip_unknown_def err_simps Let_def dest: decode_varint_error split: if_splits)

lemma utf8_decode_value_error: "utf8_decode bs = Inl e \<Longrightarrow> value_error e"
  by (auto dest: utf8_decode_error)

lemmas read_errors = utf8_decode_value_error decode_varint_error read_delimited_error skip_unknown_error

lemma decode_tag_loop_error: "decode_tag_loop buf pos st = Inl e \<Longrightarrow> value_error e"
proof (induction buf pos st rule: decode_tag_loop.induct)
  case (1 buf pos st)
  have "decode_tag_turn buf pos st = Inl e \<Longrightarrow> value_error e"
    by (auto simp: decode_tag_turn_def err_simps Let_def dest: read_errors
        split: if_splits prod.splits)
  with "1" show ?case
    by (subst (asm) (2) decode_tag_loop.simps) (auto simp: err_simps split: if_splits)
qed

lemma decode_tag_msg_error: "decode_tag_msg buf = Inl e \<Longrightarrow> value_error e"
  by (auto simp: decode_tag_msg_def err_simps dest: decode_tag_loop_error split: option.splits)

lemma decode_record_loop_error: "decode_record_loop buf pos st = Inl e \<Longrightarrow> value_error e"
proof (induction buf pos st rule: decode_record_loop.induct)
  case (1 buf pos st)
  have "decode_record_turn buf pos st = Inl e \<Longrightarrow> value_error e"
    by (auto simp: decode_record_turn_def err_simps Let_def dest: read_errors decode_tag_msg_error
        split: if_splits prod.splits)
  with "1" show ?case
    by (subst (asm) (2) decode_record_loop.simps) (auto simp: err_simps split: if_splits)
qed

lemma decode_record_msg_error: "decode_record_msg buf pks ehks = Inl e \<Longrightarrow> value_error e"
proof (cases "decode_record_loop buf 0 (None, None, None, [])")
  case (Inr st)
  then show "decode_record_msg buf pks ehks = Inl e \<Longrightarrow> value_error e"
    by (cases st) (auto simp: decode_record_msg_def split: option.splits if_splits)
qed (auto simp: decode_record_msg_def dest: decode_record_loop_error)

lemma decode_agg_loop_error: "decode_agg_loop buf pos st = Inl e \<Longrightarrow> value_error e"
proof (induction buf pos st rule: decode_agg_loop.induct)
  case (1 buf pos st)
  have "decode_agg_turn buf pos st = Inl e \<Longrightarrow> value_error e"
    by (auto simp: decode_agg_turn_def err_simps Let_def dest: read_errors
        split: if_splits prod.splits)
  with "1" show ?case
    by (subst (asm) (2) decode_agg_loop.simps) (auto simp: err_simps split: if_splits)
qed

lemma emap_Inl: "emap f xs = Inl e \<Longrightarrow> \<exists>x\<in>set xs. f x = Inl e"
  by (induction xs) (auto simp: err_simps)


text \<open>The varint reader stops after ten groups of seven bits, so it can return a number of up to
  70 bits, more than the 64 its comment promises.\<close>

lemma varint_ones: "varint (2 ^ (7 * k + 7) - 1) = replicate k 0xFF @ [0x7F]"
proof (induction k)
  case 0
  show ?case by (simp add: varint_small byte_of_def)
next
  case (Suc k)
  define m :: nat where "m = 2 ^ (7 * k + 7) - 1"
  have "(2 :: nat) ^ (7 * Suc k + 7) = 128 * 2 ^ (7 * k + 7)" by (simp add: power_add)
  moreover have gt: "(1 :: nat) < 2 ^ (7 * k + 7)" by (rule one_less_power) simp_all
  ultimately have "2 ^ (7 * Suc k + 7) - 1 = 128 * m + 127" unfolding m_def by linarith
  moreover have "m \<noteq> 0" using gt unfolding m_def by linarith
  then have "varint (128 * m + 127) = byte_of 255 # varint m" by (simp add: varint_big)
  moreover have "varint m = replicate k 0xFF @ [0x7F]" unfolding m_def by (rule Suc.IH)
  ultimately show ?case by (simp add: byte_of_def)
qed

lemma decode_varint_exceeds_uint64:
  "decode_varint (replicate 9 0xFF @ [0x7F]) 0 = Inr (2 ^ 70 - 1, 10) \<and> (2 :: nat) ^ 64 < 2 ^ 70 - 1"
  using decode_varint_varint [of "2 ^ 70 - 1" "[]" "[]"] varint_ones [of 9] by simp

end
