(* ===== verification/Reducer.thy ===== *)
theory Reducer
  imports Prelude
begin

text \<open>
  Model of \<^verbatim>\<open>src/aiokpl/reducer.py\<close>, the generic deadline-driven batcher.  The \<open>Batch\<close> protocol
  and the constructor arguments are a record \<open>reducer_cfg\<close> of functions and limits; the mutable
  fields are the record \<open>reducer\<close>.  A timer is a task of the caller's task group: a cancel scope
  (a number, fresh for every timer) with the time at which its sleep ends; cancelling a scope
  removes its task.  Every method holds the reducer's lock around code without suspension points,
  so each is one atomic step; the clock reading of a step is its argument.  A method that may raise
  returns the exception beside the object it leaves behind.  The \<open>inductive\<close>
  relation \<open>rstep\<close> lets adds, flushes, timer wake-ups and the close happen in any order.

  Clients are served by the locale \<open>batch_container\<close>: the laws of the \<open>Batch\<close> protocol, from which
  the behaviour of the reducer is derived once.
\<close>

section \<open>Configuration and state\<close>

record ('i, 'b) reducer_cfg =
  batch_factory :: 'b
  b_add :: "'b \<Rightarrow> 'i \<Rightarrow> pyerr option \<times> 'b"
  b_remove_last :: "'b \<Rightarrow> pyerr + 'i \<times> 'b"
  b_items :: "'b \<Rightarrow> 'i list"
  b_count :: "'b \<Rightarrow> nat"
  b_size :: "'b \<Rightarrow> nat"
  b_deadline :: "'b \<Rightarrow> pyfloat"
  i_deadline :: "'i \<Rightarrow> pyfloat"
  count_limit :: nat
  size_limit :: nat
  flush_predicate :: "('i \<Rightarrow> 'b \<Rightarrow> bool) option"

record 'b reducer =
  active :: 'b
  timer_scope :: "nat option"
  timer_tasks :: "(nat \<times> pyfloat) list"
  next_scope :: nat
  closed :: bool

definition reducer_init :: "('i, 'b) reducer_cfg \<Rightarrow> 'b reducer" where
  "reducer_init cfg = \<lparr>active = batch_factory cfg, timer_scope = None, timer_tasks = [],
     next_scope = 0, closed = False\<rparr>"

section \<open>Timers\<close>

definition cancel_timer_locked :: "'b reducer \<Rightarrow> 'b reducer" where
  "cancel_timer_locked r =
     (case timer_scope r of
        None \<Rightarrow> r
      | Some s \<Rightarrow> r\<lparr>timer_scope := None, timer_tasks := filter (\<lambda>t. fst t \<noteq> s) (timer_tasks r)\<rparr>)"

text \<open>\<open>now + max(0.0, deadline - now)\<close>, the end of the timer's sleep.\<close>

definition wake_at :: "real \<Rightarrow> pyfloat \<Rightarrow> pyfloat" where
  "wake_at now d = (case d of Fin d \<Rightarrow> Fin (now + max 0 (d - now)) | PInf \<Rightarrow> PInf | NInf \<Rightarrow> Fin now)"

definition reschedule_locked :: "('i, 'b) reducer_cfg \<Rightarrow> real \<Rightarrow> 'b reducer \<Rightarrow> 'b reducer" where
  "reschedule_locked cfg now r =
     (let r = cancel_timer_locked r in
      if b_count cfg (active r) = 0 then r
      else let s = next_scope r in
        r\<lparr>timer_scope := Some s, next_scope := s + 1,
          timer_tasks := timer_tasks r @ [(s, wake_at now (b_deadline cfg (active r)))]\<rparr>)"

lemma wake_at_le: "t0 \<le> t \<Longrightarrow> d \<le> e \<Longrightarrow> wake_at t0 d \<le> max (Fin t) e"
  by (cases d; cases e) (auto simp: wake_at_def max_def)

section \<open>Packing\<close>

fun pack_loop :: "('i, 'b) reducer_cfg \<Rightarrow> 'b \<Rightarrow> 'i list \<Rightarrow> pyerr + 'b \<times> 'i list" where
  "pack_loop cfg cl [] = Inr (cl, [])"
| "pack_loop cfg cl (c # cs) =
     (case b_add cfg cl c of
        (Some e, _) \<Rightarrow> Inl e
      | (None, cl') \<Rightarrow>
          if b_count cfg cl' > count_limit cfg \<or> b_size cfg cl' > size_limit cfg
          then if b_count cfg cl' = 1 then Inr (cl', cs)
            else ebind (b_remove_last cfg cl') (\<lambda>(_, cl''). Inr (cl'', c # cs))
          else pack_loop cfg cl' cs)"

text \<open>\<open>for r in remaining: new_active.add(r)\<close>\<close>

fun add_all :: "('i, 'b) reducer_cfg \<Rightarrow> 'b \<Rightarrow> 'i list \<Rightarrow> pyerr option \<times> 'b" where
  "add_all cfg b [] = (None, b)"
| "add_all cfg b (x # xs) =
     (case b_add cfg b x of (Some e, b') \<Rightarrow> (Some e, b') | (None, b') \<Rightarrow> add_all cfg b' xs)"

definition pack_and_split ::
    "('i, 'b) reducer_cfg \<Rightarrow> real \<Rightarrow> 'b reducer \<Rightarrow> (pyerr + 'b) \<times> 'b reducer" where
  "pack_and_split cfg now r =
     (let r = cancel_timer_locked r;
          candidates = sort_key (i_deadline cfg) (b_items cfg (active r)) in
      case pack_loop cfg (batch_factory cfg) candidates of
        Inl e \<Rightarrow> (Inl e, r)
      | Inr (closed_b, remaining) \<Rightarrow>
          (case add_all cfg (batch_factory cfg) remaining of
             (Some e, new_active) \<Rightarrow> (Inl e, r\<lparr>active := new_active\<rparr>)
           | (None, new_active) \<Rightarrow>
               let r = r\<lparr>active := new_active\<rparr>;
                   r = (if b_count cfg new_active > 0 then reschedule_locked cfg now r else r)
               in (Inr closed_b, r)))"

section \<open>Public operations\<close>

text \<open>A method returns what its caller gets, an exception or a value, and the object it leaves.\<close>

definition some_closed :: "(pyerr + 'b) \<times> 'b reducer \<Rightarrow> (pyerr + 'b option) \<times> 'b reducer" where
  "some_closed res = (case res of (Inl e, r) \<Rightarrow> (Inl e, r) | (Inr cl, r) \<Rightarrow> (Inr (Some cl), r))"

definition reducer_add ::
    "('i, 'b) reducer_cfg \<Rightarrow> real \<Rightarrow> 'i \<Rightarrow> 'b reducer \<Rightarrow> (pyerr + 'b option) \<times> 'b reducer" where
  "reducer_add cfg now item r =
     (case b_add cfg (active r) item of
        (Some e, a) \<Rightarrow> (Inl e, r\<lparr>active := a\<rparr>)
      | (None, a) \<Rightarrow>
          let r = r\<lparr>active := a\<rparr>;
              predicate_hit = (case flush_predicate cfg of None \<Rightarrow> False | Some p \<Rightarrow> p item a);
              limits_hit = (b_count cfg a \<ge> count_limit cfg \<or> b_size cfg a \<ge> size_limit cfg) in
          if predicate_hit \<or> limits_hit then some_closed (pack_and_split cfg now r)
          else (Inr None, reschedule_locked cfg now r))"

definition reducer_flush ::
    "('i, 'b) reducer_cfg \<Rightarrow> real \<Rightarrow> 'b reducer \<Rightarrow> (pyerr + 'b option) \<times> 'b reducer" where
  "reducer_flush cfg now r =
     (if b_count cfg (active r) = 0 then (Inr None, cancel_timer_locked r)
      else some_closed (pack_and_split cfg now r))"

definition reducer_aclose :: "('i, 'b) reducer_cfg \<Rightarrow> 'b reducer \<Rightarrow> 'b reducer" where
  "reducer_aclose cfg r = (cancel_timer_locked (r\<lparr>closed := True\<rparr>))\<lparr>active := batch_factory cfg\<rparr>"

text \<open>The firing of a timer: a closed reducer and a stale scope are ignored.\<close>

definition reducer_fire ::
    "('i, 'b) reducer_cfg \<Rightarrow> real \<Rightarrow> nat \<Rightarrow> 'b reducer \<Rightarrow> (pyerr + 'b option) \<times> 'b reducer" where
  "reducer_fire cfg now scope r =
     (if closed r then (Inr None, r)
      else if timer_scope r \<noteq> Some scope then (Inr None, r)
      else let r = r\<lparr>timer_scope := None\<rparr> in
        if b_count cfg (active r) = 0 then (Inr None, r)
        else some_closed (pack_and_split cfg now r))"

text \<open>The timer task after its sleep: it leaves the task group and fires.\<close>

definition timer_task ::
    "('i, 'b) reducer_cfg \<Rightarrow> real \<Rightarrow> nat \<Rightarrow> 'b reducer \<Rightarrow> (pyerr + 'b option) \<times> 'b reducer" where
  "timer_task cfg now scope r =
     (let r = r\<lparr>timer_tasks := filter (\<lambda>t. fst t \<noteq> scope) (timer_tasks r)\<rparr> in
      if closed r then (Inr None, r) else reducer_fire cfg now scope r)"

section \<open>Runs\<close>

datatype 'i revent = RAdd 'i | RFlush | RWake nat | RClose

inductive rstep :: "('i, 'b) reducer_cfg \<Rightarrow> real \<Rightarrow> 'b reducer \<Rightarrow> 'i revent \<Rightarrow> pyerr + 'b option
    \<Rightarrow> 'b reducer \<Rightarrow> bool" for cfg now where
  add: "reducer_add cfg now x r = (res, r') \<Longrightarrow> rstep cfg now r (RAdd x) res r'"
| flush: "reducer_flush cfg now r = (res, r') \<Longrightarrow> rstep cfg now r RFlush res r'"
| wake: "(s, w) \<in> set (timer_tasks r) \<Longrightarrow> w \<le> Fin now \<Longrightarrow> timer_task cfg now s r = (res, r') \<Longrightarrow>
     rstep cfg now r (RWake s) res r'"
| close: "rstep cfg now r RClose (Inr None) (reducer_aclose cfg r)"

inductive_cases rstep_elims:
  "rstep cfg now r (RAdd x) res r'" "rstep cfg now r RFlush res r'"
  "rstep cfg now r (RWake s) res r'" "rstep cfg now r RClose res r'"

definition emitted :: "pyerr + 'b option \<Rightarrow> 'b list" where
  "emitted res = (case res of Inr (Some b) \<Rightarrow> [b] | _ \<Rightarrow> [])"

lemma emitted_simps [simp]:
  "emitted (Inr (Some b)) = [b]" "emitted (Inr None) = []" "emitted (Inl e) = []"
  by (simp_all add: emitted_def)

text \<open>A run from the initial state: the events in order, what they returned, the state and the
  time reached; the clock does not run backwards.\<close>

inductive rrun :: "('i, 'b) reducer_cfg \<Rightarrow> real \<Rightarrow> 'i revent list \<Rightarrow> (pyerr + 'b option) list
    \<Rightarrow> 'b reducer \<Rightarrow> bool" for cfg where
  start: "rrun cfg t [] [] (reducer_init cfg)"
| step: "rrun cfg t evs outs r \<Longrightarrow> t \<le> t' \<Longrightarrow> rstep cfg t' r ev res r' \<Longrightarrow>
     rrun cfg t' (evs @ [ev]) (outs @ [res]) r'"

fun added :: "'i revent list \<Rightarrow> 'i list" where
  "added [] = []"
| "added (RAdd x # es) = x # added es"
| "added (_ # es) = added es"

lemma added_append [simp]: "added (es @ fs) = added es @ added fs"
  by (induction es rule: added.induct) auto

section \<open>The abstract packing\<close>

text \<open>On lists of items: the longest prefix that fits, but at least one item.\<close>

fun greedy :: "('i list \<Rightarrow> bool) \<Rightarrow> 'i list \<Rightarrow> 'i list \<Rightarrow> 'i list \<times> 'i list" where
  "greedy fits acc [] = (acc, [])"
| "greedy fits acc (x # xs) =
     (if fits (acc @ [x]) then greedy fits (acc @ [x]) xs
      else if acc = [] then ([x], xs) else (acc, x # xs))"

lemma greedy_append: "greedy fits acc xs = (c, rem) \<Longrightarrow> c @ rem = acc @ xs"
  by (induction xs arbitrary: acc) (auto split: if_splits)

lemma greedy_nonempty: "greedy fits acc xs = (c, rem) \<Longrightarrow> acc @ xs \<noteq> [] \<Longrightarrow> c \<noteq> []"
  by (induction xs arbitrary: acc) (auto split: if_splits)

lemma greedy_fits:
  "greedy fits acc xs = (c, rem) \<Longrightarrow> acc = [] \<or> fits acc \<Longrightarrow> c \<noteq> [] \<Longrightarrow> fits c \<or> length c = 1"
  by (induction xs arbitrary: acc) (auto split: if_splits)

lemma greedy_maximal:
  "greedy fits acc xs = (c, rem) \<Longrightarrow> acc = [] \<or> fits acc \<Longrightarrow> rem \<noteq> [] \<Longrightarrow>
   \<not> fits c \<or> \<not> fits (c @ [hd rem])"
  by (induction xs arbitrary: acc) (auto split: if_splits)


section \<open>The Batch protocol\<close>

text \<open>
  What a container promises, for the items it can take (\<open>ok_item\<close>): an add appends and does not
  raise, \<open>remove_last\<close> takes the last item back, and count, size and deadline are functions of the
  items.
\<close>

locale batch_container =
  fixes cfg :: "('i, 'b) reducer_cfg"
    and ok :: "'b \<Rightarrow> bool"
    and ok_item :: "'i \<Rightarrow> bool"
    and isize :: "'i list \<Rightarrow> nat"
  assumes empty_ok: "ok (batch_factory cfg)"
    and items_empty: "b_items cfg (batch_factory cfg) = []"
    and items_ok: "ok b \<Longrightarrow> x \<in> set (b_items cfg b) \<Longrightarrow> ok_item x"
    and add_law: "ok b \<Longrightarrow> ok_item x \<Longrightarrow>
      \<exists>b'. b_add cfg b x = (None, b') \<and> ok b' \<and> b_items cfg b' = b_items cfg b @ [x]"
    and remove_last_law: "ok b \<Longrightarrow> b_items cfg b = xs @ [x] \<Longrightarrow>
      \<exists>b'. b_remove_last cfg b = Inr (x, b') \<and> ok b' \<and> b_items cfg b' = xs"
    and count_law: "ok b \<Longrightarrow> b_count cfg b = length (b_items cfg b)"
    and size_law: "ok b \<Longrightarrow> b_size cfg b = isize (b_items cfg b)"
    and size_mono: "isize xs \<le> isize (xs @ [x])"
    and deadline_law: "ok b \<Longrightarrow> b_deadline cfg b = pymin (map (i_deadline cfg) (b_items cfg b))"
begin

abbreviation "items \<equiv> b_items cfg"

definition fits :: "'i list \<Rightarrow> bool" where
  "fits xs \<longleftrightarrow> length xs \<le> count_limit cfg \<and> isize xs \<le> size_limit cfg"

lemma count_0_iff: "ok b \<Longrightarrow> b_count cfg b = 0 \<longleftrightarrow> items b = []"
  by (simp add: count_law)

lemma pack_loop_greedy:
  "ok cl \<Longrightarrow> \<forall>x\<in>set xs. ok_item x \<Longrightarrow>
   \<exists>cl' rem. pack_loop cfg cl xs = Inr (cl', rem) \<and> ok cl' \<and>
     greedy fits (items cl) xs = (items cl', rem)"
proof (induction xs arbitrary: cl)
  case (Cons x xs)
  then obtain cl' where cl': "b_add cfg cl x = (None, cl')" "ok cl'" "items cl' = items cl @ [x]"
    using add_law by (metis list.set_intros(1))
  have over: "(b_count cfg cl' > count_limit cfg \<or> b_size cfg cl' > size_limit cfg)
      \<longleftrightarrow> \<not> fits (items cl @ [x])"
    using cl' by (auto simp: count_law size_law fits_def)
  have one: "b_count cfg cl' = 1 \<longleftrightarrow> items cl = []"
    using cl' by (simp add: count_law)
  obtain cl'' where cl'': "b_remove_last cfg cl' = Inr (x, cl'')" "ok cl''" "items cl'' = items cl"
    using remove_last_law [OF cl'(2,3)] by auto
  from Cons.IH [OF cl'(2)] Cons.prems cl' cl'' over one show ?case by auto
qed simp

lemma add_all_items:
  "ok b \<Longrightarrow> \<forall>x\<in>set xs. ok_item x \<Longrightarrow>
   \<exists>b'. add_all cfg b xs = (None, b') \<and> ok b' \<and> items b' = items b @ xs"
proof (induction xs arbitrary: b)
  case (Cons x xs)
  then obtain b' where b': "b_add cfg b x = (None, b')" "ok b'" "items b' = items b @ [x]"
    using add_law by (metis list.set_intros(1))
  from Cons.IH [OF b'(2)] Cons.prems b' show ?case by auto
qed simp

text \<open>What \<open>pack_and_split\<close> does: the closed batch and the new active batch are the greedy
  packing of the candidates in deadline order; the timer runs iff something is left.\<close>

definition split_of :: "'i list \<Rightarrow> 'i list \<times> 'i list" where
  "split_of xs = greedy fits [] (sort_key (i_deadline cfg) xs)"

definition timer_on :: "real \<Rightarrow> 'b reducer \<Rightarrow> bool" where
  "timer_on now r \<longleftrightarrow>
     (if items (active r) = [] then timer_scope r = None \<and> timer_tasks r = []
      else \<exists>s t0. timer_scope r = Some s \<and> t0 \<le> now \<and>
        timer_tasks r = [(s, wake_at t0 (pymin (map (i_deadline cfg) (items (active r)))))])"

text \<open>Timers of an open reducer are consistent: no task but the one of the current scope.\<close>

definition tasks_wf :: "'b reducer \<Rightarrow> bool" where
  "tasks_wf r \<longleftrightarrow> (case timer_scope r of None \<Rightarrow> timer_tasks r = []
     | Some s \<Rightarrow> fst ` set (timer_tasks r) \<subseteq> {s})"

lemma cancel_tasks: "tasks_wf r \<Longrightarrow> cancel_timer_locked r = r\<lparr>timer_scope := None, timer_tasks := []\<rparr>"
proof (cases "timer_scope r")
  case (Some s)
  moreover assume "tasks_wf r"
  ultimately have "filter (\<lambda>t. fst t \<noteq> s) (timer_tasks r) = []"
    by (auto simp: tasks_wf_def intro!: filter_False)
  with Some show ?thesis by (simp add: cancel_timer_locked_def)
qed (simp add: tasks_wf_def cancel_timer_locked_def)

lemma cancel_keeps [simp]:
  "active (cancel_timer_locked r) = active r" "closed (cancel_timer_locked r) = closed r"
  by (auto simp: cancel_timer_locked_def split: option.splits)

lemma timer_on_wf: "timer_on now r \<Longrightarrow> tasks_wf r"
  by (auto simp: timer_on_def tasks_wf_def split: if_splits)

lemma reschedule_on:
  assumes "tasks_wf r" "ok (active r)" "items (active r) \<noteq> []"
  shows "timer_on now (reschedule_locked cfg now r)"
    and "active (reschedule_locked cfg now r) = active r"
    and "closed (reschedule_locked cfg now r) = closed r"
  using assms
  by (auto simp: reschedule_locked_def cancel_tasks count_0_iff timer_on_def deadline_law Let_def)

lemma pack_and_split_ok:
  assumes "ok (active r)" "tasks_wf r"
  shows "\<exists>cl r'. pack_and_split cfg now r = (Inr cl, r') \<and> ok cl \<and> ok (active r') \<and>
    split_of (items (active r)) = (items cl, items (active r')) \<and> closed r' = closed r \<and>
    timer_on now r'"
proof -
  let ?c = "sort_key (i_deadline cfg) (items (active r))"
  have c: "\<forall>x\<in>set ?c. ok_item x" using assms items_ok by auto
  obtain cl rem where cl: "pack_loop cfg (batch_factory cfg) ?c = Inr (cl, rem)" "ok cl"
      "greedy fits [] ?c = (items cl, rem)"
    using pack_loop_greedy [OF empty_ok c] by (auto simp: items_empty)
  have "\<forall>x\<in>set rem. ok_item x"
    using greedy_append [OF cl(3)] c by (metis Un_iff append_Nil set_append)
  then obtain na where na: "add_all cfg (batch_factory cfg) rem = (None, na)" "ok na" "items na = rem"
    using add_all_items [OF empty_ok] by (auto simp: items_empty)
  let ?r = "r\<lparr>timer_scope := None, timer_tasks := [], active := na\<rparr>"
  have wf: "tasks_wf ?r" by (simp add: tasks_wf_def)
  show ?thesis
  proof (cases "rem = []")
    case True
    with na have "b_count cfg na = 0" by (simp add: count_law)
    with True show ?thesis using cl na assms
      by (auto simp: pack_and_split_def cancel_tasks split_of_def timer_on_def Let_def)
  next
    case False
    then show ?thesis using cl na assms reschedule_on [of ?r now] wf
      by (auto simp: pack_and_split_def cancel_tasks count_law split_of_def Let_def)
  qed
qed

text \<open>The three ways to close a batch.\<close>

definition invariant :: "real \<Rightarrow> 'b reducer \<Rightarrow> bool" where
  "invariant now r \<longleftrightarrow> ok (active r) \<and> \<not> closed r \<and> timer_on now r"

lemma invariant_mono: "invariant t r \<Longrightarrow> t \<le> t' \<Longrightarrow> invariant t' r"
  by (auto simp: invariant_def timer_on_def split: if_splits intro: order_trans)

lemma invariant_init: "invariant t (reducer_init cfg)"
  by (simp add: invariant_def reducer_init_def timer_on_def empty_ok items_empty)

definition flushes :: "'i \<Rightarrow> 'b \<Rightarrow> bool" where
  "flushes x a \<longleftrightarrow> (case flush_predicate cfg of None \<Rightarrow> False | Some p \<Rightarrow> p x a) \<or>
     b_count cfg a \<ge> count_limit cfg \<or> b_size cfg a \<ge> size_limit cfg"

lemma closing_step:
  assumes "ok (active r)" "tasks_wf r" "\<not> closed r" "some_closed (pack_and_split cfg now r) = (res, r')"
  shows "\<exists>cl. res = Inr (Some cl) \<and> ok cl \<and> split_of (items (active r)) = (items cl, items (active r'))
    \<and> invariant now r'"
  using pack_and_split_ok [OF assms(1,2), of now] assms(3,4)
  by (auto simp: some_closed_def invariant_def)

lemma add_step:
  assumes "invariant now r" "ok_item x" "reducer_add cfg now x r = (res, r')"
  shows "invariant now r' \<and>
    (\<exists>a. items a = items (active r) @ [x] \<and> ok a \<and>
      (if flushes x a then \<exists>cl. res = Inr (Some cl) \<and> ok cl \<and>
           split_of (items (active r) @ [x]) = (items cl, items (active r'))
       else res = Inr None \<and> active r' = a))"
proof -
  obtain a where a: "b_add cfg (active r) x = (None, a)" "ok a" "items a = items (active r) @ [x]"
    using add_law assms by (auto simp: invariant_def)
  let ?r = "r\<lparr>active := a\<rparr>"
  have wf: "tasks_wf ?r" "\<not> closed ?r"
    using timer_on_wf [of now r] assms(1)
    by (auto simp: invariant_def tasks_wf_def split: option.splits)
  show ?thesis
  proof (cases "flushes x a")
    case True
    then have "some_closed (pack_and_split cfg now ?r) = (res, r')"
      using assms(3) a(1) by (auto simp: reducer_add_def flushes_def Let_def)
    with closing_step [of ?r now res r'] wf a True show ?thesis by auto
  next
    case False
    then have "(res, r') = (Inr None, reschedule_locked cfg now ?r)"
      using assms(3) a(1) by (auto simp: reducer_add_def flushes_def Let_def)
    with reschedule_on [of ?r now] wf a False show ?thesis by (auto simp: invariant_def)
  qed
qed

lemma flush_step:
  assumes "invariant now r" "reducer_flush cfg now r = (res, r')"
  shows "invariant now r' \<and>
    (if items (active r) = [] then res = Inr None \<and> items (active r') = []
     else \<exists>cl. res = Inr (Some cl) \<and> ok cl \<and>
       split_of (items (active r)) = (items cl, items (active r')))"
proof (cases "items (active r) = []")
  case True
  then have "(res, r') = (Inr None, cancel_timer_locked r)"
    using assms by (auto simp: reducer_flush_def invariant_def count_0_iff)
  with assms(1) True timer_on_wf [of now r] show ?thesis
    by (auto simp: invariant_def timer_on_def cancel_tasks)
next
  case False
  with assms have "some_closed (pack_and_split cfg now r) = (res, r')"
    by (auto simp: reducer_flush_def invariant_def count_0_iff)
  with closing_step [of r now res r'] assms(1) False timer_on_wf [of now r] show ?thesis
    by (auto simp: invariant_def)
qed

lemma wake_step:
  assumes "invariant now r" "(s, w) \<in> set (timer_tasks r)" "timer_task cfg now s r = (res, r')"
  shows "invariant now r' \<and> items (active r) \<noteq> [] \<and>
    (\<exists>cl. res = Inr (Some cl) \<and> ok cl \<and> split_of (items (active r)) = (items cl, items (active r')))"
proof -
  have r: "timer_scope r = Some s" "items (active r) \<noteq> []" "ok (active r)" "\<not> closed r"
      "filter (\<lambda>t. fst t \<noteq> s) (timer_tasks r) = []"
    using assms(1,2) by (auto simp: invariant_def timer_on_def split: if_splits)
  let ?r = "r\<lparr>timer_tasks := [], timer_scope := None\<rparr>"
  have "some_closed (pack_and_split cfg now ?r) = (res, r')"
    using assms(3) r by (auto simp: timer_task_def reducer_fire_def count_0_iff Let_def)
  with closing_step [of ?r now res r'] r show ?thesis by (auto simp: tasks_wf_def)
qed

lemma split_of_mset: "split_of xs = (c, rem) \<Longrightarrow> mset xs = mset c + mset rem"
  by (auto simp: split_of_def dest!: greedy_append) (metis mset_append mset_sort)

lemma split_of_sorted:
  assumes "split_of xs = (c, rem)"
  shows "sorted (map (i_deadline cfg) c)" "x \<in> set c \<Longrightarrow> y \<in> set rem \<Longrightarrow> i_deadline cfg x \<le> i_deadline cfg y"
proof -
  have "c @ rem = sort_key (i_deadline cfg) xs"
    using assms by (auto simp: split_of_def dest!: greedy_append)
  then have "sorted (map (i_deadline cfg) (c @ rem))" by simp
  then show "sorted (map (i_deadline cfg) c)"
    "x \<in> set c \<Longrightarrow> y \<in> set rem \<Longrightarrow> i_deadline cfg x \<le> i_deadline cfg y"
    by (auto simp: sorted_append)
qed

lemma split_of_nonempty: "split_of xs = (c, rem) \<Longrightarrow> xs \<noteq> [] \<Longrightarrow> c \<noteq> []"
  by (auto simp: split_of_def dest!: greedy_nonempty)
    (metis length_0_conv length_sort)

lemma split_of_length:
  assumes "split_of xs = (c, rem)" "xs \<noteq> []"
  shows "length rem < length xs"
proof -
  have "length xs = length c + length rem"
    using split_of_mset [OF assms(1)] by (metis size_mset size_union)
  with split_of_nonempty [OF assms] show ?thesis by simp
qed

lemma split_of_fits: "split_of xs = (c, rem) \<Longrightarrow> xs \<noteq> [] \<Longrightarrow> fits c \<or> length c = 1"
  using greedy_fits split_of_nonempty unfolding split_of_def by blast

text \<open>What any step of an open reducer does, in terms of items only.\<close>

lemma open_step:
  assumes "invariant now r" "rstep cfg now r ev res r'" "ev \<noteq> RClose" "\<forall>x\<in>set (added [ev]). ok_item x"
  shows "invariant now r' \<and>
    ((\<exists>cl. res = Inr (Some cl) \<and> ok cl \<and> items (active r) @ added [ev] \<noteq> [] \<and>
       split_of (items (active r) @ added [ev]) = (items cl, items (active r')))
     \<or> res = Inr None \<and> items (active r') = items (active r) @ added [ev])"
  using assms(2)
proof cases
  case (add x)
  then have x: "ok_item x" using assms(4) by simp
  from add add_step [OF assms(1) x, of res r'] show ?thesis by (auto split: if_splits)
next
  case flush
  with flush_step [OF assms(1), of res r'] show ?thesis by (auto split: if_splits)
next
  case (wake s w)
  with wake_step [OF assms(1), of s w res r'] show ?thesis by auto
qed (use assms(3) in simp)

definition good_run :: "'i revent list \<Rightarrow> bool" where
  "good_run evs \<longleftrightarrow> RClose \<notin> set evs \<and> (\<forall>x\<in>set (added evs). ok_item x)"

lemma good_run_snoc:
  "good_run (evs @ [ev]) \<longleftrightarrow> good_run evs \<and> ev \<noteq> RClose \<and> (\<forall>x\<in>set (added [ev]). ok_item x)"
  by (auto simp: good_run_def)

lemma run_invariant: "rrun cfg t evs outs r \<Longrightarrow> good_run evs \<Longrightarrow> invariant t r"
proof (induction rule: rrun.induct)
  case (step t evs outs r t' ev res r')
  then have "invariant t' r" by (simp add: good_run_snoc invariant_mono)
  with step open_step show ?case by (auto simp: good_run_snoc)
qed (rule invariant_init)

lemma run_invariant_at: "rrun cfg t evs outs r \<Longrightarrow> t \<le> t' \<Longrightarrow> good_run evs \<Longrightarrow> invariant t' r"
  by (rule invariant_mono [OF run_invariant])

lemma run_step:
  assumes "rrun cfg t evs outs r" "t \<le> t'" "rstep cfg t' r ev res r'" "good_run (evs @ [ev])"
  shows "invariant t' r'"
    and "(\<exists>cl. res = Inr (Some cl) \<and> ok cl \<and> items (active r) @ added [ev] \<noteq> [] \<and>
        split_of (items (active r) @ added [ev]) = (items cl, items (active r')))
      \<or> res = Inr None \<and> items (active r') = items (active r) @ added [ev]"
proof -
  have "invariant t' r"
    using assms run_invariant_at [OF assms(1,2)] by (simp add: good_run_snoc)
  with assms open_step [of t' r ev res r'] show "invariant t' r'"
    and "(\<exists>cl. res = Inr (Some cl) \<and> ok cl \<and> items (active r) @ added [ev] \<noteq> [] \<and>
        split_of (items (active r) @ added [ev]) = (items cl, items (active r')))
      \<or> res = Inr None \<and> items (active r') = items (active r) @ added [ev]"
    by (auto simp: good_run_snoc)
qed

text \<open>No operation of a good run raises, and no item is lost or duplicated.\<close>

lemma run_never_raises: "rrun cfg t evs outs r \<Longrightarrow> good_run evs \<Longrightarrow> Inl e \<notin> set outs"
proof (induction rule: rrun.induct)
  case (step t evs outs r t' ev res r')
  with run_step(2) [OF step(1-3)] show ?case by (auto simp: good_run_snoc)
qed simp

lemma run_conservation:
  "rrun cfg t evs outs r \<Longrightarrow> good_run evs \<Longrightarrow>
   mset (added evs) = mset (concat (map items (concat (map emitted outs)))) + mset (items (active r))"
proof (induction rule: rrun.induct)
  case (step t evs outs r t' ev res r')
  then have IH: "mset (added evs)
      = mset (concat (map items (concat (map emitted outs)))) + mset (items (active r))"
    by (simp add: good_run_snoc)
  from run_step(2) [OF step(1-3,5)] consider
      (cl) cl where "res = Inr (Some cl)"
        "split_of (items (active r) @ added [ev]) = (items cl, items (active r'))"
    | (no) "res = Inr None" "items (active r') = items (active r) @ added [ev]" by blast
  then show ?case
  proof cases
    case cl
    from split_of_mset [OF cl(2)] cl(1) show ?thesis
      by (simp add: IH add.assoc)
  qed (simp add: IH)
qed (simp add: reducer_init_def items_empty)

lemma run_batches:
  "rrun cfg t evs outs r \<Longrightarrow> good_run evs \<Longrightarrow> Inr (Some b) \<in> set outs \<Longrightarrow>
   ok b \<and> items b \<noteq> [] \<and> (fits (items b) \<or> length (items b) = 1) \<and>
   sorted (map (i_deadline cfg) (items b))"
proof (induction rule: rrun.induct)
  case (step t evs outs r t' ev res r')
  from run_step(2) [OF step(1-3,5)] step(4-6) show ?case
    by (auto simp: good_run_snoc dest: split_of_nonempty split_of_fits split_of_sorted(1))
qed simp

text \<open>The active batch stays below the count limit.\<close>

lemma run_count:
  assumes "0 < count_limit cfg"
  shows "rrun cfg t evs outs r \<Longrightarrow> good_run evs \<Longrightarrow> b_count cfg (active r) < count_limit cfg"
proof (induction rule: rrun.induct)
  case (start t)
  then show ?case using assms by (simp add: reducer_init_def count_law empty_ok items_empty)
next
  case (step t evs outs r t' ev res r')
  have inv: "invariant t' r" "invariant t' r'"
    using step run_invariant_at [OF step(1,2)] run_step(1) [OF step(1-3)]
    by (simp_all add: good_run_snoc)
  have len: "length (items (active r)) < count_limit cfg"
    using step inv by (simp add: good_run_snoc invariant_def count_law)
  have "length (items (active r')) < count_limit cfg" using step(3)
  proof cases
    case (add x)
    have "ok_item x" using step(5) add by (simp add: good_run_snoc)
    from add_step [OF inv(1) this add(2)] obtain a where
      a: "items a = items (active r) @ [x]" "ok a" "flushes x a \<longrightarrow> (\<exists>cl. split_of (items a) = (items cl, items (active r')))"
        "\<not> flushes x a \<longrightarrow> active r' = a" by (auto split: if_splits)
    show ?thesis
    proof (cases "flushes x a")
      case True
      with a obtain cl where "split_of (items a) = (items cl, items (active r'))" by auto
      from split_of_length [OF this] a(1) len show ?thesis by simp
    next
      case False
      with a show ?thesis by (auto simp: flushes_def count_law)
    qed
  next
    case flush
    from flush_step [OF inv(1) flush(2)] len show ?thesis
      by (auto split: if_splits dest!: split_of_length)
  next
    case (wake s w)
    from wake_step [OF inv(1) wake(2,4)] len show ?thesis
      by (auto dest!: split_of_length)
  qed (use step(5) in \<open>simp add: good_run_snoc\<close>)
  then show ?case using inv by (simp add: invariant_def count_law)
qed

text \<open>Items that arrive in deadline order leave in arrival order, and a flush leaves nothing.\<close>

lemma fits_prefix: "fits (xs @ ys) \<Longrightarrow> fits xs"
proof (induction ys rule: rev_induct)
  case (snoc y ys)
  have "fits (xs @ ys)"
    using snoc.prems size_mono [of "xs @ ys" y] by (auto simp: fits_def)
  then show ?case by (rule snoc.IH)
qed simp

lemma greedy_all: "fits (acc @ xs) \<Longrightarrow> greedy fits acc xs = (acc @ xs, [])"
proof (induction xs arbitrary: acc)
  case (Cons x xs)
  with fits_prefix [of "acc @ [x]" xs] show ?case by auto
qed simp

lemma greedy_snoc:
  "fits (acc @ xs) \<or> acc @ xs = [] \<Longrightarrow> greedy fits acc (xs @ [x]) =
     (if fits (acc @ xs @ [x]) then (acc @ xs @ [x], [])
      else if acc @ xs = [] then ([x], []) else (acc @ xs, [x]))"
proof (induction xs arbitrary: acc)
  case (Cons y ys)
  with fits_prefix [of "acc @ [y]" ys] show ?case by auto
qed auto

definition drained :: "'i list \<Rightarrow> bool" where
  "drained xs \<longleftrightarrow> fits xs \<or> length xs \<le> 1"

lemma split_drained:
  assumes "drained xs" "sorted (map (i_deadline cfg) (xs @ ys))" "length ys \<le> 1" "split_of (xs @ ys) = (c, rem)"
  shows "c @ rem = xs @ ys \<and> length rem \<le> 1 \<and> (ys = [] \<longrightarrow> rem = [])"
proof -
  have g: "greedy fits [] (xs @ ys) = (c, rem)"
    using assms(2,4) by (simp only: split_of_def sort_key_id_if_sorted)
  have "length rem \<le> 1 \<and> (ys = [] \<longrightarrow> rem = [])"
  proof (cases "fits xs")
    case True
    show ?thesis
    proof (cases ys)
      case Nil
      with g greedy_all [of "[]" xs] True show ?thesis by simp
    next
      case (Cons y zs)
      with assms(3) g greedy_snoc [of "[]" xs y] True show ?thesis by (auto split: if_splits)
    qed
  next
    case False
    with assms(1) have "length xs \<le> 1" by (simp add: drained_def)
    then consider "xs = []" | x where "xs = [x]"
      by (cases xs) auto
    then show ?thesis
    proof cases
      case 1
      with g assms(3) show ?thesis by (cases ys) (auto split: if_splits)
    next
      case 2
      with g False assms(3) show ?thesis by auto
    qed
  qed
  with greedy_append [OF g] show ?thesis by simp
qed

lemma run_fifo:
  "rrun cfg t evs outs r \<Longrightarrow> good_run evs \<Longrightarrow> sorted (map (i_deadline cfg) (added evs)) \<Longrightarrow>
   added evs = concat (map items (concat (map emitted outs))) @ items (active r) \<and>
   drained (items (active r))"
proof (induction rule: rrun.induct)
  case (start t)
  then show ?case by (simp add: reducer_init_def items_empty drained_def)
next
  case (step t evs outs r t' ev res r')
  then have IH: "added evs = concat (map items (concat (map emitted outs))) @ items (active r)"
      "drained (items (active r))"
    by (simp_all add: good_run_snoc sorted_append)
  have inv: "invariant t' r"
    using step run_invariant_at [OF step(1,2)] by (simp add: good_run_snoc)
  have le: "length (added [ev]) \<le> 1" by (cases ev) simp_all
  have so: "sorted (map (i_deadline cfg) (items (active r) @ added [ev]))"
    using step(6) IH(1) by (simp add: sorted_append)
  from run_step(2) [OF step(1-3,5)] consider
      (cl) cl where "res = Inr (Some cl)"
        "split_of (items (active r) @ added [ev]) = (items cl, items (active r'))"
    | (no) "res = Inr None" "items (active r') = items (active r) @ added [ev]" by blast
  then show ?case
  proof cases
    case cl
    from split_drained [OF IH(2) so le cl(2)] cl(1) IH(1) show ?thesis
      by (simp add: drained_def)
  next
    case no
    have "drained (items (active r'))" using step(3)
    proof cases
      case (add x)
      have "ok_item x" using step(5) add by (simp add: good_run_snoc)
      from add_step [OF inv this add(2)] no(1) show ?thesis
        by (auto split: if_splits simp: flushes_def drained_def fits_def count_law size_law)
    qed (use no IH(2) step(5) in \<open>auto simp: good_run_snoc\<close>)
    with no IH(1) show ?thesis by simp
  qed
qed

lemma run_flush_drains:
  assumes "rrun cfg t evs outs r" "good_run evs" "sorted (map (i_deadline cfg) (added evs))"
    "reducer_flush cfg t r = (res, r')"
  shows "items (active r') = []"
proof -
  have d: "drained (items (active r))" "sorted (map (i_deadline cfg) (items (active r) @ []))"
    using run_fifo [OF assms(1-3)] assms(3) by (simp_all add: sorted_append)
  have f: "if items (active r) = [] then res = Inr None \<and> items (active r') = []
     else \<exists>cl. res = Inr (Some cl) \<and> ok cl \<and> split_of (items (active r)) = (items cl, items (active r'))"
    using flush_step [OF run_invariant [OF assms(1,2)] assms(4)] by blast
  show ?thesis
  proof (cases "items (active r) = []")
    case False
    with f obtain cl where "split_of (items (active r) @ []) = (items cl, items (active r'))" by auto
    from split_drained [OF d(1,2) _ this] show ?thesis by simp
  qed (use f in simp)
qed

text \<open>A buffered item is never without a timer that is due by its deadline, and that timer closes
  a batch of the most urgent items.\<close>

lemma run_timer:
  assumes "rrun cfg t evs outs r" "good_run evs" "x \<in> set (items (active r))"
  shows "\<exists>s w. timer_tasks r = [(s, w)] \<and> w \<le> max (Fin t) (i_deadline cfg x) \<and>
    (\<forall>t'\<ge>t. \<exists>cl r'. timer_task cfg t' s r = (Inr (Some cl), r') \<and> items cl \<noteq> [] \<and>
       (\<forall>y\<in>set (items cl). \<forall>z\<in>set (items (active r')). i_deadline cfg y \<le> i_deadline cfg z))"
proof -
  have inv: "invariant t r" by (rule run_invariant [OF assms(1,2)])
  then obtain s t0 where s: "t0 \<le> t"
      "timer_tasks r = [(s, wake_at t0 (pymin (map (i_deadline cfg) (items (active r)))))]"
    using assms(3) by (auto simp: invariant_def timer_on_def split: if_splits)
  have "pymin (map (i_deadline cfg) (items (active r))) \<le> i_deadline cfg x"
    using assms(3) by (auto intro: pymin_le)
  then have w: "wake_at t0 (pymin (map (i_deadline cfg) (items (active r)))) \<le> max (Fin t) (i_deadline cfg x)"
    by (rule wake_at_le [OF s(1)])
  have "\<exists>cl r'. timer_task cfg t' s r = (Inr (Some cl), r') \<and> items cl \<noteq> [] \<and>
       (\<forall>y\<in>set (items cl). \<forall>z\<in>set (items (active r')). i_deadline cfg y \<le> i_deadline cfg z)"
    if "t \<le> t'" for t'
  proof -
    obtain res r' where tt: "timer_task cfg t' s r = (res, r')" by fastforce
    from wake_step [OF invariant_mono [OF inv that] _ tt] s(2) obtain cl where
      "res = Inr (Some cl)" "items (active r) \<noteq> []" "split_of (items (active r)) = (items cl, items (active r'))"
      by auto
    with tt split_of_nonempty [of "items (active r)"] split_of_sorted(2) [of "items (active r)"]
    show ?thesis by blast
  qed
  with s(2) w show ?thesis by blast
qed

end

end
