(* ===== verification/Outcome.thy ===== *)
theory Outcome
  imports Python_Str
begin

text \<open>
  Models of \<^verbatim>\<open>src/aiokpl/result.py\<close> (the attempt history and the terminal result of a record) and of
  \<^verbatim>\<open>src/aiokpl/outcome.py\<close> (a one-shot cell that is set once and read by any number of waiters).
  An \<open>Outcome\<close> is its event, its value and its exception; a waiter that is still blocked is
  \<open>None\<close>.
\<close>

section \<open>Results\<close>

record Attempt =
  started_at :: real
  ended_at :: real
  success :: bool
  a_shard_id :: "pystr option"
  a_sequence_number :: "pystr option"
  error_code :: "pystr option"
  error_message :: "pystr option"

record RecordResult =
  rr_success :: bool
  rr_shard_id :: "pystr option"
  rr_sequence_number :: "pystr option"
  rr_attempts :: "Attempt list"

text \<open>A failed attempt says why; a terminal result has a history: all its attempts but the last failed, it succeeded exactly when the last attempt
  did, and it names a shard and a sequence number only then, those of that attempt.\<close>

definition failed_try :: "Attempt \<Rightarrow> bool" where
  "failed_try a \<longleftrightarrow> \<not> success a \<and> a_shard_id a = None \<and> a_sequence_number a = None \<and> error_code a \<noteq> None \<and> error_message a \<noteq> None"

definition result_ok :: "RecordResult \<Rightarrow> bool" where
  "result_ok r \<longleftrightarrow> rr_attempts r \<noteq> [] \<and> list_all failed_try (butlast (rr_attempts r))
     \<and> (if rr_success r then success (last (rr_attempts r)) \<and> error_code (last (rr_attempts r)) = None
        else failed_try (last (rr_attempts r)))
     \<and> rr_shard_id r = a_shard_id (last (rr_attempts r)) \<and> rr_sequence_number r = a_sequence_number (last (rr_attempts r))"

section \<open>Outcomes\<close>

record 'a Outcome =
  event :: bool
  ovalue :: "'a option"
  exc :: "pyerr option"

definition outcome_init :: "'a Outcome" where
  "outcome_init = \<lparr>event = False, ovalue = None, exc = None\<rparr>"

definition is_set :: "'a Outcome \<Rightarrow> bool" where
  "is_set out = event out"

definition set_value :: "'a \<Rightarrow> 'a Outcome \<Rightarrow> pyerr + 'a Outcome" where
  "set_value v out =
     (if event out then Inl (RuntimeError ''Outcome already set'')
      else Inr (out\<lparr>ovalue := Some v, event := True\<rparr>))"

definition set_exception :: "pyerr \<Rightarrow> 'a Outcome \<Rightarrow> pyerr + 'a Outcome" where
  "set_exception e out =
     (if event out then Inl (RuntimeError ''Outcome already set'')
      else Inr (out\<lparr>exc := Some e, event := True\<rparr>))"

text \<open>The result of \<open>wait\<close>: \<open>None\<close> while it blocks, then the exception or the (cast) value.\<close>

definition wait :: "'a Outcome \<Rightarrow> (pyerr + 'a option) option" where
  "wait out =
     (if \<not> event out then None
      else Some (case exc out of Some e \<Rightarrow> Inl e | None \<Rightarrow> Inr (ovalue out)))"

text \<open>The states an outcome goes through: unset, then one value or one exception for good.\<close>

inductive outcome_reach :: "'a Outcome \<Rightarrow> 'a Outcome \<Rightarrow> bool" where
  unset: "outcome_reach out out"
| setv: "outcome_reach out a \<Longrightarrow> set_value v a = Inr b \<Longrightarrow> outcome_reach out b"
| sete: "outcome_reach out a \<Longrightarrow> set_exception e a = Inr b \<Longrightarrow> outcome_reach out b"

lemma outcome_set_final: "outcome_reach out a \<Longrightarrow> event out \<Longrightarrow> a = out"
  by (induction rule: outcome_reach.induct) (auto simp: set_value_def set_exception_def)

lemma outcome_reach_wait:
  "outcome_reach out a \<Longrightarrow> out = outcome_init \<Longrightarrow>
   a = outcome_init \<or> (\<exists>v. a = \<lparr>event = True, ovalue = Some v, exc = None\<rparr>)
     \<or> (\<exists>e. a = \<lparr>event = True, ovalue = None, exc = Some e\<rparr>)"
  by (induction rule: outcome_reach.induct)
    (auto simp: set_value_def set_exception_def outcome_init_def split: if_splits)

text \<open>An outcome is one-shot: whatever calls were made on a fresh outcome, once it is set every
  further \<open>set_value\<close> and \<open>set_exception\<close> raises \<open>RuntimeError\<close> and changes nothing, and every later
  \<open>wait\<close> returns without blocking, with the value or the exception of the one call that set it;
  the value is present whenever no exception is (the cast in \<open>wait\<close> is safe).\<close>

theorem outcome_one_shot:
  assumes "outcome_reach outcome_init a" "is_set a"
  shows "set_value v a = Inl (RuntimeError ''Outcome already set'')
    \<and> set_exception e a = Inl (RuntimeError ''Outcome already set'')
    \<and> (\<forall>b. outcome_reach a b \<longrightarrow> wait b = wait a)
    \<and> ((\<exists>x. wait a = Some (Inr (Some x))) \<or> (\<exists>x. wait a = Some (Inl x)))"
proof -
  have ev: "event a" using assms(2) by (simp add: is_set_def)
  then have "\<forall>b. outcome_reach a b \<longrightarrow> wait b = wait a" using outcome_set_final by blast
  moreover have "(\<exists>x. wait a = Some (Inr (Some x))) \<or> (\<exists>x. wait a = Some (Inl x))"
    using outcome_reach_wait [OF assms(1)] ev by (auto simp: wait_def outcome_init_def)
  ultimately show ?thesis using ev by (simp add: set_value_def set_exception_def)
qed

theorem outcome_one_shot_witness:
  "set_value (8 :: nat) \<lparr>event = True, ovalue = Some 7, exc = None\<rparr>
     = Inl (RuntimeError ''Outcome already set'')"
proof -
  have "outcome_reach outcome_init \<lparr>event = True, ovalue = Some (7 :: nat), exc = None\<rparr>"
    by (rule outcome_reach.setv [OF outcome_reach.unset, where v = 7])
      (simp add: set_value_def outcome_init_def)
  from outcome_one_shot [OF this, of 8] show ?thesis by (simp add: is_set_def)
qed

end
