(* ===== verification/Aggregator.thy ===== *)
theory Aggregator
  imports Hashing Aggregation_Roundtrip Reducer Outcome Metrics
begin

text \<open>
  Model of \<^verbatim>\<open>src/aiokpl/aggregator.py\<close>.  \<open>AggregatedBatch\<close> keeps its running size estimate and its two
  sets of keys, as the class does; \<open>agg_add\<close> returns the exception of a failing \<open>encode\<close> beside the
  batch as it is at that moment (the key is already in the set, the item is not in the list).  The
  batch is shown to satisfy the \<open>Batch\<close> protocol (an interpretation of \<open>batch_container\<close>), with the
  size a function of the items alone.  The \<open>Aggregator\<close> is its dictionary of reducers; a record is
  built and routed by \<open>build_buffered\<close> and \<open>put_buffered\<close>, given the reading of the shard map.
\<close>

section \<open>Buffered records and batches\<close>

definition RECORD_FRAMING :: nat where "RECORD_FRAMING = 3"
definition FIELD_FRAMING :: nat where "FIELD_FRAMING = 3"
definition INDEX_REFERENCE :: nat where "INDEX_REFERENCE = 2"

text \<open>\<open>obj\<close> is the identity of the object (what \<open>id()\<close> gives in the producer).\<close>

record BufferedRecord =
  obj :: nat
  user_record :: UserRecord
  deadline :: pyfloat
  hash_key :: int
  arrival_time :: real
  attempts :: "Attempt list"

record AggregatedBatch =
  predicted_shard :: "int option"
  ab_items :: "BufferedRecord list"
  size_estimate :: nat
  pk_set :: "pystr set"
  ehk_set :: "pystr set"

definition new_batch :: "int option \<Rightarrow> AggregatedBatch" where
  "new_batch shard = \<lparr>predicted_shard = shard, ab_items = [], size_estimate = 0, pk_set = {}, ehk_set = {}\<rparr>"

text \<open>A key joins its set before it is encoded for its length.\<close>

definition add_key :: "pystr \<Rightarrow> pystr set \<Rightarrow> (pyerr + nat) \<times> pystr set" where
  "add_key k ks =
     (if k \<in> ks then (Inr 0, ks)
      else (ebind (utf8_encode k) (\<lambda>bs. Inr (length bs + FIELD_FRAMING)), insert k ks))"

definition agg_add :: "AggregatedBatch \<Rightarrow> BufferedRecord \<Rightarrow> pyerr option \<times> AggregatedBatch" where
  "agg_add b item =
     (let ur = user_record item;
          delta = RECORD_FRAMING + length (data ur) + FIELD_FRAMING + INDEX_REFERENCE in
      case add_key (partition_key ur) (pk_set b) of
        (Inl e, pks) \<Rightarrow> (Some e, b\<lparr>pk_set := pks\<rparr>)
      | (Inr d1, pks) \<Rightarrow>
          let b = b\<lparr>pk_set := pks\<rparr> in
          (case (case explicit_hash_key ur of None \<Rightarrow> (Inr 0, ehk_set b) | Some k \<Rightarrow> add_key k (ehk_set b)) of
             (Inl e, ehks) \<Rightarrow> (Some e, b\<lparr>ehk_set := ehks\<rparr>)
           | (Inr d2, ehks) \<Rightarrow>
               (None, b\<lparr>ehk_set := ehks, ab_items := ab_items b @ [item],
                        size_estimate := size_estimate b + (delta + d1 + d2)\<rparr>)))"

fun agg_add_list :: "AggregatedBatch \<Rightarrow> BufferedRecord list \<Rightarrow> pyerr option \<times> AggregatedBatch" where
  "agg_add_list b [] = (None, b)"
| "agg_add_list b (x # xs) =
     (case agg_add b x of (Some e, b') \<Rightarrow> (Some e, b') | (None, b') \<Rightarrow> agg_add_list b' xs)"

definition agg_remove_last :: "AggregatedBatch \<Rightarrow> pyerr + BufferedRecord \<times> AggregatedBatch" where
  "agg_remove_last b =
     (if ab_items b = [] then Inl IndexError
      else let item = last (ab_items b); kept = butlast (ab_items b) in
        case agg_add_list (b\<lparr>ab_items := [], pk_set := {}, ehk_set := {}, size_estimate := 0\<rparr>) kept of
          (Some e, _) \<Rightarrow> Inl e
        | (None, b') \<Rightarrow> Inr (item, b'))"

definition agg_deadline :: "AggregatedBatch \<Rightarrow> pyfloat" where
  "agg_deadline b = (if ab_items b = [] then PInf else pymin (map deadline (ab_items b)))"

definition to_blob :: "AggregatedBatch \<Rightarrow> pyerr + byte list" where
  "to_blob b = encode_aggregated (map user_record (ab_items b))"

definition routing_partition_key :: "AggregatedBatch \<Rightarrow> pyerr + pystr" where
  "routing_partition_key b =
     (case ab_items b of
        [] \<Rightarrow> Inl IndexError
      | x # xs \<Rightarrow> Inr (if xs \<noteq> [] then lit ''a'' else partition_key (user_record x)))"

definition routing_explicit_hash_key :: "AggregatedBatch \<Rightarrow> pyerr + pystr option" where
  "routing_explicit_hash_key b =
     (case ab_items b of
        [] \<Rightarrow> Inl IndexError
      | x # xs \<Rightarrow> Inr (if xs \<noteq> [] then Some (str_of_int (hash_key x))
                   else explicit_hash_key (user_record x)))"

section \<open>The batch as a container of the reducer\<close>

definition agg_cfg :: "int option \<Rightarrow> nat \<Rightarrow> nat \<Rightarrow> (BufferedRecord, AggregatedBatch) reducer_cfg" where
  "agg_cfg shard max_count max_size =
     \<lparr>batch_factory = new_batch shard, b_add = agg_add, b_remove_last = agg_remove_last,
      b_items = ab_items, b_count = (\<lambda>b. length (ab_items b)), b_size = size_estimate,
      b_deadline = agg_deadline, i_deadline = deadline, count_limit = max_count,
      size_limit = max_size, flush_predicate = None\<rparr>"

lemma agg_cfg_sel [simp]:
  "batch_factory (agg_cfg p c s) = new_batch p" "b_add (agg_cfg p c s) = agg_add"
  "b_remove_last (agg_cfg p c s) = agg_remove_last" "b_items (agg_cfg p c s) = ab_items"
  "b_count (agg_cfg p c s) = (\<lambda>b. length (ab_items b))" "b_size (agg_cfg p c s) = size_estimate"
  "b_deadline (agg_cfg p c s) = agg_deadline" "i_deadline (agg_cfg p c s) = deadline"
  "count_limit (agg_cfg p c s) = c" "size_limit (agg_cfg p c s) = s"
  "flush_predicate (agg_cfg p c s) = None"
  by (simp_all add: agg_cfg_def)

definition pk_of :: "BufferedRecord \<Rightarrow> pystr" where
  "pk_of x = partition_key (user_record x)"

definition ehks_of :: "BufferedRecord \<Rightarrow> pystr set" where
  "ehks_of x = set_option (explicit_hash_key (user_record x))"

text \<open>The reference size: framing and payload of every record, and every distinct key once.\<close>

definition key_cost :: "pystr \<Rightarrow> nat" where
  "key_cost k = (case utf8_encode k of Inl _ \<Rightarrow> 0 | Inr bs \<Rightarrow> length bs + 3)"

definition agg_size :: "BufferedRecord list \<Rightarrow> nat" where
  "agg_size xs = (\<Sum>x\<leftarrow>xs. length (data (user_record x)) + 8)
     + (\<Sum>k\<in>pk_of ` set xs. key_cost k) + (\<Sum>k\<in>\<Union> (ehks_of ` set xs). key_cost k)"

definition encodable :: "BufferedRecord \<Rightarrow> bool" where
  "encodable x \<longleftrightarrow> (\<forall>k\<in>insert (pk_of x) (ehks_of x). \<forall>c\<in>set k. scalar c)"

definition agg_ok :: "int option \<Rightarrow> AggregatedBatch \<Rightarrow> bool" where
  "agg_ok shard b \<longleftrightarrow> predicted_shard b = shard \<and> (\<forall>x\<in>set (ab_items b). encodable x) \<and>
     pk_set b = pk_of ` set (ab_items b) \<and> ehk_set b = \<Union> (ehks_of ` set (ab_items b)) \<and>
     size_estimate b = agg_size (ab_items b)"

lemma agg_size_Nil [simp]: "agg_size [] = 0"
  by (simp add: agg_size_def)

lemma sum_insert_new:
  "finite A \<Longrightarrow> (\<Sum>k\<in>insert x A. f k) = (\<Sum>k\<in>A. f k) + (if x \<in> A then 0 else (f x :: nat))"
  by (simp add: insert_absorb)

lemma finite_ehks_of [simp]: "finite (ehks_of x)"
  by (simp add: ehks_of_def)

lemma agg_size_snoc:
  "agg_size (xs @ [x]) = agg_size xs + length (data (user_record x)) + 8
     + (if pk_of x \<in> pk_of ` set xs then 0 else key_cost (pk_of x))
     + (case explicit_hash_key (user_record x) of None \<Rightarrow> 0
        | Some k \<Rightarrow> if k \<in> \<Union> (ehks_of ` set xs) then 0 else key_cost k)"
  by (auto simp: agg_size_def sum_insert_new ehks_of_def split: option.splits)

lemma add_key_scalar:
  "\<forall>c\<in>set k. scalar c \<Longrightarrow> add_key k ks = (Inr (if k \<in> ks then 0 else key_cost k), insert k ks)"
  using utf8_encode_Inr_iff [of k] by (auto simp: add_key_def key_cost_def FIELD_FRAMING_def)

lemma agg_add_ok:
  assumes "agg_ok p b" "encodable x"
  shows "\<exists>b'. agg_add b x = (None, b') \<and> agg_ok p b' \<and> ab_items b' = ab_items b @ [x]"
proof -
  have pk: "\<forall>c\<in>set (pk_of x). scalar c" and ehk: "\<And>k. explicit_hash_key (user_record x) = Some k \<Longrightarrow> \<forall>c\<in>set k. scalar c"
    using assms(2) by (auto simp: encodable_def ehks_of_def)
  show ?thesis
    using assms add_key_scalar [OF pk] add_key_scalar [OF ehk]
    by (cases "explicit_hash_key (user_record x)")
      (auto simp: agg_add_def agg_ok_def agg_size_snoc pk_of_def ehks_of_def Let_def
        RECORD_FRAMING_def FIELD_FRAMING_def INDEX_REFERENCE_def)
qed

lemma agg_add_list_ok:
  "agg_ok p b \<Longrightarrow> \<forall>x\<in>set xs. encodable x \<Longrightarrow>
   \<exists>b'. agg_add_list b xs = (None, b') \<and> agg_ok p b' \<and> ab_items b' = ab_items b @ xs"
proof (induction xs arbitrary: b)
  case (Cons x xs)
  then obtain b' where "agg_add b x = (None, b')" "agg_ok p b'" "ab_items b' = ab_items b @ [x]"
    using agg_add_ok by (metis list.set_intros(1))
  with Cons.IH [of b'] Cons.prems show ?case by auto
qed simp

lemma agg_remove_last_ok:
  assumes "agg_ok p b" "ab_items b = xs @ [x]"
  shows "\<exists>b'. agg_remove_last b = Inr (x, b') \<and> agg_ok p b' \<and> ab_items b' = xs"
proof -
  have "agg_ok p (b\<lparr>ab_items := [], pk_set := {}, ehk_set := {}, size_estimate := 0\<rparr>)"
    using assms(1) by (simp add: agg_ok_def)
  from agg_add_list_ok [OF this, of xs] assms show ?thesis
    by (auto simp: agg_remove_last_def agg_ok_def)
qed

interpretation agg: batch_container "agg_cfg shard max_count max_size" "agg_ok shard" encodable agg_size
  for shard max_count max_size
proof unfold_locales
  show "agg_size xs \<le> agg_size (xs @ [x])" for xs x by (simp add: agg_size_snoc)
qed (use agg_add_ok agg_remove_last_ok in
    \<open>auto simp: agg_ok_def new_batch_def agg_deadline_def\<close>)

section \<open>The aggregator\<close>

record aggregator_cfg =
  buffered_time :: real
  max_count :: nat
  max_size :: nat
  ag_metrics :: bool
  ag_stream :: "pystr option"

definition aggregator_cfg_of :: "bool \<Rightarrow> real \<Rightarrow> nat \<Rightarrow> nat \<Rightarrow> bool \<Rightarrow> pystr option \<Rightarrow> aggregator_cfg" where
  "aggregator_cfg_of aggregation_enabled record_max_buffered_time_ms aggregation_max_count
       aggregation_max_size metrics stream_name =
     \<lparr>buffered_time = record_max_buffered_time_ms / 1000,
      max_count = (if aggregation_enabled then aggregation_max_count else 1),
      max_size = aggregation_max_size, ag_metrics = metrics, ag_stream = stream_name\<rparr>"

text \<open>\<open>ag_tg\<close> says whether the aggregator's task group exists, that is, whether it was entered.\<close>

record aggregator =
  reducers :: "(int option \<times> AggregatedBatch reducer) list"
  ag_closed :: bool
  ag_tg :: bool

definition aggregator_init :: aggregator where
  "aggregator_init = \<lparr>reducers = [], ag_closed = False, ag_tg = False\<rparr>"

definition agg_aenter :: "aggregator \<Rightarrow> aggregator" where
  "agg_aenter ag = ag\<lparr>ag_tg := True\<rparr>"

text \<open>Dropping the reducers: each is closed, its timer cancelled and its items lost.\<close>

definition agg_aclose :: "aggregator_cfg \<Rightarrow> aggregator
    \<Rightarrow> (int option \<times> AggregatedBatch reducer) list \<times> aggregator" where
  "agg_aclose cfg ag =
     (map (\<lambda>(p, r). (p, reducer_aclose (agg_cfg p (max_count cfg) (max_size cfg)) r)) (reducers ag),
      ag\<lparr>ag_closed := True, reducers := []\<rparr>)"

definition agg_aexit :: "aggregator_cfg \<Rightarrow> aggregator \<Rightarrow> pyerr + aggregator" where
  "agg_aexit cfg ag =
     (let ag = snd (agg_aclose cfg ag) in
      if \<not> ag_tg ag then Inl AssertionError else Inr (ag\<lparr>ag_tg := False\<rparr>))"

definition build_buffered :: "aggregator_cfg \<Rightarrow> real \<Rightarrow> nat \<Rightarrow> UserRecord
    \<Rightarrow> pyerr + BufferedRecord \<times> metric_call list" where
  "build_buffered cfg now oid ur =
     ebind (case explicit_hash_key ur of
              Some k \<Rightarrow> parse_explicit_hash_key k
            | None \<Rightarrow> md5_hash_key (partition_key ur))
       (\<lambda>h. Inr (\<lparr>obj = oid, user_record = ur, deadline = Fin (now + buffered_time cfg), hash_key = h,
                  arrival_time = now, attempts = []\<rparr>,
          if ag_metrics cfg then [MetricPut NAME_USER_RECORDS_RECEIVED 1 (ag_stream cfg) None None] else []))"

definition get_or_create_reducer :: "aggregator_cfg \<Rightarrow> int option \<Rightarrow> aggregator
    \<Rightarrow> pyerr + AggregatedBatch reducer \<times> aggregator" where
  "get_or_create_reducer cfg predicted ag =
     (case dict_get (reducers ag) predicted of
        Some r \<Rightarrow> Inr (r, ag)
      | None \<Rightarrow>
          if \<not> ag_tg ag then Inl (RuntimeError ''Aggregator must be used as an async context manager'')
          else let r = reducer_init (agg_cfg predicted (max_count cfg) (max_size cfg)) in
            Inr (r, ag\<lparr>reducers := dict_set predicted r (reducers ag)\<rparr>))"

text \<open>What the aggregator asks of the shard map: is it \<open>READY\<close>, and its prediction.\<close>

definition predicted_of :: "bool \<Rightarrow> (int \<Rightarrow> int option) \<Rightarrow> BufferedRecord \<Rightarrow> int option" where
  "predicted_of ready predict x = (if ready then predict (hash_key x) else None)"

definition put_buffered :: "aggregator_cfg \<Rightarrow> real \<Rightarrow> bool \<Rightarrow> (int \<Rightarrow> int option) \<Rightarrow> BufferedRecord
    \<Rightarrow> aggregator \<Rightarrow> (pyerr + AggregatedBatch option) \<times> aggregator" where
  "put_buffered cfg now ready predict x ag =
     (let p = predicted_of ready predict x in
      case get_or_create_reducer cfg p ag of
        Inl e \<Rightarrow> (Inl e, ag)
      | Inr (r, ag) \<Rightarrow>
          (case reducer_add (agg_cfg p (max_count cfg) (max_size cfg)) now x r of
             (out, r) \<Rightarrow> (out, ag\<lparr>reducers := dict_set p r (reducers ag)\<rparr>)))"

text \<open>\<open>submit\<close> (and \<open>put\<close>, which drops the handle): build, then route.\<close>

definition submit :: "aggregator_cfg \<Rightarrow> real \<Rightarrow> real \<Rightarrow> nat \<Rightarrow> bool \<Rightarrow> (int \<Rightarrow> int option) \<Rightarrow> UserRecord
    \<Rightarrow> aggregator \<Rightarrow> (pyerr + BufferedRecord \<times> AggregatedBatch option) \<times> metric_call list \<times> aggregator" where
  "submit cfg now now2 oid ready predict ur ag =
     (case build_buffered cfg now oid ur of
        Inl e \<Rightarrow> (Inl e, [], ag)
      | Inr (x, ms) \<Rightarrow>
          (case put_buffered cfg now2 ready predict x ag of
             (Inl e, ag) \<Rightarrow> (Inl e, ms, ag)
           | (Inr out, ag) \<Rightarrow> (Inr (x, out), ms, ag)))"

text \<open>A timer of one of the reducers fires.\<close>

definition agg_timer :: "aggregator_cfg \<Rightarrow> real \<Rightarrow> int option \<Rightarrow> nat \<Rightarrow> aggregator
    \<Rightarrow> (pyerr + AggregatedBatch option) \<times> aggregator" where
  "agg_timer cfg now p scope ag =
     (case dict_get (reducers ag) p of
        None \<Rightarrow> (Inr None, ag)
      | Some r \<Rightarrow>
          (case timer_task (agg_cfg p (max_count cfg) (max_size cfg)) now scope r of
             (out, r) \<Rightarrow> (out, ag\<lparr>reducers := dict_set p r (reducers ag)\<rparr>)))"

definition agg_flush_one :: "aggregator_cfg \<Rightarrow> real \<Rightarrow> int option \<Rightarrow> aggregator
    \<Rightarrow> (pyerr + AggregatedBatch option) \<times> aggregator" where
  "agg_flush_one cfg now p ag =
     (case dict_get (reducers ag) p of
        None \<Rightarrow> (Inr None, ag)
      | Some r \<Rightarrow>
          (case reducer_flush (agg_cfg p (max_count cfg) (max_size cfg)) now r of
             (out, r) \<Rightarrow> (out, ag\<lparr>reducers := dict_set p r (reducers ag)\<rparr>)))"

text \<open>The loop of \<open>flush\<close> over the snapshot of the dictionary: the batches handed over so far, and
  the exception that ended it if there was one.\<close>

fun agg_flush_loop :: "aggregator_cfg \<Rightarrow> real \<Rightarrow> int option list \<Rightarrow> aggregator
    \<Rightarrow> AggregatedBatch list \<times> pyerr option \<times> aggregator" where
  "agg_flush_loop cfg now [] ag = ([], None, ag)"
| "agg_flush_loop cfg now (p # ps) ag =
     (case agg_flush_one cfg now p ag of
        (Inl e, ag) \<Rightarrow> ([], Some e, ag)
      | (Inr out, ag) \<Rightarrow>
          (case agg_flush_loop cfg now ps ag of (bs, e, ag) \<Rightarrow> (emitted (Inr out) @ bs, e, ag)))"

definition agg_flush :: "aggregator_cfg \<Rightarrow> real \<Rightarrow> aggregator
    \<Rightarrow> AggregatedBatch list \<times> pyerr option \<times> aggregator" where
  "agg_flush cfg now ag = agg_flush_loop cfg now (map fst (reducers ag)) ag"

section \<open>Routing: nothing is lost, and shards never mix\<close>

text \<open>A run of an entered aggregator.  The history records, for every record that was put, the shard
  it was predicted to go to at that moment.\<close>

inductive arun :: "aggregator_cfg \<Rightarrow> real \<Rightarrow> (int option \<times> BufferedRecord) list \<Rightarrow> AggregatedBatch list
    \<Rightarrow> aggregator \<Rightarrow> bool" for cfg where
  enter: "arun cfg t [] [] (agg_aenter aggregator_init)"
| put: "arun cfg t h outs ag \<Longrightarrow> t \<le> t' \<Longrightarrow> encodable x \<Longrightarrow> put_buffered cfg t' ready predict x ag = (out, ag') \<Longrightarrow>
     arun cfg t' (h @ [(predicted_of ready predict x, x)]) (outs @ emitted out) ag'"
| flush: "arun cfg t h outs ag \<Longrightarrow> t \<le> t' \<Longrightarrow> agg_flush_one cfg t' p ag = (out, ag') \<Longrightarrow>
     arun cfg t' h (outs @ emitted out) ag'"
| wake: "arun cfg t h outs ag \<Longrightarrow> t \<le> t' \<Longrightarrow> dict_get (reducers ag) p = Some r \<Longrightarrow>
     (s, w) \<in> set (timer_tasks r) \<Longrightarrow> w \<le> Fin t' \<Longrightarrow> agg_timer cfg t' p s ag = (out, ag') \<Longrightarrow>
     arun cfg t' h (outs @ emitted out) ag'"

definition held_by :: "int option \<times> AggregatedBatch reducer \<Rightarrow> (int option \<times> BufferedRecord) list" where
  "held_by pr = map (Pair (fst pr)) (ab_items (active (snd pr)))"

definition held :: "aggregator \<Rightarrow> (int option \<times> BufferedRecord) list" where
  "held ag = concat (map held_by (reducers ag))"

definition sent :: "AggregatedBatch list \<Rightarrow> (int option \<times> BufferedRecord) list" where
  "sent outs = concat (map (\<lambda>b. map (Pair (predicted_shard b)) (ab_items b)) outs)"

lemma sent_append [simp]: "sent (xs @ ys) = sent xs @ sent ys" "sent [] = []"
  by (simp_all add: sent_def)

abbreviation red_inv :: "aggregator_cfg \<Rightarrow> real \<Rightarrow> int option \<Rightarrow> AggregatedBatch reducer \<Rightarrow> bool" where
  "red_inv cfg now p r \<equiv> agg.invariant p (max_count cfg) (max_size cfg) now r"

definition ag_inv :: "aggregator_cfg \<Rightarrow> real \<Rightarrow> aggregator \<Rightarrow> bool" where
  "ag_inv cfg now ag \<longleftrightarrow> dict_ok (reducers ag) \<and> ag_tg ag \<and> (\<forall>(p, r)\<in>set (reducers ag). red_inv cfg now p r)"

lemma held_dict_set:
  "dict_get d p = Some r \<Longrightarrow>
   mset (concat (map held_by (dict_set p r' d))) + mset (held_by (p, r)) =
   mset (concat (map held_by d)) + mset (held_by (p, r'))"
  by (induction d) (auto simp: add_ac)

lemma ag_inv_mono: "ag_inv cfg t ag \<Longrightarrow> t \<le> t' \<Longrightarrow> ag_inv cfg t' ag"
  using agg.invariant_mono by (fastforce simp: ag_inv_def)

lemma ag_inv_get: "ag_inv cfg t ag \<Longrightarrow> dict_get (reducers ag) p = Some r \<Longrightarrow> red_inv cfg t p r"
  by (auto simp: ag_inv_def dest!: map_of_SomeD)

lemma ag_inv_set:
  assumes "ag_inv cfg t ag" "red_inv cfg t p r"
  shows "ag_inv cfg t (ag\<lparr>reducers := dict_set p r (reducers ag)\<rparr>)"
proof -
  have "set (dict_set p r d) \<subseteq> insert (p, r) (set d)" for d
    by (induction d) auto
  with assms show ?thesis by (fastforce simp: ag_inv_def)
qed

lemma get_or_create_ok:
  assumes "ag_inv cfg t ag"
  shows "\<exists>r ag'. get_or_create_reducer cfg p ag = Inr (r, ag') \<and> ag_inv cfg t ag' \<and>
    dict_get (reducers ag') p = Some r \<and> held ag' = held ag"
proof (cases "dict_get (reducers ag) p")
  case None
  let ?r = "reducer_init (agg_cfg p (max_count cfg) (max_size cfg))"
  let ?ag = "ag\<lparr>reducers := dict_set p ?r (reducers ag)\<rparr>"
  have "ag_tg ag" using assms by (simp add: ag_inv_def)
  moreover have "held ?ag = held ag"
    using None by (simp add: held_def held_by_def dict_set_fresh reducer_init_def new_batch_def)
  moreover have "ag_inv cfg t ?ag" by (rule ag_inv_set [OF assms agg.invariant_init])
  ultimately show ?thesis using None by (simp add: get_or_create_reducer_def Let_def)
qed (use assms in \<open>simp add: get_or_create_reducer_def\<close>)

text \<open>What a batch that is handed on looks like: not empty, in deadline order, its bookkeeping right,
  and within both limits unless it is a single record.\<close>

definition good_batch :: "aggregator_cfg \<Rightarrow> AggregatedBatch \<Rightarrow> bool" where
  "good_batch cfg b \<longleftrightarrow> ab_items b \<noteq> [] \<and> agg_ok (predicted_shard b) b \<and>
     sorted (map deadline (ab_items b)) \<and>
     (length (ab_items b) \<le> max_count cfg \<and> size_estimate b \<le> max_size cfg \<or> length (ab_items b) = 1)"

text \<open>What a step of one reducer does to the whole: \<open>xs\<close> are the records that came in.\<close>

definition moves :: "aggregator_cfg \<Rightarrow> int option \<Rightarrow> BufferedRecord list \<Rightarrow> AggregatedBatch reducer
    \<Rightarrow> pyerr + AggregatedBatch option \<Rightarrow> AggregatedBatch reducer \<Rightarrow> bool" where
  "moves cfg p xs r out r' \<longleftrightarrow> (\<forall>e. out \<noteq> Inl e) \<and> (\<forall>b\<in>set (emitted out). good_batch cfg b) \<and>
     mset (sent (emitted out)) + mset (held_by (p, r')) = mset (held_by (p, r)) + mset (map (Pair p) xs)"

lemma moves_None: "ab_items (active r') = ab_items (active r) @ xs \<Longrightarrow> moves cfg p xs r (Inr None) r'"
  by (simp add: moves_def held_by_def)

lemma moves_Some:
  assumes "agg_ok p cl" "ab_items (active r) @ xs \<noteq> []"
    and sp: "agg.split_of p (max_count cfg) (max_size cfg) (ab_items (active r) @ xs)
      = (ab_items cl, ab_items (active r'))"
  shows "moves cfg p xs r (Inr (Some cl)) r'"
proof -
  have "image_mset (Pair p) (mset (ab_items (active r) @ xs)) =
      image_mset (Pair p) (mset (ab_items cl) + mset (ab_items (active r')))"
    using agg.split_of_mset [OF sp] by simp
  moreover have "good_batch cfg cl"
    using assms(1) agg.split_of_nonempty [OF sp assms(2)] agg.split_of_fits [OF sp assms(2)]
      agg.split_of_sorted(1) [OF sp]
    by (auto simp: good_batch_def agg.fits_def agg_ok_def)
  ultimately show ?thesis using assms(1) by (simp add: moves_def held_by_def sent_def agg_ok_def)
qed

lemmas moves_Some_nil = moves_Some [where xs = "[]", unfolded append_Nil2]

lemma mset_transfer:
  assumes "A + R = D + R'" "E + R' = R + X"
  shows "E + A = D + (X :: 'z multiset)"
proof -
  have "(E + A) + R = E + (A + R)" by (simp only: add.assoc)
  also have "\<dots> = D + (E + R')" by (simp only: assms(1) add.left_commute)
  also have "\<dots> = (D + X) + R" by (simp only: assms(2) add_ac)
  finally show ?thesis by (rule add_right_imp_eq)
qed

lemma moves_set:
  assumes "ag_inv cfg t ag" "dict_get (reducers ag) p = Some r" "moves cfg p xs r out r'" "red_inv cfg t p r'"
  shows "ag_inv cfg t (ag\<lparr>reducers := dict_set p r' (reducers ag)\<rparr>)"
    and "mset (sent (emitted out)) + mset (held (ag\<lparr>reducers := dict_set p r' (reducers ag)\<rparr>)) =
      mset (held ag) + mset (map (Pair p) xs)"
proof -
  show "ag_inv cfg t (ag\<lparr>reducers := dict_set p r' (reducers ag)\<rparr>)"
    by (rule ag_inv_set [OF assms(1,4)])
  let ?d = "reducers ag"
  have "mset (concat (map held_by (dict_set p r' ?d))) + mset (held_by (p, r)) =
      mset (concat (map held_by ?d)) + mset (held_by (p, r'))"
    by (rule held_dict_set [OF assms(2)])
  moreover have "mset (sent (emitted out)) + mset (held_by (p, r')) = mset (held_by (p, r)) + mset (map (Pair p) xs)"
    using assms(3) by (simp add: moves_def)
  ultimately have "mset (sent (emitted out)) + mset (concat (map held_by (dict_set p r' ?d)))
      = mset (concat (map held_by ?d)) + mset (map (Pair p) xs)"
    by (rule mset_transfer)
  then show "mset (sent (emitted out)) + mset (held (ag\<lparr>reducers := dict_set p r' (reducers ag)\<rparr>)) =
      mset (held ag) + mset (map (Pair p) xs)"
    by (simp add: held_def)
qed

lemma put_buffered_step:
  assumes "ag_inv cfg t ag" "encodable x" "put_buffered cfg t ready predict x ag = (out, ag')"
  shows "ag_inv cfg t ag' \<and> (\<forall>e. out \<noteq> Inl e) \<and> (\<forall>b\<in>set (emitted out). good_batch cfg b) \<and>
    mset (sent (emitted out)) + mset (held ag') = mset (held ag) + {#(predicted_of ready predict x, x)#}"
proof -
  let ?p = "predicted_of ready predict x"
  obtain r ag1 where g: "get_or_create_reducer cfg ?p ag = Inr (r, ag1)" "ag_inv cfg t ag1"
      "dict_get (reducers ag1) ?p = Some r" "held ag1 = held ag"
    using get_or_create_ok [OF assms(1)] by blast
  obtain r' where add: "reducer_add (agg_cfg ?p (max_count cfg) (max_size cfg)) t x r = (out, r')"
      "ag' = ag1\<lparr>reducers := dict_set ?p r' (reducers ag1)\<rparr>"
    using assms(3) g(1) by (auto simp: put_buffered_def Let_def split: prod.splits)
  from agg.add_step [OF ag_inv_get [OF g(2,3)] assms(2) add(1)]
  have inv: "red_inv cfg t ?p r'" and mv: "moves cfg ?p [x] r out r'"
    by (auto split: if_splits intro: moves_Some moves_Some_nil moves_None)
  from moves_set [OF g(2,3) mv inv] add(2) g(4) mv show ?thesis by (simp add: moves_def)
qed

lemma agg_flush_one_step:
  assumes "ag_inv cfg t ag" "agg_flush_one cfg t p ag = (out, ag')"
  shows "ag_inv cfg t ag' \<and> (\<forall>e. out \<noteq> Inl e) \<and> (\<forall>b\<in>set (emitted out). good_batch cfg b) \<and> mset (sent (emitted out)) + mset (held ag') = mset (held ag)"
proof (cases "dict_get (reducers ag) p")
  case (Some r)
  obtain r' where fl: "reducer_flush (agg_cfg p (max_count cfg) (max_size cfg)) t r = (out, r')"
      "ag' = ag\<lparr>reducers := dict_set p r' (reducers ag)\<rparr>"
    using assms(2) Some by (auto simp: agg_flush_one_def split: prod.splits)
  from agg.flush_step [OF ag_inv_get [OF assms(1) Some] fl(1)]
  have inv: "red_inv cfg t p r'" and mv: "moves cfg p [] r out r'"
    by (auto split: if_splits intro: moves_Some moves_Some_nil moves_None)
  from moves_set [OF assms(1) Some mv inv] fl(2) mv show ?thesis by (simp add: moves_def)
qed (use assms in \<open>auto simp: agg_flush_one_def\<close>)

lemma agg_timer_step:
  assumes "ag_inv cfg t ag" "dict_get (reducers ag) p = Some r" "(s, w) \<in> set (timer_tasks r)"
    "agg_timer cfg t p s ag = (out, ag')"
  shows "ag_inv cfg t ag' \<and> (\<forall>e. out \<noteq> Inl e) \<and> (\<forall>b\<in>set (emitted out). good_batch cfg b) \<and> mset (sent (emitted out)) + mset (held ag') = mset (held ag)"
proof -
  obtain r' where tt: "timer_task (agg_cfg p (max_count cfg) (max_size cfg)) t s r = (out, r')"
      "ag' = ag\<lparr>reducers := dict_set p r' (reducers ag)\<rparr>"
    using assms(2,4) by (auto simp: agg_timer_def split: prod.splits)
  from agg.wake_step [OF ag_inv_get [OF assms(1,2)] assms(3) tt(1)]
  have inv: "red_inv cfg t p r'" and mv: "moves cfg p [] r out r'"
    by (auto intro: moves_Some_nil)
  from moves_set [OF assms(1,2) mv inv] tt(2) mv show ?thesis by (simp add: moves_def)
qed

lemma arun_accounts:
  "arun cfg t h outs ag \<Longrightarrow>
   ag_inv cfg t ag \<and> (\<forall>b\<in>set outs. good_batch cfg b) \<and> mset h = mset (sent outs) + mset (held ag)"
proof (induction rule: arun.induct)
  case (enter t)
  then show ?case by (simp add: agg_aenter_def aggregator_init_def ag_inv_def held_def)
next
  case (put t h outs ag t' x ready predict out ag')
  then have "ag_inv cfg t' ag" using ag_inv_mono by blast
  from put_buffered_step [OF this put(3,4)] put.IH show ?case by (auto simp: add.assoc)
next
  case (flush t h outs ag t' p out ag')
  then have "ag_inv cfg t' ag" using ag_inv_mono by blast
  from agg_flush_one_step [OF this flush(3)] flush.IH show ?case by (auto simp: add.assoc)
next
  case (wake t h outs ag t' p r s w out ag')
  then have "ag_inv cfg t' ag" using ag_inv_mono by blast
  from agg_timer_step [OF this wake(3,4,6)] wake.IH show ?case by (auto simp: add.assoc)
qed

lemma arun_sent:
  assumes "arun cfg t h outs ag" "b \<in> set outs" "x \<in> set (ab_items b)"
  shows "(predicted_shard b, x) \<in> set h"
proof -
  have "(predicted_shard b, x) \<in> set (sent outs)" using assms(2,3) by (auto simp: sent_def)
  then have "(predicted_shard b, x) \<in># mset h" using arun_accounts [OF assms(1)] by simp
  then show ?thesis by simp
qed

text \<open>C6.  Whatever the order of puts, flushes and timers, and however the shard map changes between
  them: every record that was put, paired with the shard it was predicted for at that moment, is
  exactly once either in a batch that was handed on, under that batch's \<open>predicted_shard\<close>, or still in
  the reducer of that shard.  So no record is lost or duplicated, and records predicted for
  different shards never share a batch.\<close>

theorem aggregator_accounts:
  assumes "arun cfg t h outs ag"
  shows "mset h = mset (sent outs) + mset (held ag)
    \<and> (\<forall>b x. b \<in> set outs \<and> x \<in> set (ab_items b) \<longrightarrow> (predicted_shard b, x) \<in> set h)"
  using arun_accounts [OF assms] arun_sent [OF assms] by blast

text \<open>A concrete run: two records for shard 7, the count limit being two.\<close>

definition demo_cfg :: aggregator_cfg where
  "demo_cfg = aggregator_cfg_of True 100 2 1000 False None"

definition demo_buf :: "nat \<Rightarrow> BufferedRecord" where
  "demo_buf n = \<lparr>obj = n, user_record = \<lparr>partition_key = [97], data = [1], explicit_hash_key = None, tags = []\<rparr>,
     deadline = Fin (of_nat n), hash_key = 5, arrival_time = 0, attempts = []\<rparr>"

definition demo_put :: "nat \<Rightarrow> aggregator \<Rightarrow> (pyerr + AggregatedBatch option) \<times> aggregator" where
  "demo_put n ag = put_buffered demo_cfg 0 True (\<lambda>_. Some 7) (demo_buf n) ag"

definition demo_batch :: AggregatedBatch where
  "demo_batch = \<lparr>predicted_shard = Some 7, ab_items = [demo_buf 1, demo_buf 2], size_estimate = 22,
     pk_set = {[97]}, ehk_set = {}\<rparr>"

lemma demo_encodable: "encodable (demo_buf n)"
  by (simp add: encodable_def demo_buf_def pk_of_def ehks_of_def scalar_def)

lemma utf8_encode_97: "utf8_encode [97] = Inr [0x61]"
  by (simp add: utf8_encode_def utf8_char_def byte_of_def)

lemmas demo_simps = demo_put_def demo_cfg_def demo_buf_def aggregator_cfg_of_def put_buffered_def
  predicted_of_def get_or_create_reducer_def reducer_add_def reducer_init_def new_batch_def
  agg_add_def add_key_def utf8_encode_97 Let_def reschedule_locked_def cancel_timer_locked_def
  pack_and_split_def some_closed_def RECORD_FRAMING_def FIELD_FRAMING_def INDEX_REFERENCE_def
  agg_aenter_def aggregator_init_def agg_deadline_def wake_at_def

lemma demo_puts:
  "emitted (fst (demo_put 1 (agg_aenter aggregator_init))) = []"
  "emitted (fst (demo_put 2 (snd (demo_put 1 (agg_aenter aggregator_init))))) = [demo_batch]"
  by (simp_all add: demo_simps demo_batch_def)

lemma demo_run:
  "arun demo_cfg 0 [(Some 7, demo_buf 1), (Some 7, demo_buf 2)] [demo_batch]
     (snd (demo_put 2 (snd (demo_put 1 (agg_aenter aggregator_init)))))"
proof -
  have p: "predicted_of True (\<lambda>_. Some 7) x = Some 7" for x by (simp add: predicted_of_def)
  have "arun demo_cfg 0 [(Some 7, demo_buf 1)] [] (snd (demo_put 1 (agg_aenter aggregator_init)))"
    using arun.put [OF arun.enter order_refl demo_encodable surjective_pairing,
        of demo_cfg 0 True "\<lambda>_. Some 7" 1] demo_puts(1)
    by (simp add: p demo_put_def)
  from arun.put [OF this order_refl demo_encodable surjective_pairing, of True "\<lambda>_. Some 7" 2] demo_puts(2)
  show ?thesis by (simp add: p demo_put_def)
qed

theorem aggregator_accounts_witness:
  "(predicted_shard demo_batch, demo_buf 2) \<in> set [(Some 7, demo_buf 1), (Some 7, demo_buf 2)]"
  using aggregator_accounts [OF demo_run] by (simp add: demo_batch_def)

text \<open>C27.  Every batch that an aggregator hands on is non-empty and in deadline order; unless it is a
  single record, it has at most \<open>max_count\<close> records and an estimated size of at most \<open>max_size\<close>; and the
  running size estimate is exact for the estimator: eight bytes and the payload for every record,
  plus each distinct partition key and explicit hash key once with its framing, however often
  \<open>remove_last\<close> rebuilt the batch.\<close>

theorem aggregator_batches:
  assumes "arun cfg t h outs ag" "b \<in> set outs"
  shows "ab_items b \<noteq> [] \<and> sorted (map deadline (ab_items b)) \<and> size_estimate b = agg_size (ab_items b)
    \<and> (length (ab_items b) \<le> max_count cfg \<and> size_estimate b \<le> max_size cfg \<or> length (ab_items b) = 1)"
  using arun_accounts [OF assms(1)] assms(2) by (auto simp: good_batch_def agg_ok_def)

theorem aggregator_batches_witness:
  "size_estimate demo_batch = agg_size [demo_buf 1, demo_buf 2]"
  using aggregator_batches [OF demo_run, of demo_batch] by (simp add: demo_batch_def)

text \<open>The routing keys of an aggregated batch send it to the shard it was built for: if all its
  records were put under the same READY shard map \<open>predict\<close>, then the explicit hash key of the API
  record is a decimal string that the service (and \<open>parse_explicit_hash_key\<close>) reads as a uint128
  that \<open>predict\<close> maps to the batch's \<open>predicted_shard\<close>; the partition key is then the constant \<open>a\<close>.\<close>

theorem aggregated_routing_key:
  assumes run: "arun cfg t h outs ag" and b: "b \<in> set outs" "1 < length (ab_items b)"
    and h: "\<forall>(p, x)\<in>set h. p = predict (hash_key x) \<and> 0 \<le> hash_key x \<and> hash_key x \<le> UINT128_MAX"
  shows "\<exists>s k. routing_explicit_hash_key b = Inr (Some s) \<and> routing_partition_key b = Inr (lit ''a'')
    \<and> parse_explicit_hash_key s = Inr k \<and> predict k = predicted_shard b"
proof -
  obtain x y zs where it: "ab_items b = x # y # zs"
    using b(2) by (cases "ab_items b" rule: remdups_adj.cases) auto
  have "(predicted_shard b, x) \<in> set h"
    using arun_sent [OF run b(1)] it by simp
  then have x: "predicted_shard b = predict (hash_key x)" "0 \<le> hash_key x" "hash_key x \<le> UINT128_MAX"
    using h by auto
  have "parse_explicit_hash_key (str_of_int (hash_key x)) = Inr (hash_key x)"
    using x parse_str_of_int by simp
  with x it show ?thesis by (simp add: routing_explicit_hash_key_def routing_partition_key_def)
qed

theorem aggregated_routing_key_witness:
  "\<exists>s k. routing_explicit_hash_key demo_batch = Inr (Some s) \<and> parse_explicit_hash_key s = Inr k
     \<and> (\<lambda>_. Some 7) k = predicted_shard demo_batch"
  using aggregated_routing_key [OF demo_run, of demo_batch "\<lambda>_. Some 7"]
  by (auto simp: demo_batch_def demo_buf_def UINT128_MAX_def)

section \<open>One reducer of the aggregator\<close>

text \<open>C22.  Liveness of the deadline timer.  After any run of adds, flushes and timer wake-ups of a
  reducer of aggregated batches, if a record is buffered then exactly one timer task is
  alive, it is due no later than the record's deadline (or now, if that has passed), and when it fires
  it does not raise and closes a non-empty batch of the most urgent records.\<close>

theorem reducer_deadline_timer:
  assumes "rrun (agg_cfg p c s) t evs outs r" "RClose \<notin> set evs" "\<forall>x\<in>set (added evs). encodable x"
    and "x \<in> set (ab_items (active r))"
  shows "\<exists>sc w. timer_tasks r = [(sc, w)] \<and> w \<le> max (Fin t) (deadline x) \<and>
    (\<forall>t'\<ge>t. \<exists>cl r'. timer_task (agg_cfg p c s) t' sc r = (Inr (Some cl), r') \<and> ab_items cl \<noteq> [] \<and>
       (\<forall>y\<in>set (ab_items cl). \<forall>z\<in>set (ab_items (active r')). deadline y \<le> deadline z))"
  using agg.run_timer [OF assms(1)] assms(2-4) by (simp add: agg.good_run_def)

lemma demo_rrun:
  "rrun (agg_cfg None 5 1000) 0 [RAdd (demo_buf 1)] [Inr None]
     (snd (reducer_add (agg_cfg None 5 1000) 0 (demo_buf 1) (reducer_init (agg_cfg None 5 1000))))"
  using rrun.step [OF rrun.start order_refl rstep.add [OF surjective_pairing], of "agg_cfg None 5 1000" 0 "demo_buf 1"]
  by (simp add: demo_simps)

theorem reducer_deadline_timer_witness:
  "\<exists>sc w. timer_tasks (snd (reducer_add (agg_cfg None 5 1000) 0 (demo_buf 1)
     (reducer_init (agg_cfg None 5 1000)))) = [(sc, w)] \<and> w \<le> Fin 1"
proof -
  have "max (Fin 0) (deadline (demo_buf 1)) = Fin 1"
    by (simp add: demo_buf_def max_def)
  moreover have "demo_buf 1 \<in> set (ab_items (active (snd (reducer_add (agg_cfg None 5 1000) 0 (demo_buf 1)
     (reducer_init (agg_cfg None 5 1000))))))"
    by (simp add: demo_simps)
  ultimately show ?thesis
    using reducer_deadline_timer [OF demo_rrun, of "demo_buf 1"] demo_encodable by fastforce
qed

text \<open>Records that arrive with non-decreasing deadlines (what first-time puts do) leave a reducer in
  arrival order: the batches handed on, in order, followed by the records still buffered, are
  exactly the records added.  A flush then empties the buffer.\<close>

theorem reducer_fifo:
  assumes "rrun (agg_cfg p c s) t evs outs r" "RClose \<notin> set evs" "\<forall>x\<in>set (added evs). encodable x"
    and "sorted (map deadline (added evs))"
  shows "added evs = concat (map ab_items (concat (map emitted outs))) @ ab_items (active r)
    \<and> ab_items (active (snd (reducer_flush (agg_cfg p c s) t r))) = []"
  using agg.run_fifo [OF assms(1)] agg.run_flush_drains [OF assms(1) _ _ surjective_pairing] assms(2-4)
  by (simp add: agg.good_run_def)

theorem reducer_fifo_witness:
  "ab_items (active (snd (reducer_flush (agg_cfg None 5 1000) 0
     (snd (reducer_add (agg_cfg None 5 1000) 0 (demo_buf 1) (reducer_init (agg_cfg None 5 1000))))))) = []"
  using reducer_fifo [OF demo_rrun] demo_encodable by simp

section \<open>Building a record\<close>

text \<open>\<open>build_buffered\<close> keeps the user's record, starts its history empty, stamps the arrival and a
  deadline one buffering time later, and gives it a 128-bit hash key: the explicit one when there
  is one, the MD5 of the partition key otherwise.  It raises exactly when that key cannot be
  computed, and then counts nothing.\<close>

theorem build_buffered_spec:
  "case build_buffered cfg now oid ur of
     Inl e \<Rightarrow> (case explicit_hash_key ur of Some k \<Rightarrow> parse_explicit_hash_key k = Inl e
               | None \<Rightarrow> md5_hash_key (partition_key ur) = Inl e)
   | Inr (x, ms) \<Rightarrow> user_record x = ur \<and> attempts x = [] \<and> arrival_time x = now \<and>
       deadline x = Fin (now + buffered_time cfg) \<and> 0 \<le> hash_key x \<and> hash_key x \<le> UINT128_MAX \<and>
       (case explicit_hash_key ur of Some k \<Rightarrow> parse_explicit_hash_key k = Inr (hash_key x)
        | None \<Rightarrow> md5_hash_key (partition_key ur) = Inr (hash_key x)) \<and>
       length ms = (if ag_metrics cfg then 1 else 0)"
proof (cases "case explicit_hash_key ur of Some k \<Rightarrow> parse_explicit_hash_key k | None \<Rightarrow> md5_hash_key (partition_key ur)")
  case (Inr h)
  then have "0 \<le> h \<and> h \<le> UINT128_MAX"
    using parse_explicit_hash_key_range md5_hash_key_range by (auto split: option.splits)
  with Inr show ?thesis by (auto simp: build_buffered_def split: option.splits)
qed (auto simp: build_buffered_def split: option.splits)

section \<open>Where the code departs from its documentation\<close>

definition odd_buf :: "nat \<Rightarrow> nat \<Rightarrow> pystr \<Rightarrow> pystr option \<Rightarrow> int \<Rightarrow> BufferedRecord" where
  "odd_buf dl len pk ehk h = \<lparr>obj = dl, user_record = \<lparr>partition_key = pk, data = replicate len 0,
     explicit_hash_key = ehk, tags = []\<rparr>, deadline = Fin (of_nat dl), hash_key = h, arrival_time = 0,
     attempts = []\<rparr>"

definition refill :: "AggregatedBatch reducer" where
  "refill =
     (let cfg = agg_cfg None 100 60; a = odd_buf 10 30 [97] None 0; b = odd_buf 100 5 [97] None 0;
          c = odd_buf 50 40 [97] None 0
      in snd (reducer_add cfg 0 c (snd (reducer_add cfg 0 b (snd (reducer_add cfg 0 a (reducer_init cfg)))))))"

lemmas refill_simps = demo_simps odd_buf_def refill_def reducer_flush_def agg_remove_last_def

text \<open>One \<open>flush\<close> does not always empty a reducer.  When a record with an earlier deadline (a retry)
  arrives between two others, the remainder that is re-injected can exceed the size limit; the flush
  then closes only its first part and the last record stays behind, and is dropped by \<open>aclose\<close>.\<close>

lemma flush_leaves_records:
  "ab_items (active refill) = [odd_buf 50 40 [97] None 0, odd_buf 100 5 [97] None 0]
   \<and> ab_items (active (snd (reducer_flush (agg_cfg None 100 60) 0 refill))) = [odd_buf 100 5 [97] None 0]"
  by (simp add: refill_simps)

definition poison :: BufferedRecord where
  "poison = odd_buf 1 1 [0xD800] (Some [0x35]) 5"

text \<open>A partition key that is not encodable (a lone surrogate) beside a valid explicit hash key is
  rejected by the first put, but its key has already joined \<open>pk_set\<close>: the second put of the same key
  is accepted, and from then on no flush of that reducer gets past it.\<close>

lemma poison_is_buffered:
  "let cfg = agg_cfg None 100 1000; r1 = reducer_add cfg 0 poison (reducer_init cfg);
       r2 = reducer_add cfg 0 poison (snd r1); fl = reducer_flush cfg 0 (snd r2) in
   fst r1 = Inl UnicodeEncodeError \<and> fst r2 = Inr None \<and> ab_items (active (snd r2)) = [poison] \<and>
   fst fl = Inl UnicodeEncodeError \<and> ab_items (active (snd fl)) = [poison]"
  by (simp add: refill_simps poison_def utf8_encode_def utf8_char_def)

text \<open>While the shard map is not READY, records with different hash keys are aggregated into one batch
  of the \<open>None\<close> shard (there is no single-record mode), routed by the first one's hash key.\<close>

lemma not_ready_records_mix:
  "let x = odd_buf 1 1 [97] None 5; y = odd_buf 2 1 [97] None 6;
       ag1 = snd (put_buffered demo_cfg 0 False (\<lambda>_. None) x (agg_aenter aggregator_init)) in
   map ab_items (emitted (fst (put_buffered demo_cfg 0 False (\<lambda>_. None) y ag1))) = [[x, y]]"
  by (simp add: refill_simps)

end
