(* ===== verification/Collector.thy ===== *)
theory Collector
  imports Aggregator
begin

text \<open>
  Model of \<^verbatim>\<open>src/aiokpl/collector.py\<close>: \<open>PutRecordsBatch\<close> with its running total and its bytes per shard,
  and the \<open>Collector\<close>, a single reducer whose predicate closes the batch once a shard's share reaches
  the threshold.  The batch satisfies the \<open>Batch\<close> protocol, so the reducer's lemmas apply; the
  per-shard table is shown to be the sum of the sizes per shard.
\<close>

section \<open>PutRecordsBatch\<close>

record PutRecordsBatch =
  pr_items :: "AggregatedBatch list"
  size_bytes :: int
  per_shard :: "(int option \<times> int) list"

definition put_batch_init :: PutRecordsBatch where
  "put_batch_init = \<lparr>pr_items = [], size_bytes = 0, per_shard = []\<rparr>"

definition per_shard_bytes :: "PutRecordsBatch \<Rightarrow> int option \<Rightarrow> int" where
  "per_shard_bytes b shard = (case dict_get (per_shard b) shard of None \<Rightarrow> 0 | Some n \<Rightarrow> n)"

definition put_batch_add :: "PutRecordsBatch \<Rightarrow> AggregatedBatch \<Rightarrow> PutRecordsBatch" where
  "put_batch_add b item =
     b\<lparr>pr_items := pr_items b @ [item], size_bytes := size_bytes b + int (size_estimate item),
       per_shard := dict_set (predicted_shard item)
         (per_shard_bytes b (predicted_shard item) + int (size_estimate item)) (per_shard b)\<rparr>"

definition put_batch_remove_last :: "PutRecordsBatch \<Rightarrow> pyerr + AggregatedBatch \<times> PutRecordsBatch" where
  "put_batch_remove_last b =
     (if pr_items b = [] then Inl IndexError
      else let item = last (pr_items b);
               b = b\<lparr>pr_items := butlast (pr_items b), size_bytes := size_bytes b - int (size_estimate item)\<rparr> in
        case dict_get (per_shard b) (predicted_shard item) of
          None \<Rightarrow> Inl (KeyError ''predicted_shard'')
        | Some old_total \<Rightarrow>
            let new_total = old_total - int (size_estimate item) in
            if new_total \<le> 0 then Inr (item, b\<lparr>per_shard := dict_del (predicted_shard item) (per_shard b)\<rparr>)
            else Inr (item, b\<lparr>per_shard := dict_set (predicted_shard item) new_total (per_shard b)\<rparr>))"

definition put_batch_deadline :: "PutRecordsBatch \<Rightarrow> pyfloat" where
  "put_batch_deadline b = (if pr_items b = [] then PInf else pymin (map agg_deadline (pr_items b)))"

section \<open>The batch as a container of the reducer\<close>

text \<open>The predicate handed to the reducer: the share of the shard just added to.\<close>

definition short_circuit :: "int \<Rightarrow> AggregatedBatch \<Rightarrow> PutRecordsBatch \<Rightarrow> bool" where
  "short_circuit threshold just_added current \<longleftrightarrow>
     threshold \<le> per_shard_bytes current (predicted_shard just_added)"

definition put_cfg :: "nat \<Rightarrow> nat \<Rightarrow> int \<Rightarrow> (AggregatedBatch, PutRecordsBatch) reducer_cfg" where
  "put_cfg max_n max_bytes threshold =
     \<lparr>batch_factory = put_batch_init, b_add = (\<lambda>b x. (None, put_batch_add b x)),
      b_remove_last = put_batch_remove_last, b_items = pr_items, b_count = (\<lambda>b. length (pr_items b)),
      b_size = (\<lambda>b. nat (size_bytes b)), b_deadline = put_batch_deadline, i_deadline = agg_deadline,
      count_limit = max_n, size_limit = max_bytes, flush_predicate = Some (short_circuit threshold)\<rparr>"

lemma put_cfg_sel [simp]:
  "batch_factory (put_cfg c s th) = put_batch_init" "b_add (put_cfg c s th) = (\<lambda>b x. (None, put_batch_add b x))"
  "b_remove_last (put_cfg c s th) = put_batch_remove_last" "b_items (put_cfg c s th) = pr_items"
  "b_count (put_cfg c s th) = (\<lambda>b. length (pr_items b))" "b_size (put_cfg c s th) = (\<lambda>b. nat (size_bytes b))"
  "b_deadline (put_cfg c s th) = put_batch_deadline" "i_deadline (put_cfg c s th) = agg_deadline"
  "count_limit (put_cfg c s th) = c" "size_limit (put_cfg c s th) = s"
  "flush_predicate (put_cfg c s th) = Some (short_circuit th)"
  by (simp_all add: put_cfg_def)

definition total_size :: "AggregatedBatch list \<Rightarrow> nat" where
  "total_size xs = (\<Sum>x\<leftarrow>xs. size_estimate x)"

definition shard_size :: "int option \<Rightarrow> AggregatedBatch list \<Rightarrow> nat" where
  "shard_size p xs = total_size (filter (\<lambda>x. predicted_shard x = p) xs)"

definition sized :: "AggregatedBatch \<Rightarrow> bool" where
  "sized x \<longleftrightarrow> 0 < size_estimate x"

definition put_ok :: "PutRecordsBatch \<Rightarrow> bool" where
  "put_ok b \<longleftrightarrow> (\<forall>x\<in>set (pr_items b). sized x) \<and> size_bytes b = int (total_size (pr_items b)) \<and>
     (\<forall>p. dict_get (per_shard b) p =
        (if p \<in> predicted_shard ` set (pr_items b) then Some (int (shard_size p (pr_items b))) else None))"

lemma size_simps [simp]:
  "total_size [] = 0" "total_size (xs @ ys) = total_size xs + total_size ys"
  "total_size [x] = size_estimate x"
  "shard_size p [] = 0" "shard_size p (xs @ ys) = shard_size p xs + shard_size p ys"
  "shard_size p [x] = (if predicted_shard x = p then size_estimate x else 0)"
  by (simp_all add: total_size_def shard_size_def)

lemma shard_size_0:
  "\<forall>x\<in>set xs. sized x \<Longrightarrow> shard_size p xs = 0 \<longleftrightarrow> p \<notin> predicted_shard ` set xs"
  by (auto simp: shard_size_def total_size_def sized_def image_iff)

lemma per_shard_bytes_ok: "put_ok b \<Longrightarrow> per_shard_bytes b p = int (shard_size p (pr_items b))"
  using shard_size_0 [of "pr_items b" p] by (auto simp: per_shard_bytes_def put_ok_def)

lemma put_batch_add_ok:
  assumes "put_ok b" "sized x"
  shows "put_ok (put_batch_add b x)"
  using assms per_shard_bytes_ok [OF assms(1), of "predicted_shard x"]
  by (auto simp: put_ok_def put_batch_add_def)

lemma put_batch_remove_last_ok:
  assumes "put_ok b" "pr_items b = xs @ [x]"
  shows "\<exists>b'. put_batch_remove_last b = Inr (x, b') \<and> put_ok b' \<and> pr_items b' = xs"
proof -
  have s: "\<forall>y\<in>set xs. sized y" using assms by (simp add: put_ok_def)
  have "dict_get (per_shard b) (predicted_shard x)
      = Some (int (shard_size (predicted_shard x) xs) + int (size_estimate x))"
    using assms by (simp add: put_ok_def)
  with assms shard_size_0 [OF s] show ?thesis
    by (auto simp: put_batch_remove_last_def put_ok_def Let_def)
qed

interpretation put: batch_container "put_cfg max_n max_bytes threshold" put_ok sized total_size
  for max_n max_bytes threshold
proof unfold_locales
qed (use put_batch_add_ok put_batch_remove_last_ok in
    \<open>auto simp: put_ok_def put_batch_init_def put_batch_add_def put_batch_deadline_def\<close>)

section \<open>The collector\<close>

record collector_cfg =
  collection_max_count :: nat
  collection_max_size :: nat
  threshold :: int

definition collector_cfg_default :: collector_cfg where
  "collector_cfg_default = \<lparr>collection_max_count = 500, collection_max_size = 5 * 1024 * 1024,
     threshold = 256 * 1024\<rparr>"

abbreviation cfg_of :: "collector_cfg \<Rightarrow> (AggregatedBatch, PutRecordsBatch) reducer_cfg" where
  "cfg_of cc \<equiv> put_cfg (collection_max_count cc) (collection_max_size cc) (threshold cc)"

text \<open>The reducer exists from \<open>__aenter__\<close> on; \<open>c_tg\<close> is the task group.\<close>

record collector =
  c_reducer :: "PutRecordsBatch reducer option"
  c_tg :: bool

definition collector_init :: collector where
  "collector_init = \<lparr>c_reducer = None, c_tg = False\<rparr>"

definition collector_aenter :: "collector_cfg \<Rightarrow> collector \<Rightarrow> collector" where
  "collector_aenter cc c = c\<lparr>c_tg := True, c_reducer := Some (reducer_init (cfg_of cc))\<rparr>"

definition NOT_ENTERED :: pyerr where
  "NOT_ENTERED = RuntimeError ''Collector must be used as an async context manager''"

definition collector_put :: "collector_cfg \<Rightarrow> real \<Rightarrow> AggregatedBatch \<Rightarrow> collector
    \<Rightarrow> (pyerr + PutRecordsBatch option) \<times> collector" where
  "collector_put cc now b c =
     (case c_reducer c of
        None \<Rightarrow> (Inl NOT_ENTERED, c)
      | Some r \<Rightarrow> (case reducer_add (cfg_of cc) now b r of (out, r) \<Rightarrow> (out, c\<lparr>c_reducer := Some r\<rparr>)))"

definition collector_flush :: "collector_cfg \<Rightarrow> real \<Rightarrow> collector \<Rightarrow> (pyerr + PutRecordsBatch option) \<times> collector" where
  "collector_flush cc now c =
     (case c_reducer c of
        None \<Rightarrow> (Inl NOT_ENTERED, c)
      | Some r \<Rightarrow> (case reducer_flush (cfg_of cc) now r of (out, r) \<Rightarrow> (out, c\<lparr>c_reducer := Some r\<rparr>)))"

text \<open>The timer of the collector's reducer fires.\<close>

definition collector_timer :: "collector_cfg \<Rightarrow> real \<Rightarrow> nat \<Rightarrow> collector \<Rightarrow> (pyerr + PutRecordsBatch option) \<times> collector" where
  "collector_timer cc now scope c =
     (case c_reducer c of
        None \<Rightarrow> (Inr None, c)
      | Some r \<Rightarrow> (case timer_task (cfg_of cc) now scope r of (out, r) \<Rightarrow> (out, c\<lparr>c_reducer := Some r\<rparr>)))"

definition collector_aclose :: "collector_cfg \<Rightarrow> collector \<Rightarrow> collector" where
  "collector_aclose cc c =
     (case c_reducer c of None \<Rightarrow> c | Some r \<Rightarrow> c\<lparr>c_reducer := Some (reducer_aclose (cfg_of cc) r)\<rparr>)"

definition collector_aexit :: "collector_cfg \<Rightarrow> collector \<Rightarrow> pyerr + collector" where
  "collector_aexit cc c =
     (let c = collector_aclose cc c in if \<not> c_tg c then Inl AssertionError else Inr (c\<lparr>c_tg := False\<rparr>))"

section \<open>Steps of the collector\<close>

definition col_ok :: "collector_cfg \<Rightarrow> real \<Rightarrow> collector \<Rightarrow> bool" where
  "col_ok cc t c \<longleftrightarrow> c_tg c \<and> (\<exists>r. c_reducer c = Some r \<and>
     put.invariant (collection_max_count cc) (collection_max_size cc) (threshold cc) t r)"

definition col_batches :: "collector \<Rightarrow> AggregatedBatch list" where
  "col_batches c = (case c_reducer c of None \<Rightarrow> [] | Some r \<Rightarrow> pr_items (active r))"

text \<open>A step takes in \<open>xs\<close>, hands on non-empty requests, and raises nothing.\<close>

definition col_moves :: "collector_cfg \<Rightarrow> real \<Rightarrow> AggregatedBatch list \<Rightarrow> collector
    \<Rightarrow> (pyerr + PutRecordsBatch option) \<times> collector \<Rightarrow> bool" where
  "col_moves cc t xs c res \<longleftrightarrow> (\<forall>e. fst res \<noteq> Inl e) \<and> col_ok cc t (snd res)
     \<and> list_all (\<lambda>q. pr_items q \<noteq> []) (emitted (fst res))
     \<and> mset (concat (map pr_items (emitted (fst res)))) + mset (col_batches (snd res)) = mset (col_batches c) + mset xs"

lemma col_ok_mono: "col_ok cc t c \<Longrightarrow> t \<le> t' \<Longrightarrow> col_ok cc t' c"
  using put.invariant_mono by (auto simp: col_ok_def)

lemma col_ok_aenter: "col_ok cc t (collector_aenter cc c)" "col_batches (collector_aenter cc c) = []"
  using put.invariant_init by (auto simp: col_ok_def collector_aenter_def col_batches_def reducer_init_def put_batch_init_def)

abbreviation col_inv :: "collector_cfg \<Rightarrow> real \<Rightarrow> PutRecordsBatch reducer \<Rightarrow> bool" where
  "col_inv cc t r \<equiv> put.invariant (collection_max_count cc) (collection_max_size cc) (threshold cc) t r"

lemma col_moves_None:
  assumes "c_tg c" "c_reducer c = Some r" "col_inv cc t r'" "pr_items (active r') = pr_items (active r) @ xs"
  shows "col_moves cc t xs c (Inr None, c\<lparr>c_reducer := Some r'\<rparr>)"
  using assms by (simp add: col_moves_def col_ok_def col_batches_def)

lemma col_moves_Some:
  assumes "c_tg c" "c_reducer c = Some r" "col_inv cc t r'" "pr_items (active r) @ xs \<noteq> []"
    and sp: "put.split_of (collection_max_count cc) (collection_max_size cc) (threshold cc) (pr_items (active r) @ xs)
      = (pr_items cl, pr_items (active r'))"
  shows "col_moves cc t xs c (Inr (Some cl), c\<lparr>c_reducer := Some r'\<rparr>)"
proof -
  have "mset (pr_items cl) + mset (pr_items (active r')) = mset (pr_items (active r)) + mset xs"
    using put.split_of_mset [OF sp] by simp
  with put.split_of_nonempty [OF sp assms(4)] assms(1-3) show ?thesis
    by (simp add: col_moves_def col_ok_def col_batches_def)
qed

lemmas col_moves_Some_nil = col_moves_Some [where xs = "[]", unfolded append_Nil2]

lemma collector_put_moves:
  assumes "col_ok cc t c" "sized b"
  shows "col_moves cc t [b] c (collector_put cc t b c)"
proof -
  obtain r where r: "c_reducer c = Some r" "col_inv cc t r" and tg: "c_tg c" using assms(1) by (auto simp: col_ok_def)
  obtain out r' where a: "reducer_add (cfg_of cc) t b r = (out, r')" by fastforce
  have eq: "collector_put cc t b c = (out, c\<lparr>c_reducer := Some r'\<rparr>)" using r(1) a by (simp add: collector_put_def)
  from put.add_step [OF r(2) assms(2) a] show ?thesis
    unfolding eq by (auto split: if_splits intro: col_moves_Some [OF tg r(1)] col_moves_None [OF tg r(1)])
qed

lemma collector_flush_moves:
  assumes "col_ok cc t c"
  shows "col_moves cc t [] c (collector_flush cc t c)"
proof -
  obtain r where r: "c_reducer c = Some r" "col_inv cc t r" and tg: "c_tg c" using assms(1) by (auto simp: col_ok_def)
  obtain out r' where a: "reducer_flush (cfg_of cc) t r = (out, r')" by fastforce
  have eq: "collector_flush cc t c = (out, c\<lparr>c_reducer := Some r'\<rparr>)" using r(1) a by (simp add: collector_flush_def)
  from put.flush_step [OF r(2) a] show ?thesis
    unfolding eq by (auto split: if_splits intro: col_moves_Some_nil [OF tg r(1)] col_moves_None [OF tg r(1)])
qed

lemma collector_timer_moves:
  assumes "col_ok cc t c" "c_reducer c = Some r" "(s, w) \<in> set (timer_tasks r)"
  shows "col_moves cc t [] c (collector_timer cc t s c)"
proof -
  have r: "col_inv cc t r" and tg: "c_tg c" using assms(1,2) by (auto simp: col_ok_def)
  obtain out r' where a: "timer_task (cfg_of cc) t s r = (out, r')" by fastforce
  have eq: "collector_timer cc t s c = (out, c\<lparr>c_reducer := Some r'\<rparr>)" using assms(2) a by (simp add: collector_timer_def)
  from put.wake_step [OF r assms(3) a] show ?thesis
    unfolding eq by (auto intro: col_moves_Some_nil [OF tg assms(2)])
qed

section \<open>Properties\<close>

text \<open>C23.  Runs of the collector's reducer (adds, flushes, timers in any order): no batch is lost or
  duplicated, nothing raises, and every request that is handed on is non-empty and, unless it is a
  single record, has at most \<open>max_n\<close> records and \<open>max_bytes\<close> bytes, with its totals, overall and per
  shard, equal to the sums over its records.\<close>

theorem collector_requests:
  assumes "rrun (put_cfg max_n max_bytes th) t evs outs r" "RClose \<notin> set evs" "\<forall>b\<in>set (added evs). sized b"
  shows "mset (added evs) = mset (concat (map pr_items (concat (map emitted outs)))) + mset (pr_items (active r))
    \<and> (\<forall>e. Inl e \<notin> set outs)
    \<and> (\<forall>b. Inr (Some b) \<in> set outs \<longrightarrow> pr_items b \<noteq> []
        \<and> (length (pr_items b) \<le> max_n \<and> total_size (pr_items b) \<le> max_bytes \<or> length (pr_items b) = 1)
        \<and> size_bytes b = int (total_size (pr_items b))
        \<and> (\<forall>p. per_shard_bytes b p = int (shard_size p (pr_items b))))"
proof -
  have g: "put.good_run evs" using assms(2,3) by (simp add: put.good_run_def)
  from put.run_conservation [OF assms(1) g] put.run_never_raises [OF assms(1) g] put.run_batches [OF assms(1) g]
  show ?thesis by (auto simp: put.fits_def put_ok_def per_shard_bytes_ok)
qed

text \<open>A run with one request: two batches of the demonstration, the count limit being two.\<close>

definition demo_req :: PutRecordsBatch where
  "demo_req = \<lparr>pr_items = [demo_batch, demo_batch], size_bytes = 44, per_shard = [(Some 7, 44)]\<rparr>"

lemmas demo_put_simps = reducer_add_def reducer_init_def put_batch_init_def put_batch_add_def
  per_shard_bytes_def short_circuit_def Let_def reschedule_locked_def cancel_timer_locked_def
  pack_and_split_def some_closed_def put_batch_deadline_def wake_at_def

abbreviation "demo_c \<equiv> put_cfg 2 1000 1000"

lemma demo_req_run:
  "\<exists>r. rrun demo_c 0 [RAdd demo_batch, RAdd demo_batch] [Inr None, Inr (Some demo_req)] r"
proof -
  let ?r = "reducer_add demo_c 0 demo_batch (reducer_init demo_c)"
  have 1: "fst ?r = Inr None" "fst (reducer_add demo_c 0 demo_batch (snd ?r)) = Inr (Some demo_req)"
    by (simp_all add: demo_put_simps demo_batch_def demo_buf_def agg_deadline_def demo_req_def)
  from rrun.step [OF rrun.start order_refl rstep.add [OF surjective_pairing], of demo_c 0 demo_batch] 1
  have "rrun demo_c 0 [RAdd demo_batch] [Inr None] (snd ?r)" by simp
  from rrun.step [OF this order_refl rstep.add [OF surjective_pairing], of demo_batch] 1
  show ?thesis by auto
qed

theorem collector_requests_witness: "per_shard_bytes demo_req (Some 7) = int (shard_size (Some 7) (pr_items demo_req))"
proof -
  obtain r where r: "rrun demo_c 0 [RAdd demo_batch, RAdd demo_batch] [Inr None, Inr (Some demo_req)] r"
    using demo_req_run by blast
  have "\<forall>b\<in>set (added [RAdd demo_batch, RAdd demo_batch]). sized b"
    by (simp add: sized_def demo_batch_def)
  with collector_requests [OF r] show ?thesis by auto
qed

text \<open>The short circuit is exact: an add to an open collector hands nothing on if and only if, with
  the new batch included, the buffered request is still below the count limit, below the size limit,
  and the share of the new batch's shard is below the threshold.\<close>

theorem collector_short_circuit:
  assumes "rrun (put_cfg max_n max_bytes th) t evs outs r" "RClose \<notin> set evs" "\<forall>b\<in>set (added evs). sized b"
    and "sized b"
  shows "fst (reducer_add (put_cfg max_n max_bytes th) t b r) = Inr None \<longleftrightarrow>
    (let xs = pr_items (active r) @ [b] in
     length xs < max_n \<and> total_size xs < max_bytes \<and> int (shard_size (predicted_shard b) xs) < th)"
proof -
  have g: "put.good_run evs" using assms(2,3) by (simp add: put.good_run_def)
  from put.add_step [OF put.run_invariant [OF assms(1) g] assms(4) surjective_pairing] obtain a where
    a: "pr_items a = pr_items (active r) @ [b]" "put_ok a"
      "fst (reducer_add (put_cfg max_n max_bytes th) t b r) = Inr None \<longleftrightarrow> \<not> put.flushes max_n max_bytes th b a"
    by (auto split: if_splits)
  have "nat (size_bytes a) = total_size (pr_items a)" using a(2) by (simp add: put_ok_def)
  with per_shard_bytes_ok [OF a(2)] a show ?thesis
    by (auto simp: put.flushes_def short_circuit_def not_le)
qed

theorem collector_short_circuit_witness:
  "fst (reducer_add demo_c 0 demo_batch (reducer_init demo_c)) = Inr None"
  using collector_short_circuit [OF rrun.start, of demo_batch 2 1000 1000 0]
  by (simp add: sized_def demo_batch_def reducer_init_def put_batch_init_def Let_def)

end
