(* ===== verification/Sender.thy ===== *)
theory Sender
  imports Collector
begin

text \<open>
  Model of \<^verbatim>\<open>src/aiokpl/sender.py\<close>.  The Kinesis client is code from outside the repository: it is the
  argument \<open>put_records\<close>, a function of the stream and the request entries that answers with an
  exception or a response, and nothing is assumed of it.  An exception is what the sender can see of it, its
  \<open>response\<close> attribute and its string; a response is its \<open>Records\<close> list, when present.
\<close>

section \<open>The client's side\<close>

datatype jval = JStr pystr | JDict "(pystr \<times> jval) list" | JOther

record client_exc =
  exc_response :: "jval option"
  exc_str :: pystr

record PutRecordsEntry =
  Data :: "byte list"
  PartitionKey :: pystr
  ExplicitHashKey :: "pystr option"

record ResponseSlot =
  SequenceNumber :: "pystr option"
  slot_ShardId :: "pystr option"
  ErrorCode :: "pystr option"
  ErrorMessage :: "pystr option"

type_synonym put_records_fn = "pystr \<Rightarrow> PutRecordsEntry list \<Rightarrow> client_exc + ResponseSlot list option"

section \<open>Outcomes\<close>

record PerRecordOutcome =
  po_batch :: AggregatedBatch
  po_success :: bool
  po_shard_id :: "pystr option"
  po_sequence_number :: "pystr option"
  po_error_code :: "pystr option"
  po_error_message :: "pystr option"

record SendOutcome =
  so_stream :: pystr
  so_started_at :: real
  so_ended_at :: real
  request_error :: "(pystr \<times> pystr) option"
  per_record :: "PerRecordOutcome list"
  batch_items :: "AggregatedBatch list"

definition classify_request_exception :: "client_exc \<Rightarrow> pystr \<times> pystr" where
  "classify_request_exception e =
     (let internal = (lit ''Internal'', exc_str e) in
      case exc_response e of
        Some (JDict response) \<Rightarrow>
          (case dict_get response (lit ''Error'') of
             Some (JDict err) \<Rightarrow>
               (case (dict_get err (lit ''Code''), dict_get err (lit ''Message'')) of
                  (Some (JStr code), Some (JStr message)) \<Rightarrow> (code, message)
                | _ \<Rightarrow> internal)
           | _ \<Rightarrow> internal)
      | _ \<Rightarrow> internal)"

text \<open>A slot with a non-empty sequence number is a success.\<close>

definition build_per_record :: "AggregatedBatch \<Rightarrow> ResponseSlot \<Rightarrow> PerRecordOutcome" where
  "build_per_record ar slot =
     (case SequenceNumber slot of
        Some (c # cs) \<Rightarrow>
          \<lparr>po_batch = ar, po_success = True, po_shard_id = slot_ShardId slot,
           po_sequence_number = Some (c # cs), po_error_code = None, po_error_message = None\<rparr>
      | _ \<Rightarrow>
          \<lparr>po_batch = ar, po_success = False, po_shard_id = None, po_sequence_number = None,
           po_error_code = ErrorCode slot, po_error_message = ErrorMessage slot\<rparr>)"

section \<open>Sending\<close>

record sender_cfg =
  sd_stream :: pystr
  sd_metrics :: bool

definition build_entry :: "AggregatedBatch \<Rightarrow> pyerr + PutRecordsEntry" where
  "build_entry ar =
     ebind (to_blob ar) (\<lambda>blob.
     ebind (routing_partition_key ar) (\<lambda>pk.
     ebind (routing_explicit_hash_key ar) (\<lambda>ehk.
       Inr \<lparr>Data = blob, PartitionKey = pk, ExplicitHashKey = ehk\<rparr>)))"

definition emit_request_time :: "sender_cfg \<Rightarrow> real \<Rightarrow> real \<Rightarrow> metric_call list" where
  "emit_request_time cfg t0 t1 =
     (if \<not> sd_metrics cfg then []
      else [MetricPut NAME_REQUEST_TIME ((t1 - t0) * 1000) (Some (sd_stream cfg)) None None])"

definition mismatch_message :: "nat \<Rightarrow> nat \<Rightarrow> pystr" where
  "mismatch_message got want =
     lit ''PutRecords returned '' @ str_of_nat got @ lit '' records for a batch of '' @ str_of_nat want"

definition send :: "sender_cfg \<Rightarrow> put_records_fn \<Rightarrow> real \<Rightarrow> real \<Rightarrow> PutRecordsBatch
    \<Rightarrow> pyerr + SendOutcome \<times> metric_call list" where
  "send cfg put_records t0 t1 batch =
     (if pr_items batch = [] then Inl (ValueError ''Sender.send() called with an empty PutRecordsBatch'')
      else ebind (emap build_entry (pr_items batch)) (\<lambda>entries.
        let out = \<lparr>so_stream = sd_stream cfg, so_started_at = t0, so_ended_at = t1,
                   request_error = None, per_record = [], batch_items = pr_items batch\<rparr>;
            ms = emit_request_time cfg t0 t1 in
        case put_records (sd_stream cfg) entries of
          Inl e \<Rightarrow> Inr (out\<lparr>request_error := Some (classify_request_exception e)\<rparr>, ms)
        | Inr response \<Rightarrow>
            let response_records = (case response of None \<Rightarrow> [] | Some rs \<Rightarrow> rs) in
            if length response_records \<noteq> length (pr_items batch)
            then Inr (out\<lparr>request_error := Some (lit ''RecordCountMismatch'',
                   mismatch_message (length response_records) (length (pr_items batch)))\<rparr>, ms)
            else Inr (out\<lparr>per_record := map2 build_per_record (pr_items batch) response_records\<rparr>, ms)))"

section \<open>Properties\<close>

lemma build_per_record_batch [simp]: "po_batch (build_per_record ar slot) = ar"
  by (auto simp: build_per_record_def split: option.splits list.splits)

lemma map2_build_batch: "length rs = length xs \<Longrightarrow> map po_batch (map2 build_per_record xs rs) = xs"
  by (induction xs rs rule: list_induct2') auto

text \<open>A batch can be serialized: it has items, and when it has several, all their strings are
  encodable.\<close>

definition sendable :: "AggregatedBatch \<Rightarrow> bool" where
  "sendable b \<longleftrightarrow> length (ab_items b) = 1 \<or>
     2 \<le> length (ab_items b) \<and> list_all (\<lambda>x. record_scalar (user_record x)) (ab_items b)"

lemma build_entry_total: "(\<exists>e. build_entry b = Inr e) \<longleftrightarrow> sendable b"
proof -
  have "(\<exists>blob. to_blob b = Inr blob) \<longleftrightarrow> sendable b"
    using encode_aggregated_Inr_iff [of "map user_record (ab_items b)"]
    by (simp add: to_blob_def sendable_def list_all_iff)
  moreover have "ab_items b \<noteq> []" if "sendable b" using that by (auto simp: sendable_def)
  ultimately show ?thesis
    by (cases "ab_items b")
      (auto simp: build_entry_def err_simps routing_partition_key_def routing_explicit_hash_key_def)
qed

lemma emap_build_entry: "(\<exists>es. emap build_entry bs = Inr es) \<longleftrightarrow> list_all sendable bs"
  by (simp add: emap_Inr_iff build_entry_total list_all_iff)

definition well_formed_outcome :: "PutRecordsBatch \<Rightarrow> SendOutcome \<Rightarrow> bool" where
  "well_formed_outcome batch out \<longleftrightarrow> batch_items out = pr_items batch \<and>
     (if request_error out = None then map po_batch (per_record out) = pr_items batch else per_record out = [])"

lemma send_ok:
  assumes "pr_items batch \<noteq> []" "list_all sendable (pr_items batch)"
  shows "\<exists>out ms. send cfg put_records t0 t1 batch = Inr (out, ms) \<and> well_formed_outcome batch out"
proof -
  obtain entries where e: "emap build_entry (pr_items batch) = Inr entries"
    using assms(2) emap_build_entry by blast
  show ?thesis
  proof (cases "put_records (sd_stream cfg) entries")
    case (Inl x)
    with assms(1) e show ?thesis by (simp add: send_def Let_def well_formed_outcome_def)
  next
    case (Inr resp)
    define rs where "rs = (case resp of None \<Rightarrow> [] | Some rs \<Rightarrow> rs)"
    show ?thesis
    proof (cases "length rs = length (pr_items batch)")
      case True
      with assms(1) e Inr map2_build_batch [OF True] show ?thesis
        by (simp add: send_def Let_def well_formed_outcome_def flip: rs_def)
    qed (use assms(1) e Inr in \<open>simp add: send_def Let_def well_formed_outcome_def flip: rs_def\<close>)
  qed
qed

text \<open>C34.  Sending never raises for reasons of the network: whatever the client does (raise, answer
  with too few or too many records, or none), a non-empty request of serializable batches gives an
  outcome that carries the request's batches; either it has a request error and no per-record results, or
  it has exactly one result for every batch, in order.  Otherwise \<open>send\<close> raises before it calls the
  client.\<close>

theorem send_total:
  "if pr_items batch \<noteq> [] \<and> list_all sendable (pr_items batch)
   then \<exists>out ms. send cfg put_records t0 t1 batch = Inr (out, ms) \<and> batch_items out = pr_items batch \<and>
     (if request_error out = None then map po_batch (per_record out) = pr_items batch else per_record out = [])
   else \<exists>e. send cfg put_records t0 t1 batch = Inl e"
proof (cases "pr_items batch \<noteq> [] \<and> list_all sendable (pr_items batch)")
  case True
  with send_ok [of batch cfg put_records t0 t1] show ?thesis by (auto simp: well_formed_outcome_def)
next
  case False
  then have "pr_items batch = [] \<or> (\<exists>e. emap build_entry (pr_items batch) = Inl e)"
    using emap_build_entry [of "pr_items batch"] by (cases "emap build_entry (pr_items batch)") auto
  with False show ?thesis by (auto simp: send_def)
qed

end
