(* ===== verification/Retrier.thy ===== *)
theory Retrier
  imports Sender
begin

text \<open>
  Model of \<^verbatim>\<open>src/aiokpl/retrier.py\<close>: the classification of send outcomes.  The retrier has no state of its own;
  what it does is a list of effects in order: the terminal callback \<open>on_finish\<close>, the re-entry \<open>on_retry\<close>,
  the invalidation of the shard map and the metric calls.  What it reads of the shard map is the argument
  \<open>hashrange\<close>.  A clock reading belongs to the record (\<open>clk\<close> of its position in the batch) or to the
  invalidation of a batch; the shard map may change between two entries, so its reading belongs to the entry.
\<close>

section \<open>Constants and effects\<close>

definition PROVISIONED_THROUGHPUT_EXCEEDED :: pystr where
  "PROVISIONED_THROUGHPUT_EXCEEDED = lit ''ProvisionedThroughputExceededException''"
definition EXPIRED_ERROR_CODE :: pystr where "EXPIRED_ERROR_CODE = lit ''Expired''"
definition EXPIRED_ERROR_MESSAGE :: pystr where "EXPIRED_ERROR_MESSAGE = lit ''Record TTL exceeded''"
definition WRONG_SHARD_ERROR_CODE :: pystr where "WRONG_SHARD_ERROR_CODE = lit ''Wrong Shard''"
definition WRONG_SHARD_ERROR_MESSAGE :: pystr where
  "WRONG_SHARD_ERROR_MESSAGE =
     lit ''Record landed on a shard whose hash range does not contain the record's hash key''"

datatype retrier_effect =
    OnFinish BufferedRecord RecordResult
  | OnRetry BufferedRecord
  | Invalidate real int
  | RMetric metric_call

record retrier_cfg =
  record_ttl :: real
  fail_if_throttled :: bool
  retry_deadline :: real
  rt_metrics :: bool
  rt_stream :: "pystr option"

definition retrier_cfg_of :: "real \<Rightarrow> bool \<Rightarrow> real \<Rightarrow> bool \<Rightarrow> pystr option \<Rightarrow> retrier_cfg" where
  "retrier_cfg_of record_ttl_ms fail_flag retry_deadline_ms metrics stream =
     \<lparr>record_ttl = record_ttl_ms / 1000, fail_if_throttled = fail_flag,
      retry_deadline = retry_deadline_ms / 1000 / 2, rt_metrics = metrics, rt_stream = stream\<rparr>"

definition SHARD_ID_PREFIX :: pystr where "SHARD_ID_PREFIX = lit ''shardId-''"

definition parse_actual_shard_id :: "pystr option \<Rightarrow> pyerr + int option" where
  "parse_actual_shard_id shard =
     (case shard of
        None \<Rightarrow> Inr None
      | Some s \<Rightarrow>
          if s = [] \<or> take (length SHARD_ID_PREFIX) s \<noteq> SHARD_ID_PREFIX then Inr None
          else let suffix = drop (length SHARD_ID_PREFIX) s in
            if \<not> str_isdigit suffix then Inr None
            else ebind (py_int suffix) (\<lambda>n. Inr (Some n)))"

section \<open>Metrics helpers\<close>

definition emit_user_record_success :: "retrier_cfg \<Rightarrow> BufferedRecord \<Rightarrow> pystr option \<Rightarrow> retrier_effect list" where
  "emit_user_record_success cfg x shard =
     (if \<not> rt_metrics cfg then []
      else [RMetric (MetricPut NAME_USER_RECORDS_PUT 1 (rt_stream cfg) shard None),
            RMetric (MetricPut NAME_USER_RECORDS_DATA_PUT (real (length (data (user_record x)))) (rt_stream cfg) shard None),
            RMetric (MetricPut NAME_RETRIES_PER_RECORD (real (max (length (attempts x) - 1) 0)) (rt_stream cfg) shard None)])"

definition emit_kinesis_record_metrics :: "retrier_cfg \<Rightarrow> AggregatedBatch \<Rightarrow> pystr option \<Rightarrow> retrier_effect list" where
  "emit_kinesis_record_metrics cfg b shard =
     (if \<not> rt_metrics cfg then []
      else [RMetric (MetricPut NAME_KINESIS_RECORDS_PUT 1 (rt_stream cfg) shard None),
            RMetric (MetricPut NAME_KINESIS_RECORDS_DATA_PUT (real (size_estimate b)) (rt_stream cfg) shard None)])"

definition emit_error :: "retrier_cfg \<Rightarrow> pystr \<Rightarrow> retrier_effect list" where
  "emit_error cfg code =
     (if \<not> rt_metrics cfg then []
      else [RMetric (MetricPut NAME_ALL_ERRORS 1 (rt_stream cfg) None None),
            RMetric (MetricPut NAME_ERRORS_BY_CODE 1 (rt_stream cfg) None (Some code))])"

section \<open>Terminal helpers\<close>

definition success_attempt :: "SendOutcome \<Rightarrow> PerRecordOutcome \<Rightarrow> Attempt" where
  "success_attempt out po = \<lparr>started_at = so_started_at out, ended_at = so_ended_at out, success = True,
     a_shard_id = po_shard_id po, a_sequence_number = po_sequence_number po, error_code = None, error_message = None\<rparr>"

definition failed_attempt :: "real \<Rightarrow> real \<Rightarrow> pystr \<Rightarrow> pystr \<Rightarrow> Attempt" where
  "failed_attempt t0 t1 code message = \<lparr>started_at = t0, ended_at = t1, success = False,
     a_shard_id = None, a_sequence_number = None, error_code = Some code, error_message = Some message\<rparr>"

definition finish_success :: "retrier_cfg \<Rightarrow> SendOutcome \<Rightarrow> BufferedRecord \<Rightarrow> PerRecordOutcome \<Rightarrow> retrier_effect list" where
  "finish_success cfg out x po =
     (let x = x\<lparr>attempts := attempts x @ [success_attempt out po]\<rparr>;
          result = \<lparr>rr_success = True, rr_shard_id = po_shard_id po, rr_sequence_number = po_sequence_number po,
                    rr_attempts = attempts x\<rparr>
      in emit_user_record_success cfg x (po_shard_id po) @ [OnFinish x result])"

definition failure_result :: "BufferedRecord \<Rightarrow> RecordResult" where
  "failure_result x = \<lparr>rr_success = False, rr_shard_id = None, rr_sequence_number = None, rr_attempts = attempts x\<rparr>"

definition fail :: "retrier_cfg \<Rightarrow> SendOutcome \<Rightarrow> BufferedRecord \<Rightarrow> pystr \<Rightarrow> pystr \<Rightarrow> retrier_effect list" where
  "fail cfg out x code message =
     (let x = x\<lparr>attempts := attempts x @ [failed_attempt (so_started_at out) (so_ended_at out) code message]\<rparr>
      in emit_error cfg code @ [OnFinish x (failure_result x)])"

definition retry_not_expired :: "retrier_cfg \<Rightarrow> real \<Rightarrow> SendOutcome \<Rightarrow> BufferedRecord \<Rightarrow> pystr \<Rightarrow> pystr
    \<Rightarrow> retrier_effect list" where
  "retry_not_expired cfg now out x code message =
     (let x = x\<lparr>attempts := attempts x @ [failed_attempt (so_started_at out) (so_ended_at out) code message]\<rparr> in
      emit_error cfg code @
      (if record_ttl cfg < now - arrival_time x
       then let x = x\<lparr>attempts := attempts x @ [failed_attempt now now EXPIRED_ERROR_CODE EXPIRED_ERROR_MESSAGE]\<rparr>
         in emit_error cfg EXPIRED_ERROR_CODE @ [OnFinish x (failure_result x)]
       else [OnRetry (x\<lparr>deadline := Fin (now + retry_deadline cfg)\<rparr>)]))"

section \<open>Classification\<close>

text \<open>The rule of both error branches for one record.\<close>

definition handle_error :: "retrier_cfg \<Rightarrow> real \<Rightarrow> SendOutcome \<Rightarrow> BufferedRecord \<Rightarrow> pystr \<Rightarrow> pystr \<Rightarrow> retrier_effect list" where
  "handle_error cfg now out x code message =
     (if code = PROVISIONED_THROUGHPUT_EXCEEDED \<and> fail_if_throttled cfg then fail cfg out x code message
      else retry_not_expired cfg now out x code message)"

definition handle_request_error :: "retrier_cfg \<Rightarrow> (nat \<Rightarrow> nat \<Rightarrow> real) \<Rightarrow> SendOutcome \<Rightarrow> pystr \<Rightarrow> pystr \<Rightarrow> retrier_effect list" where
  "handle_request_error cfg clk out code message =
     concat (map (\<lambda>(i, ar). concat (map (\<lambda>(j, x). handle_error cfg (clk i j) out x code message) (enumerate 0 (ab_items ar))))
       (enumerate 0 (batch_items out)))"

text \<open>The loop of \<open>_handle_success\<close> when the prediction was wrong; the flags say whether the batch was
  counted and whether the map was invalidated.\<close>

fun wrong_shard_loop :: "retrier_cfg \<Rightarrow> (nat \<Rightarrow> real) \<Rightarrow> real \<Rightarrow> SendOutcome \<Rightarrow> PerRecordOutcome \<Rightarrow> (int \<times> int) option \<Rightarrow> int
    \<Rightarrow> nat \<Rightarrow> bool \<Rightarrow> bool \<Rightarrow> BufferedRecord list \<Rightarrow> retrier_effect list" where
  "wrong_shard_loop cfg clk inv_at out po rng actual j counted invalidated [] = []"
| "wrong_shard_loop cfg clk inv_at out po rng actual j counted invalidated (x # xs) =
     (let in_range = (case rng of None \<Rightarrow> False | Some (lo, hi) \<Rightarrow> lo \<le> hash_key x \<and> hash_key x \<le> hi) in
      (if in_range
       then (if counted then [] else emit_kinesis_record_metrics cfg (po_batch po) (po_shard_id po))
            @ finish_success cfg out x po
       else retry_not_expired cfg (clk j) out x WRONG_SHARD_ERROR_CODE WRONG_SHARD_ERROR_MESSAGE)
      @ (if invalidated then [] else [Invalidate inv_at actual])
      @ wrong_shard_loop cfg clk inv_at out po rng actual (j + 1) (counted \<or> in_range) True xs)"

definition handle_success :: "retrier_cfg \<Rightarrow> (int \<Rightarrow> (int \<times> int) option) \<Rightarrow> (nat \<Rightarrow> real) \<Rightarrow> real \<Rightarrow> SendOutcome
    \<Rightarrow> PerRecordOutcome \<Rightarrow> pyerr + retrier_effect list" where
  "handle_success cfg hashrange clk inv_at out po =
     ebind (parse_actual_shard_id (po_shard_id po)) (\<lambda>actual_int.
       case (predicted_shard (po_batch po), actual_int) of
         (Some p, Some a) \<Rightarrow>
           if p = a
           then Inr (emit_kinesis_record_metrics cfg (po_batch po) (po_shard_id po)
                  @ concat (map (\<lambda>x. finish_success cfg out x po) (ab_items (po_batch po))))
           else Inr (wrong_shard_loop cfg clk inv_at out po (hashrange a) a 0 False False (ab_items (po_batch po)))
       | _ \<Rightarrow> Inr (emit_kinesis_record_metrics cfg (po_batch po) (po_shard_id po)
                  @ concat (map (\<lambda>x. finish_success cfg out x po) (ab_items (po_batch po)))))"

text \<open>\<open>x or default\<close> on an optional string.\<close>

definition str_or :: "pystr option \<Rightarrow> pystr \<Rightarrow> pystr" where
  "str_or s d = (case s of Some (c # cs) \<Rightarrow> c # cs | _ \<Rightarrow> d)"

definition handle_per_record :: "retrier_cfg \<Rightarrow> (int \<Rightarrow> (int \<times> int) option) \<Rightarrow> (nat \<Rightarrow> real) \<Rightarrow> real \<Rightarrow> SendOutcome
    \<Rightarrow> PerRecordOutcome \<Rightarrow> pyerr + retrier_effect list" where
  "handle_per_record cfg hashrange clk inv_at out po =
     (if po_success po then handle_success cfg hashrange clk inv_at out po
      else let code = str_or (po_error_code po) (lit ''Unknown''); message = str_or (po_error_message po) [] in
        Inr (concat (map (\<lambda>(j, x). handle_error cfg (clk j) out x code message) (enumerate 0 (ab_items (po_batch po))))))"

text \<open>The effects up to the end, or up to the exception that ends the walk.\<close>

fun handle_loop :: "retrier_cfg \<Rightarrow> (nat \<Rightarrow> int \<Rightarrow> (int \<times> int) option) \<Rightarrow> (nat \<Rightarrow> nat \<Rightarrow> real) \<Rightarrow> (nat \<Rightarrow> real) \<Rightarrow> SendOutcome
    \<Rightarrow> nat \<Rightarrow> PerRecordOutcome list \<Rightarrow> retrier_effect list \<times> pyerr option" where
  "handle_loop cfg hashrange clk inv_at out i [] = ([], None)"
| "handle_loop cfg hashrange clk inv_at out i (po # pos) =
     (case handle_per_record cfg (hashrange i) (clk i) (inv_at i) out po of
        Inl e \<Rightarrow> ([], Some e)
      | Inr es \<Rightarrow> (case handle_loop cfg hashrange clk inv_at out (i + 1) pos of (es', e) \<Rightarrow> (es @ es', e)))"

definition handle :: "retrier_cfg \<Rightarrow> (nat \<Rightarrow> int \<Rightarrow> (int \<times> int) option) \<Rightarrow> (nat \<Rightarrow> nat \<Rightarrow> real) \<Rightarrow> (nat \<Rightarrow> real) \<Rightarrow> SendOutcome
    \<Rightarrow> retrier_effect list \<times> pyerr option" where
  "handle cfg hashrange clk inv_at out =
     (case request_error out of
        Some (code, message) \<Rightarrow> (handle_request_error cfg clk out code message, None)
      | None \<Rightarrow> handle_loop cfg hashrange clk inv_at out 0 (per_record out))"

section \<open>The classification table\<close>

text \<open>The table of the module's documentation as a function: what is to be done with a record of a batch.\<close>

datatype verdict = Accept PerRecordOutcome | Reject pystr pystr | Again pystr pystr

definition in_range :: "(int \<times> int) option \<Rightarrow> int \<Rightarrow> bool" where
  "in_range rng h = (case rng of None \<Rightarrow> False | Some (lo, hi) \<Rightarrow> lo \<le> h \<and> h \<le> hi)"

definition error_verdict :: "retrier_cfg \<Rightarrow> pystr \<Rightarrow> pystr \<Rightarrow> verdict" where
  "error_verdict cfg code message =
     (if code = PROVISIONED_THROUGHPUT_EXCEEDED \<and> fail_if_throttled cfg then Reject code message else Again code message)"

definition classify :: "retrier_cfg \<Rightarrow> (int \<Rightarrow> (int \<times> int) option) \<Rightarrow> PerRecordOutcome \<Rightarrow> int option \<Rightarrow> BufferedRecord \<Rightarrow> verdict" where
  "classify cfg hashrange po actual x =
     (if \<not> po_success po
      then error_verdict cfg (str_or (po_error_code po) (lit ''Unknown'')) (str_or (po_error_message po) [])
      else case (predicted_shard (po_batch po), actual) of
        (Some p, Some a) \<Rightarrow>
          if p = a \<or> in_range (hashrange a) (hash_key x) then Accept po
          else Again WRONG_SHARD_ERROR_CODE WRONG_SHARD_ERROR_MESSAGE
      | _ \<Rightarrow> Accept po)"

text \<open>What a verdict means for the record: one terminal callback.\<close>

definition executed :: "retrier_cfg \<Rightarrow> real \<Rightarrow> SendOutcome \<Rightarrow> BufferedRecord \<Rightarrow> verdict \<Rightarrow> retrier_effect" where
  "executed cfg now out x v =
     (case v of
        Accept po \<Rightarrow>
          OnFinish (x\<lparr>attempts := attempts x @ [success_attempt out po]\<rparr>)
            \<lparr>rr_success = True, rr_shard_id = po_shard_id po, rr_sequence_number = po_sequence_number po,
             rr_attempts = attempts x @ [success_attempt out po]\<rparr>
      | Reject c m \<Rightarrow>
          (let y = x\<lparr>attempts := attempts x @ [failed_attempt (so_started_at out) (so_ended_at out) c m]\<rparr>
           in OnFinish y (failure_result y))
      | Again c m \<Rightarrow>
          (let y = x\<lparr>attempts := attempts x @ [failed_attempt (so_started_at out) (so_ended_at out) c m]\<rparr> in
           if record_ttl cfg < now - arrival_time x
           then let z = y\<lparr>attempts := attempts y @ [failed_attempt now now EXPIRED_ERROR_CODE EXPIRED_ERROR_MESSAGE]\<rparr>
             in OnFinish z (failure_result z)
           else OnRetry (y\<lparr>deadline := Fin (now + retry_deadline cfg)\<rparr>)))"

fun terminal :: "retrier_effect \<Rightarrow> bool" where
  "terminal (OnFinish x r) = True"
| "terminal (OnRetry x) = True"
| "terminal _ = False"

definition verdicts :: "retrier_effect list \<Rightarrow> retrier_effect list" where
  "verdicts es = filter terminal es"

definition invalidations :: "retrier_effect list \<Rightarrow> int list" where
  "invalidations es = List.map_filter (\<lambda>e. case e of Invalidate t a \<Rightarrow> Some a | _ \<Rightarrow> None) es"

lemma verdicts_append [simp]: "verdicts (xs @ ys) = verdicts xs @ verdicts ys" "verdicts [] = []"
  by (simp_all add: verdicts_def)

lemma verdicts_concat: "verdicts (concat xss) = concat (map verdicts xss)"
  by (induction xss) simp_all

lemma invalidations_append [simp]:
  "invalidations (xs @ ys) = invalidations xs @ invalidations ys" "invalidations [] = []"
  "invalidations [Invalidate t a] = [a]"
  by (simp_all add: invalidations_def map_filter_def)

lemma verdicts_emit [simp]:
  "verdicts (emit_error cfg c) = []" "verdicts (emit_kinesis_record_metrics cfg b sh) = []"
  "verdicts (emit_user_record_success cfg x sh) = []" "verdicts [Invalidate t a] = []"
  by (simp_all add: verdicts_def emit_error_def emit_kinesis_record_metrics_def emit_user_record_success_def)

lemma invalidations_emit [simp]:
  "invalidations (emit_error cfg c) = []" "invalidations (emit_kinesis_record_metrics cfg b sh) = []"
  "invalidations (emit_user_record_success cfg x sh) = []" "invalidations [OnFinish y r] = []" "invalidations [OnRetry y] = []"
  by (simp_all add: invalidations_def map_filter_def emit_error_def emit_kinesis_record_metrics_def emit_user_record_success_def)

lemma verdicts_single [simp]: "verdicts [OnFinish y r] = [OnFinish y r]" "verdicts [OnRetry y] = [OnRetry y]"
  by (simp_all add: verdicts_def)

lemma verdicts_helpers:
  "verdicts (finish_success cfg out x po) = [executed cfg now out x (Accept po)]"
  "verdicts (fail cfg out x c m) = [executed cfg now out x (Reject c m)]"
  "verdicts (retry_not_expired cfg now out x c m) = [executed cfg now out x (Again c m)]"
  by (simp_all add: finish_success_def fail_def retry_not_expired_def executed_def Let_def)

lemma invalidations_helpers [simp]:
  "invalidations (finish_success cfg out x po) = []" "invalidations (fail cfg out x c m) = []"
  "invalidations (retry_not_expired cfg now out x c m) = []" "invalidations (handle_error cfg now out x c m) = []"
  by (simp_all add: finish_success_def fail_def retry_not_expired_def handle_error_def Let_def)

lemma verdicts_handle_error:
  "verdicts (handle_error cfg now out x c m) = [executed cfg now out x (error_verdict cfg c m)]"
proof (cases "c = PROVISIONED_THROUGHPUT_EXCEEDED \<and> fail_if_throttled cfg")
  case True
  then have "handle_error cfg now out x c m = fail cfg out x c m" "error_verdict cfg c m = Reject c m"
    unfolding handle_error_def error_verdict_def by simp_all
  then show ?thesis using verdicts_helpers(2) [of cfg out x c m now] by simp
next
  case False
  then have "handle_error cfg now out x c m = retry_not_expired cfg now out x c m" "error_verdict cfg c m = Again c m"
    unfolding handle_error_def error_verdict_def by auto
  then show ?thesis using verdicts_helpers(3) [of cfg now out x c m] by simp
qed

text \<open>One round of the loop, with the test written as \<open>in_range\<close>.\<close>

lemma wrong_shard_loop_Cons:
  "wrong_shard_loop cfg clk inv_at out po rng a j counted invd (x # xs) =
     (if in_range rng (hash_key x)
      then (if counted then [] else emit_kinesis_record_metrics cfg (po_batch po) (po_shard_id po))
           @ finish_success cfg out x po
      else retry_not_expired cfg (clk j) out x WRONG_SHARD_ERROR_CODE WRONG_SHARD_ERROR_MESSAGE)
     @ (if invd then [] else [Invalidate inv_at a])
     @ wrong_shard_loop cfg clk inv_at out po rng a (Suc j) (counted \<or> in_range rng (hash_key x)) True xs"
  by (simp add: in_range_def Let_def)

declare wrong_shard_loop.simps(2) [simp del]

lemma wrong_shard_loop_verdicts:
  "verdicts (wrong_shard_loop cfg clk inv_at out po rng a j counted invd xs) =
     map (\<lambda>(i, x). executed cfg (clk i) out x
       (if in_range rng (hash_key x) then Accept po else Again WRONG_SHARD_ERROR_CODE WRONG_SHARD_ERROR_MESSAGE))
       (enumerate j xs)"
proof (induction xs arbitrary: j counted invd)
  case (Cons x xs)
  have "verdicts (if counted then [] else emit_kinesis_record_metrics cfg (po_batch po) (po_shard_id po)) = []"
    "verdicts (if invd then [] else [Invalidate inv_at a]) = []" by simp_all
  with verdicts_helpers(1) [of cfg out x po "clk j"]
    verdicts_helpers(3) [of cfg "clk j" out x WRONG_SHARD_ERROR_CODE WRONG_SHARD_ERROR_MESSAGE]
  show ?case by (simp add: wrong_shard_loop_Cons Cons.IH)
qed simp

lemma wrong_shard_loop_invalidations:
  "invalidations (wrong_shard_loop cfg clk inv_at out po rng a j counted invd xs) = (if invd \<or> xs = [] then [] else [a])"
proof (induction xs arbitrary: j counted invd)
  case (Cons x xs)
  have "invalidations (if counted then [] else emit_kinesis_record_metrics cfg (po_batch po) (po_shard_id po)) = []"
    "invalidations (if invd then [] else [Invalidate inv_at a]) = (if invd then [] else [a])" by simp_all
  then show ?case by (simp add: wrong_shard_loop_Cons Cons.IH)
qed simp

definition mispredicted :: "PerRecordOutcome \<Rightarrow> int option \<Rightarrow> int list" where
  "mispredicted po actual =
     (if \<not> po_success po \<or> ab_items (po_batch po) = [] then []
      else case (predicted_shard (po_batch po), actual) of
        (Some p, Some a) \<Rightarrow> if p = a then [] else [a] | _ \<Rightarrow> [])"

lemma map_enumerate_const: "map (\<lambda>x. f x) xs = map (\<lambda>(i, x). f x) (enumerate j xs)"
  by (induction xs arbitrary: j) simp_all

lemma handle_success_verdicts:
  assumes "po_success po" "parse_actual_shard_id (po_shard_id po) = Inr actual"
    "handle_success cfg hashrange clk inv_at out po = Inr es"
  shows "verdicts es = map (\<lambda>(j, x). executed cfg (clk j) out x (classify cfg hashrange po actual x))
      (enumerate 0 (ab_items (po_batch po)))"
    and "invalidations es = mispredicted po actual"
proof -
  let ?acc = "emit_kinesis_record_metrics cfg (po_batch po) (po_shard_id po)
      @ concat (map (\<lambda>x. finish_success cfg out x po) (ab_items (po_batch po)))"
  have acc: "verdicts ?acc = map (\<lambda>(j, x). executed cfg (clk j) out x (Accept po)) (enumerate 0 (ab_items (po_batch po)))"
  proof -
    have "verdicts (concat (map (\<lambda>x. finish_success cfg out x po) xs))
        = map (\<lambda>(j, x). executed cfg (clk j) out x (Accept po)) (enumerate n xs)" for xs n
      by (induction xs arbitrary: n) (simp_all add: verdicts_helpers(1) [of _ _ _ _ "clk _"])
    then show ?thesis by simp
  qed
  have inv: "invalidations ?acc = []"
  proof -
    have "invalidations (concat (map (\<lambda>x. finish_success cfg out x po) xs)) = []" for xs
      by (induction xs) simp_all
    then show ?thesis by simp
  qed
  show "verdicts es = map (\<lambda>(j, x). executed cfg (clk j) out x (classify cfg hashrange po actual x))
      (enumerate 0 (ab_items (po_batch po)))"
    using assms acc wrong_shard_loop_verdicts
    by (auto simp: handle_success_def classify_def split: option.splits if_splits)
  show "invalidations es = mispredicted po actual"
    using assms inv wrong_shard_loop_invalidations
    by (auto simp: handle_success_def mispredicted_def split: option.splits if_splits)
qed

lemma error_walk:
  "verdicts (concat (map (\<lambda>(j, x). handle_error cfg (clk j) out x c m) (enumerate n xs))) =
     map (\<lambda>(j, x). executed cfg (clk j) out x (error_verdict cfg c m)) (enumerate n xs)"
  "invalidations (concat (map (\<lambda>(j, x). handle_error cfg (clk j) out x c m) (enumerate n xs))) = []"
  by (induction xs arbitrary: n) (simp_all add: verdicts_handle_error)

text \<open>The shard number that the retrier reads from an entry.\<close>

definition actual_shard :: "PerRecordOutcome \<Rightarrow> int option" where
  "actual_shard po = (case parse_actual_shard_id (po_shard_id po) of Inr a \<Rightarrow> a | Inl e \<Rightarrow> None)"

definition readable :: "PerRecordOutcome \<Rightarrow> bool" where
  "readable po \<longleftrightarrow> po_success po \<longrightarrow> \<not> isl (parse_actual_shard_id (po_shard_id po))"

lemma handle_per_record_total: "\<not> isl (handle_per_record cfg hashrange clk inv_at out po) \<longleftrightarrow> readable po"
  by (cases "parse_actual_shard_id (po_shard_id po)")
    (auto simp: handle_per_record_def handle_success_def readable_def Let_def split: option.splits)

lemma handle_per_record_verdicts:
  assumes "handle_per_record cfg hashrange clk inv_at out po = Inr es"
  shows "verdicts es = map (\<lambda>(j, x). executed cfg (clk j) out x (classify cfg hashrange po (actual_shard po) x))
      (enumerate 0 (ab_items (po_batch po)))"
    and "invalidations es = mispredicted po (actual_shard po)"
  using assms handle_success_verdicts [of po "actual_shard po" cfg hashrange clk inv_at out es]
  by (auto simp: handle_per_record_def handle_success_def classify_def mispredicted_def actual_shard_def
      error_walk Let_def split: sum.splits if_splits)

text \<open>The walk over the entries, as the table has it.\<close>

definition table_verdicts :: "retrier_cfg \<Rightarrow> (nat \<Rightarrow> int \<Rightarrow> (int \<times> int) option) \<Rightarrow> (nat \<Rightarrow> nat \<Rightarrow> real) \<Rightarrow> SendOutcome
    \<Rightarrow> nat \<Rightarrow> PerRecordOutcome list \<Rightarrow> retrier_effect list" where
  "table_verdicts cfg hashrange clk out i pos =
     concat (map (\<lambda>(i, po). map (\<lambda>(j, x). executed cfg (clk i j) out x (classify cfg (hashrange i) po (actual_shard po) x))
       (enumerate 0 (ab_items (po_batch po)))) (enumerate i pos))"

lemma handle_loop_table:
  "list_all readable pos \<Longrightarrow> snd (handle_loop cfg hashrange clk inv_at out i pos) = None
    \<and> verdicts (fst (handle_loop cfg hashrange clk inv_at out i pos)) = table_verdicts cfg hashrange clk out i pos
    \<and> invalidations (fst (handle_loop cfg hashrange clk inv_at out i pos))
       = concat (map (\<lambda>po. mispredicted po (actual_shard po)) pos)"
proof (induction pos arbitrary: i)
  case (Cons po pos)
  then obtain es where es: "handle_per_record cfg (hashrange i) (clk i) (inv_at i) out po = Inr es"
    using handle_per_record_total [of cfg "hashrange i" "clk i" "inv_at i" out po]
    by (cases "handle_per_record cfg (hashrange i) (clk i) (inv_at i) out po") auto
  from Cons.IH [of "Suc i"] Cons.prems handle_per_record_verdicts [OF es] show ?case
    by (simp add: es table_verdicts_def split_beta)
qed (simp add: table_verdicts_def)

text \<open>An entry whose shard id cannot be read ends the walk.\<close>

lemma handle_loop_stops:
  "list_all readable pre \<Longrightarrow> \<not> readable po \<Longrightarrow>
   verdicts (fst (handle_loop cfg hashrange clk inv_at out i (pre @ po # post))) = table_verdicts cfg hashrange clk out i pre
    \<and> snd (handle_loop cfg hashrange clk inv_at out i (pre @ po # post)) \<noteq> None"
proof (induction pre arbitrary: i)
  case Nil
  then obtain e where "handle_per_record cfg (hashrange i) (clk i) (inv_at i) out po = Inl e"
    using handle_per_record_total [of cfg "hashrange i" "clk i" "inv_at i" out po]
    by (cases "handle_per_record cfg (hashrange i) (clk i) (inv_at i) out po") auto
  then show ?case by (simp add: table_verdicts_def)
next
  case (Cons po' pre)
  then obtain es where es: "handle_per_record cfg (hashrange i) (clk i) (inv_at i) out po' = Inr es"
    using handle_per_record_total [of cfg "hashrange i" "clk i" "inv_at i" out po']
    by (cases "handle_per_record cfg (hashrange i) (clk i) (inv_at i) out po'") auto
  from Cons.IH [of "Suc i"] Cons.prems handle_per_record_verdicts [OF es] show ?case
    by (simp add: es table_verdicts_def split_beta)
qed

lemma request_error_walk:
  "verdicts (handle_request_error cfg clk out c m) =
     concat (map (\<lambda>(i, b). map (\<lambda>(j, x). executed cfg (clk i j) out x (error_verdict cfg c m)) (enumerate 0 (ab_items b)))
       (enumerate 0 (batch_items out)))"
  "invalidations (handle_request_error cfg clk out c m) = []"
proof -
  have "verdicts (concat (map (\<lambda>(i, ar). concat (map (\<lambda>(j, x). handle_error cfg (clk i j) out x c m) (enumerate 0 (ab_items ar))))
       (enumerate n bs))) = concat (map (\<lambda>(i, b). map (\<lambda>(j, x). executed cfg (clk i j) out x (error_verdict cfg c m)) (enumerate 0 (ab_items b)))
       (enumerate n bs))"
    "invalidations (concat (map (\<lambda>(i, ar). concat (map (\<lambda>(j, x). handle_error cfg (clk i j) out x c m) (enumerate 0 (ab_items ar))))
       (enumerate n bs))) = []" for n and bs :: "AggregatedBatch list"
    by (induction bs arbitrary: n) (simp_all add: error_walk)
  then show "verdicts (handle_request_error cfg clk out c m) =
     concat (map (\<lambda>(i, b). map (\<lambda>(j, x). executed cfg (clk i j) out x (error_verdict cfg c m)) (enumerate 0 (ab_items b)))
       (enumerate 0 (batch_items out)))" "invalidations (handle_request_error cfg clk out c m) = []"
    by (simp_all only: handle_request_error_def)
qed

section \<open>One verdict per record\<close>

text \<open>The records that an outcome speaks of.\<close>

definition outcome_records :: "SendOutcome \<Rightarrow> BufferedRecord list" where
  "outcome_records out =
     (if request_error out = None then concat (map (\<lambda>po. ab_items (po_batch po)) (per_record out))
      else concat (map ab_items (batch_items out)))"

text \<open>A callback is about the record \<open>x\<close>: the same object with its identity and its history, to which
  one attempt was added, or two when the record expired.  A finish reports that history, and success
  exactly when the last attempt succeeded; a retry comes within the time to live and has a new deadline.\<close>

definition same_record :: "BufferedRecord \<Rightarrow> BufferedRecord \<Rightarrow> bool" where
  "same_record x y \<longleftrightarrow> obj y = obj x \<and> user_record y = user_record x \<and> hash_key y = hash_key x
     \<and> arrival_time y = arrival_time x \<and> take (length (attempts x)) (attempts y) = attempts x
     \<and> length (attempts y) \<in> {length (attempts x) + 1, length (attempts x) + 2}"

fun follows :: "retrier_cfg \<Rightarrow> BufferedRecord \<Rightarrow> retrier_effect \<Rightarrow> bool" where
  "follows cfg x (OnFinish y r) \<longleftrightarrow> same_record x y \<and> deadline y = deadline x \<and> rr_attempts r = attempts y
     \<and> rr_success r = success (last (attempts y))
     \<and> rr_shard_id r = a_shard_id (last (attempts y)) \<and> rr_sequence_number r = a_sequence_number (last (attempts y))"
| "follows cfg x (OnRetry y) \<longleftrightarrow> same_record x y \<and> \<not> success (last (attempts y))
     \<and> (\<exists>now. now - arrival_time x \<le> record_ttl cfg \<and> deadline y = Fin (now + retry_deadline cfg))"
| "follows cfg x _ \<longleftrightarrow> False"

lemma follows_executed: "follows cfg x (executed cfg now out x v)"
  by (cases v) (auto simp: executed_def same_record_def failure_result_def success_attempt_def failed_attempt_def Let_def)

lemma list_all2_enumerate_map:
  "(\<And>j x. P x (f j x)) \<Longrightarrow> list_all2 P xs (map (\<lambda>(j, x). f j x) (enumerate n xs))"
  by (induction xs arbitrary: n) simp_all

lemma list_all2_concat_enumerate:
  "(\<And>i y. list_all2 P (g y) (f i y)) \<Longrightarrow>
   list_all2 P (concat (map g ys)) (concat (map (\<lambda>(i, y). f i y) (enumerate n ys)))"
  by (induction ys arbitrary: n) (simp_all add: list_all2_appendI)

lemma handle_follows:
  assumes "list_all readable (per_record out)"
  shows "snd (handle cfg hashrange clk inv_at out) = None
    \<and> list_all2 (follows cfg) (outcome_records out) (verdicts (fst (handle cfg hashrange clk inv_at out)))"
proof (cases "request_error out")
  case None
  have "list_all2 (follows cfg) (concat (map (\<lambda>po. ab_items (po_batch po)) (per_record out)))
      (table_verdicts cfg hashrange clk out 0 (per_record out))"
    unfolding table_verdicts_def
    by (intro list_all2_concat_enumerate list_all2_enumerate_map follows_executed)
  with None handle_loop_table [OF assms, of cfg hashrange clk inv_at out 0] show ?thesis
    by (simp add: handle_def outcome_records_def)
next
  case (Some cm)
  have "list_all2 (follows cfg) (concat (map ab_items (batch_items out)))
      (verdicts (handle_request_error cfg clk out c m))" for c m
    unfolding request_error_walk
    by (intro list_all2_concat_enumerate list_all2_enumerate_map follows_executed)
  with Some show ?thesis by (simp add: handle_def outcome_records_def split: prod.splits)
qed

text \<open>The history a callback carries on: failed attempts only, or a terminal result.\<close>

fun carries :: "retrier_effect \<Rightarrow> bool" where
  "carries (OnFinish y r) \<longleftrightarrow> result_ok r"
| "carries (OnRetry y) \<longleftrightarrow> list_all failed_try (attempts y)"
| "carries _ \<longleftrightarrow> True"

lemma executed_carries: "list_all failed_try (attempts x) \<Longrightarrow> carries (executed cfg now out x v)"
  by (cases v) (auto simp: executed_def result_ok_def failed_try_def failure_result_def success_attempt_def failed_attempt_def Let_def butlast_append)

text \<open>After the time to live only finishes are left.\<close>

fun finishes :: "retrier_effect \<Rightarrow> bool" where
  "finishes (OnFinish x r) = True"
| "finishes _ = False"

lemma executed_late: "record_ttl cfg < now - arrival_time x \<Longrightarrow> finishes (executed cfg now out x v)"
  by (cases v) (auto simp: executed_def Let_def)

lemma list_all_enumerate_map:
  "(\<And>j x. x \<in> set xs \<Longrightarrow> P (f j x)) \<Longrightarrow> list_all P (map (\<lambda>(j, x). f j x) (enumerate n xs))"
  by (induction xs arbitrary: n) simp_all

lemma list_all_concat_enumerate:
  "(\<And>i y. y \<in> set ys \<Longrightarrow> list_all P (f i y)) \<Longrightarrow> list_all P (concat (map (\<lambda>(i, y). f i y) (enumerate n ys)))"
  by (induction ys arbitrary: n) simp_all

lemma handle_carries:
  assumes "list_all readable (per_record out)" "list_all (\<lambda>x. list_all failed_try (attempts x)) (outcome_records out)"
  shows "list_all carries (verdicts (fst (handle cfg hashrange clk inv_at out)))"
proof (cases "request_error out")
  case None
  have "list_all carries (table_verdicts cfg hashrange clk out 0 (per_record out))"
    unfolding table_verdicts_def using assms(2) None
    by (intro list_all_concat_enumerate list_all_enumerate_map executed_carries) (auto simp: outcome_records_def list_all_iff)
  with None handle_loop_table [OF assms(1), of cfg hashrange clk inv_at out 0] show ?thesis by (simp add: handle_def)
next
  case (Some cm)
  have "list_all carries (verdicts (handle_request_error cfg clk out c m))" for c m
    unfolding request_error_walk using assms(2) Some
    by (intro list_all_concat_enumerate list_all_enumerate_map executed_carries) (auto simp: outcome_records_def list_all_iff)
  with Some show ?thesis by (simp add: handle_def split: prod.splits)
qed

lemma handle_late:
  assumes "list_all readable (per_record out)"
    "\<And>i j x. x \<in> set (outcome_records out) \<Longrightarrow> record_ttl cfg < clk i j - arrival_time x"
  shows "list_all finishes (verdicts (fst (handle cfg hashrange clk inv_at out)))"
proof (cases "request_error out")
  case None
  have "list_all finishes (table_verdicts cfg hashrange clk out 0 (per_record out))"
    unfolding table_verdicts_def using assms(2) None
    by (intro list_all_concat_enumerate list_all_enumerate_map executed_late) (auto simp: outcome_records_def)
  with None handle_loop_table [OF assms(1), of cfg hashrange clk inv_at out 0] show ?thesis by (simp add: handle_def)
next
  case (Some cm)
  have "list_all finishes (verdicts (handle_request_error cfg clk out c m))" for c m
    unfolding request_error_walk using assms(2) Some
    by (intro list_all_concat_enumerate list_all_enumerate_map executed_late) (auto simp: outcome_records_def)
  with Some show ?thesis by (simp add: handle_def split: prod.splits)
qed

section \<open>Shard ids\<close>

lemma parse_actual_shard_id_suffix:
  "parse_actual_shard_id (Some (SHARD_ID_PREFIX @ ds)) =
     (if str_isdigit ds then ebind (py_int ds) (\<lambda>n. Inr (Some n)) else Inr None)"
  by (simp add: parse_actual_shard_id_def SHARD_ID_PREFIX_def lit_def)

lemma parse_actual_shard_id_digits:
  assumes "ds \<noteq> []" "list_all ascii_digit ds" "length ds \<le> int_max_str_digits"
  shows "parse_actual_shard_id (Some (SHARD_ID_PREFIX @ ds)) = Inr (Some (int (digits_value 0 (map (\<lambda>c. c - 0x30) ds))))"
proof -
  have "str_isdigit ds" using assms(1,2) by (auto simp: str_isdigit_def list_all_iff)
  then show ?thesis by (simp add: parse_actual_shard_id_suffix py_int_ascii [OF assms])
qed

text \<open>The prefix followed by characters that are all digits for \<open>isdigit\<close> and that \<open>int\<close> refuses.\<close>

definition unreadable_id :: "pystr \<Rightarrow> bool" where
  "unreadable_id s \<longleftrightarrow> take (length SHARD_ID_PREFIX) s = SHARD_ID_PREFIX
     \<and> str_isdigit (drop (length SHARD_ID_PREFIX) s)
     \<and> (\<not> list_all (\<lambda>c. decimal_value c \<noteq> None) (drop (length SHARD_ID_PREFIX) s)
        \<or> int_max_str_digits < length (drop (length SHARD_ID_PREFIX) s))"

lemma unreadable_iff: "isl (parse_actual_shard_id (Some s)) \<longleftrightarrow> unreadable_id s"
  by (auto simp: parse_actual_shard_id_def unreadable_id_def py_int_def SHARD_ID_PREFIX_def lit_def str_isdigit_def Let_def)

section \<open>Properties\<close>

text \<open>C9.  \<open>Retrier.handle\<close> executes the documented classification table.  For an outcome with a request
  error the throttle rule is applied to every record of every batch; otherwise each entry's records are
  classified by \<open>classify\<close> (accept, reject, or again), from the entry, the predicted shard and the range
  of the actual shard.  The callbacks are exactly those the table asks for, in order, and the shard map is
  invalidated exactly once for every entry whose prediction was wrong, with the actual shard.\<close>

theorem retrier_classification:
  assumes "list_all readable (per_record out)"
  shows "snd (handle cfg hashrange clk inv_at out) = None
    \<and> verdicts (fst (handle cfg hashrange clk inv_at out)) =
        (case request_error out of
           Some (c, m) \<Rightarrow> concat (map (\<lambda>(i, b). map (\<lambda>(j, x). executed cfg (clk i j) out x (error_verdict cfg c m))
             (enumerate 0 (ab_items b))) (enumerate 0 (batch_items out)))
         | None \<Rightarrow> table_verdicts cfg hashrange clk out 0 (per_record out))
    \<and> invalidations (fst (handle cfg hashrange clk inv_at out)) =
        (case request_error out of
           Some _ \<Rightarrow> [] | None \<Rightarrow> concat (map (\<lambda>po. mispredicted po (actual_shard po)) (per_record out)))"
  using handle_loop_table [OF assms, of cfg hashrange clk inv_at out 0]
  by (auto simp: handle_def request_error_walk split: option.splits prod.splits)

definition demo_split :: SendOutcome where
  "demo_split = \<lparr>so_stream = lit ''s'', so_started_at = 10, so_ended_at = 11, request_error = None,
     per_record = [\<lparr>po_batch = \<lparr>predicted_shard = Some 3, ab_items = [demo_buf 0, demo_buf 1], size_estimate = 20,
         pk_set = {}, ehk_set = {}\<rparr>,
       po_success = True, po_shard_id = Some (SHARD_ID_PREFIX @ [0x30, 0x34]), po_sequence_number = Some (lit ''7''),
       po_error_code = None, po_error_message = None\<rparr>],
     batch_items = []\<rparr>"

definition demo_rcfg :: retrier_cfg where
  "demo_rcfg = retrier_cfg_of 30000 False 50 False None"

lemma demo_parse: "parse_actual_shard_id (Some (SHARD_ID_PREFIX @ [0x30, 0x34])) = Inr (Some 4)"
  by (simp add: parse_actual_shard_id_digits ascii_digit_def int_max_str_digits_def)

lemma demo_split_readable: "list_all readable (per_record demo_split)"
  by (simp add: demo_split_def readable_def demo_parse)

theorem retrier_classification_witness:
  "invalidations (fst (handle demo_rcfg (\<lambda>_ _. None) (\<lambda>_ _. 12) (\<lambda>_. 12) demo_split)) = [4]"
  using retrier_classification [OF demo_split_readable, of demo_rcfg "\<lambda>_ _. None" "\<lambda>_ _. 12" "\<lambda>_. 12"]
  by (simp add: demo_split_def mispredicted_def actual_shard_def demo_parse)

text \<open>C10.  No record is lost or answered twice by the retrier: for every outcome whose shard ids can be
  read, \<open>handle\<close> makes exactly one callback for each record the outcome speaks of, in order.  The callback
  is about that very record, with its earlier attempts kept and the new ones added at the end; a finish
  reports the whole history and succeeds exactly when the last attempt did; a retry happens only within
  the record's time to live, after a failed attempt, and with the shortened deadline.\<close>

theorem retrier_one_verdict:
  assumes "list_all readable (per_record out)"
  shows "list_all2 (follows cfg) (outcome_records out) (verdicts (fst (handle cfg hashrange clk inv_at out)))"
  using handle_follows [OF assms, of cfg hashrange clk inv_at] by blast

theorem retrier_one_verdict_witness:
  "length (verdicts (fst (handle demo_rcfg (\<lambda>_ _. None) (\<lambda>_ _. 12) (\<lambda>_. 12) demo_split))) = 2"
proof -
  have "length (outcome_records demo_split) = 2" by (simp add: outcome_records_def demo_split_def)
  with list_all2_lengthD [OF retrier_one_verdict [OF demo_split_readable, of demo_rcfg "\<lambda>_ _. None" "\<lambda>_ _. 12" "\<lambda>_. 12"]]
  show ?thesis by simp
qed


definition demo_superscript :: SendOutcome where
  "demo_superscript = demo_split\<lparr>per_record :=
     map (\<lambda>po. po\<lparr>po_shard_id := Some (SHARD_ID_PREFIX @ [0xB2])\<rparr>) (per_record demo_split)\<rparr>"


end
