(* ===== verification/Token_Bucket.thy ===== *)
theory Token_Bucket
  imports Prelude
begin

text \<open>
  Model of \<^verbatim>\<open>src/aiokpl/token_bucket.py\<close>.  A bucket is the list of its streams.  The injected
  clock is read once for every stream that a call grows, so an operation takes the readings of
  its call as a function \<open>clk\<close> from the position of the stream.  Shown: the fill level stays
  between zero and the maximum, a take is all or nothing, and however the takes are spread, what
  a stream has given out is bounded by its capacity plus its rate times the elapsed time.
\<close>

record Stream =
  rate :: real
  max_tokens :: real
  tokens :: real
  last_at :: real

type_synonym bucket = "Stream list"

definition bucket_init :: "(real \<times> real) list \<Rightarrow> real \<Rightarrow> bool \<Rightarrow> bucket" where
  "bucket_init streams now initial_full =
     map (\<lambda>(r, m). \<lparr>rate = r, max_tokens = m, tokens = (if initial_full then m else 0),
       last_at = now\<rparr>) streams"

definition stream_count :: "bucket \<Rightarrow> nat" where
  "stream_count b = length b"

definition grow :: "real \<Rightarrow> Stream \<Rightarrow> Stream" where
  "grow now s =
     (let growth = rate s * (now - last_at s) in
      if growth > 0
      then s\<lparr>tokens := min (max_tokens s) (tokens s + growth), last_at := now\<rparr>
      else s)"

text \<open>List indexing as Python has it: a negative index counts from the end.\<close>

definition available :: "real \<Rightarrow> int \<Rightarrow> bucket \<Rightarrow> pyerr + real \<times> bucket" where
  "available now idx b =
     (let n = int (length b); j = (if idx < 0 then n + idx else idx) in
      if 0 \<le> j \<and> j < n
      then let s = grow now (b ! nat j) in Inr (tokens s, b[nat j := s])
      else Inl IndexError)"

text \<open>The first loop of \<open>try_take\<close>: grow and compare, stopping at the first shortage.\<close>

fun grow_check :: "(nat \<Rightarrow> real) \<Rightarrow> nat \<Rightarrow> bucket \<Rightarrow> real list \<Rightarrow> bool \<times> bucket" where
  "grow_check clk i (s # ss) (a # as) =
     (let s' = grow (clk i) s in
      if a > tokens s' then (False, s' # ss)
      else (case grow_check clk (Suc i) ss as of (ok, ss') \<Rightarrow> (ok, s' # ss')))"
| "grow_check clk i ss as = (True, ss)"

definition debit :: "bucket \<Rightarrow> real list \<Rightarrow> bucket" where
  "debit b amounts = map2 (\<lambda>s a. s\<lparr>tokens := tokens s - a\<rparr>) b amounts"

definition try_take :: "(nat \<Rightarrow> real) \<Rightarrow> real list \<Rightarrow> bucket \<Rightarrow> pyerr + bool \<times> bucket" where
  "try_take clk amounts b =
     (if length amounts \<noteq> length b then Inl (ValueError ''amounts has the wrong length'')
      else if list_ex (\<lambda>a. a < 0) amounts then Inl (ValueError ''negative amount'')
      else case grow_check clk 0 b amounts of
        (False, b') \<Rightarrow> Inr (False, b')
      | (True, b') \<Rightarrow> Inr (True, debit b' amounts))"

section \<open>Growth\<close>

definition stream_ok :: "Stream \<Rightarrow> bool" where
  "stream_ok s \<longleftrightarrow> 0 \<le> rate s \<and> 0 \<le> tokens s \<and> tokens s \<le> max_tokens s"

definition bucket_ok :: "bucket \<Rightarrow> bool" where
  "bucket_ok b \<longleftrightarrow> list_all stream_ok b"

lemma grow_frame [simp]: "rate (grow now s) = rate s" "max_tokens (grow now s) = max_tokens s"
  by (simp_all add: grow_def Let_def)

lemma grow_ok: "stream_ok s \<Longrightarrow> stream_ok (grow now s)"
  by (auto simp: grow_def stream_ok_def Let_def)

lemma grow_mono: "stream_ok s \<Longrightarrow> tokens s \<le> tokens (grow now s)"
  by (auto simp: grow_def stream_ok_def Let_def)

text \<open>Growth never credits more than the rate times the time that the stream then accounts for,
  and the stream's own time stamp never runs ahead of the clock.\<close>

lemma grow_credit:
  "0 \<le> rate s \<Longrightarrow> tokens (grow now s) - tokens s \<le> rate s * (last_at (grow now s) - last_at s)"
  by (auto simp: grow_def Let_def)

lemma grow_last: "last_at s \<le> now \<Longrightarrow> last_at s \<le> last_at (grow now s) \<and> last_at (grow now s) \<le> now"
  by (auto simp: grow_def Let_def)

lemma grow_full_rate:
  "0 < rate s \<Longrightarrow> last_at s \<le> now \<Longrightarrow> tokens s \<le> max_tokens s \<Longrightarrow>
   tokens (grow now s) = min (max_tokens s) (tokens s + rate s * (now - last_at s))"
  by (cases "now = last_at s") (auto simp: grow_def Let_def)

lemma grow_twice: "grow now (grow now s) = grow now s"
  by (auto simp: grow_def Let_def)

section \<open>The two loops of a take\<close>

lemma grow_check_length: "snd (grow_check clk i b as) = b' \<Longrightarrow> length b' = length b"
  by (induction clk i b as arbitrary: b' rule: grow_check.induct)
    (auto simp: Let_def split: prod.splits if_splits)

lemma grow_check_ok: "list_all stream_ok b \<Longrightarrow> list_all stream_ok (snd (grow_check clk i b as))"
  by (induction clk i b as rule: grow_check.induct)
    (auto simp: Let_def grow_ok split: prod.splits)

text \<open>Every stream grown at its own reading of the clock.\<close>

fun grow_all :: "(nat \<Rightarrow> real) \<Rightarrow> nat \<Rightarrow> bucket \<Rightarrow> bucket" where
  "grow_all clk i [] = []"
| "grow_all clk i (s # ss) = grow (clk i) s # grow_all clk (Suc i) ss"

definition covers :: "bucket \<Rightarrow> real list \<Rightarrow> bool" where
  "covers b amounts \<longleftrightarrow> list_all2 (\<lambda>s a. a \<le> tokens s) b amounts"

lemma length_grow_all [simp]: "length (grow_all clk i b) = length b"
  by (induction b arbitrary: i) auto

lemma grow_all_ok: "list_all stream_ok b \<Longrightarrow> list_all stream_ok (grow_all clk i b)"
  by (induction b arbitrary: i) (auto simp: grow_ok)

text \<open>The first loop succeeds exactly when the grown streams cover the amounts, and then it has
  grown them all; when it fails it has grown a prefix and changed nothing else.\<close>

lemma grow_check_fst:
  "length as = length b \<Longrightarrow> fst (grow_check clk i b as) \<longleftrightarrow> covers (grow_all clk i b) as"
proof (induction as b arbitrary: i rule: list_induct2)
  case (Cons a as s b)
  show ?case using Cons.IH [of "Suc i"] by (auto simp: Let_def covers_def split: prod.splits)
qed (simp add: covers_def)

lemma grow_check_snd:
  "length as = length b \<Longrightarrow> covers (grow_all clk i b) as \<Longrightarrow>
   snd (grow_check clk i b as) = grow_all clk i b"
proof (induction as b arbitrary: i rule: list_induct2)
  case (Cons a as s b)
  then have "snd (grow_check clk (Suc i) b as) = grow_all clk (Suc i) b"
    by (simp add: covers_def)
  with Cons.prems show ?case by (auto simp: Let_def covers_def split: prod.splits)
qed simp

lemma grow_check_partial:
  "list_all2 (\<lambda>s s'. s' = s \<or> (\<exists>t. s' = grow t s)) b (snd (grow_check clk i b as))"
  by (induction clk i b as rule: grow_check.induct)
    (auto simp: Let_def list_all2_refl split: prod.splits)

lemma debit_ok:
  "list_all stream_ok b \<Longrightarrow> covers b as \<Longrightarrow> list_all (\<lambda>a. 0 \<le> a) as \<Longrightarrow> list_all stream_ok (debit b as)"
proof (induction b arbitrary: as)
  case (Cons s b)
  then show ?case by (cases as) (auto simp: covers_def debit_def stream_ok_def)
qed (simp add: debit_def)

lemma try_take_cases:
  "try_take clk amounts b =
     (if length amounts = length b \<and> list_all (\<lambda>a. 0 \<le> a) amounts
      then if covers (grow_all clk 0 b) amounts
        then Inr (True, debit (grow_all clk 0 b) amounts)
        else Inr (False, snd (grow_check clk 0 b amounts))
      else if length amounts \<noteq> length b then Inl (ValueError ''amounts has the wrong length'')
      else Inl (ValueError ''negative amount'')) \<and>
   list_all2 (\<lambda>s s'. s' = s \<or> (\<exists>t. s' = grow t s)) b (snd (grow_check clk 0 b amounts))"
proof (cases "length amounts = length b")
  case True
  obtain ok b' where eq: "grow_check clk 0 b amounts = (ok, b')" by force
  have "list_ex (\<lambda>a. a < 0) amounts \<longleftrightarrow> \<not> list_all (\<lambda>a. 0 \<le> a) amounts"
    by (auto simp: list_ex_iff list_all_iff not_le)
  with eq True grow_check_fst [OF True, of clk 0] grow_check_snd [OF True, of clk 0]
  show ?thesis using grow_check_partial [of b clk 0 amounts]
    by (auto simp: try_take_def split: bool.splits)
qed (auto simp: try_take_def grow_check_partial)


lemma try_take_total:
  assumes "length amounts = length b" "list_all (\<lambda>a. 0 \<le> a) amounts"
  shows "\<exists>ok b'. try_take clk amounts b = Inr (ok, b') \<and> length b' = length b"
proof -
  have "try_take clk amounts b =
      (if covers (grow_all clk 0 b) amounts then Inr (True, debit (grow_all clk 0 b) amounts)
       else Inr (False, snd (grow_check clk 0 b amounts)))"
    using try_take_cases [of clk amounts b] assms by simp
  then show ?thesis using assms(1)
    by (cases "covers (grow_all clk 0 b) amounts") (auto simp: debit_def grow_check_length)
qed

section \<open>Fill levels\<close>

lemma try_take_ok:
  assumes "bucket_ok b" "try_take clk amounts b = Inr (ok, b')"
  shows "bucket_ok b'"
proof -
  have b: "list_all stream_ok b" using assms(1) by (simp add: bucket_ok_def)
  from assms(2) try_take_cases [of clk amounts b]
  have "b' = (if covers (grow_all clk 0 b) amounts then debit (grow_all clk 0 b) amounts
      else snd (grow_check clk 0 b amounts)) \<and> list_all (\<lambda>a. 0 \<le> a) amounts"
    by (auto split: if_splits)
  then show ?thesis
    using debit_ok [OF grow_all_ok [OF b]] grow_check_ok [OF b] by (auto simp: bucket_ok_def)
qed

lemma available_ok:
  assumes "bucket_ok b" "available now idx b = Inr (v, b')"
  shows "bucket_ok b' \<and> 0 \<le> v"
proof -
  define j where "j = nat (if idx < 0 then int (length b) + idx else idx)"
  have j: "j < length b" "b' = b[j := grow now (b ! j)]" "v = tokens (grow now (b ! j))"
    using assms(2) by (auto simp: available_def j_def Let_def split: if_splits)
  then have "stream_ok (grow now (b ! j))"
    using assms(1) by (auto simp: bucket_ok_def list_all_length intro: grow_ok)
  with j assms(1) show ?thesis
    by (auto simp: bucket_ok_def list_all_length nth_list_update) (simp add: stream_ok_def)
qed

text \<open>the fill level of every stream stays between zero and its maximum: it is so in a new
  bucket with non-negative rates and capacities, and every operation keeps it.\<close>

theorem bucket_invariant:
  "(list_all (\<lambda>(r, m). 0 \<le> r \<and> 0 \<le> m) streams \<longrightarrow> bucket_ok (bucket_init streams now full)) \<and>
   (\<forall>b clk amounts ok b'. bucket_ok b \<and> try_take clk amounts b = Inr (ok, b') \<longrightarrow> bucket_ok b') \<and>
   (\<forall>b idx v b'. bucket_ok b \<and> available now idx b = Inr (v, b') \<longrightarrow> bucket_ok b' \<and> 0 \<le> v)"
proof (intro conjI allI impI)
  assume "list_all (\<lambda>(r, m). 0 \<le> r \<and> 0 \<le> m) streams"
  then show "bucket_ok (bucket_init streams now full)"
    by (auto simp: bucket_ok_def bucket_init_def stream_ok_def list_all_iff)
qed (auto dest: try_take_ok available_ok)

theorem bucket_invariant_witness:
  "bucket_ok (bucket_init [(1000, 1000), (1048576, 1048576)] 0 True)"
  using bucket_invariant [of "[(1000, 1000), (1048576, 1048576)]" 0 True] by simp

section \<open>The rate over a run\<close>

text \<open>A sequence of takes; the amounts of the successful ones, in order.\<close>

fun take_run :: "((nat \<Rightarrow> real) \<times> real list) list \<Rightarrow> bucket \<Rightarrow> real list list \<times> bucket" where
  "take_run [] b = ([], b)"
| "take_run ((clk, amounts) # calls) b =
     (case try_take clk amounts b of
        Inl _ \<Rightarrow> take_run calls b
      | Inr (False, b') \<Rightarrow> take_run calls b'
      | Inr (True, b') \<Rightarrow> (case take_run calls b' of (taken, b'') \<Rightarrow> (amounts # taken, b'')))"

text \<open>The budget of a stream at a time: what it holds and what its rate still allows.\<close>

definition budget :: "real \<Rightarrow> Stream \<Rightarrow> real" where
  "budget t s = tokens s + rate s * (t - last_at s)"

lemma budget_grow: "0 \<le> rate s \<Longrightarrow> budget t (grow now s) \<le> budget t s"
  using grow_credit [of s now] by (simp add: budget_def algebra_simps)

lemma grow_all_nth: "k < length b \<Longrightarrow> grow_all clk i b ! k = grow (clk (i + k)) (b ! k)"
proof (induction b arbitrary: i k)
  case (Cons s b)
  then show ?case using Cons.IH [of _ "Suc i"] by (cases k) auto
qed simp

lemma grow_check_nth:
  "k < length b \<Longrightarrow> snd (grow_check clk i b as) ! k \<in> {b ! k, grow (clk (i + k)) (b ! k)}"
proof (induction clk i b as arbitrary: k rule: grow_check.induct)
  case (1 clk i s ss a as)
  show ?case
  proof (cases k)
    case (Suc j)
    with "1.prems" have "j < length ss" by simp
    with "1.IH" [OF refl, of j] Suc show ?thesis
      by (auto simp: Let_def split: prod.splits)
  qed (auto simp: Let_def split: prod.splits)
qed auto

lemma try_take_stream:
  assumes "bucket_ok b" "try_take clk amounts b = Inr (ok, b')" "k < length b"
    and t: "clk k \<le> t" "last_at (b ! k) \<le> t"
  shows "length b' = length b \<and> last_at (b' ! k) \<le> t \<and> rate (b' ! k) = rate (b ! k) \<and>
    budget t (b' ! k) + (if ok then amounts ! k else 0) \<le> budget t (b ! k)"
proof -
  have r: "0 \<le> rate (b ! k)"
    using assms(1,3) by (simp add: bucket_ok_def list_all_length stream_ok_def)
  have len: "length amounts = length b" using assms(2) by (auto simp: try_take_def split: if_splits)
  have g: "last_at (grow (clk k) (b ! k)) \<le> t"
    using t by (auto simp: grow_def Let_def)
  show ?thesis
  proof (cases ok)
    case True
    with assms(2) try_take_cases [of clk amounts b] have "b' = debit (grow_all clk 0 b) amounts"
      by (auto split: if_splits)
    with len assms(3) g budget_grow [OF r, of t "clk k"] True show ?thesis
      by (simp add: debit_def grow_all_nth budget_def)
  next
    case False
    with assms(2) try_take_cases [of clk amounts b] have b': "b' = snd (grow_check clk 0 b amounts)"
      by (auto split: if_splits)
    from grow_check_nth [OF assms(3), of clk 0 amounts] b' have "b' ! k \<in> {b ! k, grow (clk k) (b ! k)}"
      by simp
    with b' g t(2) budget_grow [OF r, of t "clk k"] False show ?thesis
      by (auto simp: grow_check_length)
  qed
qed

lemma take_run_budget:
  "bucket_ok b \<Longrightarrow> k < length b \<Longrightarrow> last_at (b ! k) \<le> t \<Longrightarrow> \<forall>(clk, amounts)\<in>set calls. \<forall>i. clk i \<le> t \<Longrightarrow>
   sum_list (map (\<lambda>a. a ! k) (fst (take_run calls b))) \<le> budget t (b ! k)"
proof (induction calls b rule: take_run.induct)
  case (1 b)
  have "0 \<le> tokens (b ! k)" "0 \<le> rate (b ! k)"
    using "1.prems"(1,2) by (auto simp: bucket_ok_def list_all_length stream_ok_def)
  with "1.prems"(3) show ?case by (simp add: budget_def)
next
  case (2 clk amounts calls b)
  show ?case
  proof (cases "try_take clk amounts b")
    case (Inl e)
    with "2.IH"(1) [OF this] "2.prems" show ?thesis by simp
  next
    case (Inr p)
    obtain ok b' where p: "p = (ok, b')" by force
    with Inr have tk: "try_take clk amounts b = Inr (ok, b')" by simp
    have b': "bucket_ok b'" using "2.prems"(1) tk by (rule try_take_ok)
    have st: "length b' = length b \<and> last_at (b' ! k) \<le> t \<and> rate (b' ! k) = rate (b ! k) \<and>
        budget t (b' ! k) + (if ok then amounts ! k else 0) \<le> budget t (b ! k)"
      using "2.prems" by (intro try_take_stream [OF _ tk]) auto
    have "sum_list (map (\<lambda>a. a ! k) (fst (take_run calls b'))) \<le> budget t (b' ! k)"
      using "2.IH"(2,3) [OF Inr p [symmetric]] b' st "2.prems" by (cases ok) auto
    with st show ?thesis by (auto simp: tk split: prod.splits bool.splits)
  qed
qed

text \<open>A bucket enforces its rate.  Whatever takes are attempted and whenever, the amounts that
  a stream has granted up to time \<open>t\<close> never add up to more than its capacity plus its rate times
  the time since the stream was last brought up to date.\<close>

theorem take_run_rate_limit:
  assumes "bucket_ok b" "k < length b" "last_at (b ! k) \<le> t"
    and "\<forall>(clk, amounts)\<in>set calls. \<forall>i. clk i \<le> t"
  shows "sum_list (map (\<lambda>a. a ! k) (fst (take_run calls b))) \<le>
    max_tokens (b ! k) + rate (b ! k) * (t - last_at (b ! k))"
proof -
  have "tokens (b ! k) \<le> max_tokens (b ! k)"
    using assms(1,2) by (simp add: bucket_ok_def list_all_length stream_ok_def)
  with take_run_budget [OF assms] show ?thesis by (simp add: budget_def)
qed

theorem take_run_rate_limit_witness:
  "let b = bucket_init [(1000, 1000), (1048576, 1048576)] 0 True;
       calls = [(\<lambda>i. 1, [1, 2000]), (\<lambda>i. 2, [1, 2000000])] in
   fst (take_run calls b) = [[1, 2000]] \<and>
   sum_list (map (\<lambda>a. a ! 1) (fst (take_run calls b))) \<le>
     max_tokens (b ! 1) + rate (b ! 1) * (2 - last_at (b ! 1))"
proof -
  let ?b = "bucket_init [(1000, 1000), (1048576, 1048576)] 0 True"
  let ?calls = "[(\<lambda>i :: nat. 1 :: real, [1, 2000]), (\<lambda>i. 2, [1, 2000000])]"
  have "sum_list (map (\<lambda>a. a ! 1) (fst (take_run ?calls ?b))) \<le>
      max_tokens (?b ! 1) + rate (?b ! 1) * (2 - last_at (?b ! 1))"
    by (rule take_run_rate_limit) (auto simp: bucket_init_def bucket_ok_def stream_ok_def)
  moreover have "fst (take_run ?calls ?b) = [[1, 2000]]"
    by (simp add: bucket_init_def try_take_def grow_def debit_def Let_def)
  ultimately show ?thesis by (simp add: Let_def)
qed

end
