(* ===== verification/Limiter.thy ===== *)
theory Limiter
  imports Aggregator Token_Bucket
begin

text \<open>
  Model of \<^verbatim>\<open>src/aiokpl/limiter.py\<close>.  The queue of a \<open>ShardLimiter\<close> is a \<open>sortedcontainers.SortedKeyList\<close>,
  code from outside the repository: its operations are the record \<open>skl\<close>, an argument of the
  definitions, and its documented behaviour (a list kept sorted by key) is the locale
  \<open>sorted_key_list\<close>.  What the limiter does to its surroundings, metric calls and the callbacks in
  their order, is a list of effects.  The theorems: nothing is lost in a limiter, what it admits
  respects both rates, and expired batches go first.
\<close>

section \<open>Queued batches and the sorted list\<close>

definition RECORDS_PER_SEC_PER_SHARD :: real where "RECORDS_PER_SEC_PER_SHARD = 1000"
definition BYTES_PER_SEC_PER_SHARD :: real where "BYTES_PER_SEC_PER_SHARD = 1048576"
definition DEFAULT_DRAIN_INTERVAL_MS :: real where "DEFAULT_DRAIN_INTERVAL_MS = 25"
definition DEFAULT_EXPIRATION_MS :: real where "DEFAULT_EXPIRATION_MS = 30000"

record Pending =
  p_batch :: AggregatedBatch
  expires_at :: real

text \<open>The operations of the sorted list: the empty one, \<open>add\<close>, the list it iterates over, \<open>clear\<close>,
  \<open>update\<close>, and \<open>pop(0)\<close> (the list that is left).\<close>

record ('a, 'q) skl =
  skl_empty :: 'q
  skl_add :: "'a \<Rightarrow> 'q \<Rightarrow> 'q"
  skl_list :: "'q \<Rightarrow> 'a list"
  skl_clear :: "'q \<Rightarrow> 'q"
  skl_update :: "'a list \<Rightarrow> 'q \<Rightarrow> 'q"
  skl_pop0 :: "'q \<Rightarrow> 'q"

definition pending_key :: "Pending \<Rightarrow> pyfloat" where
  "pending_key p = agg_deadline (p_batch p)"

section \<open>ShardLimiter\<close>

record 'q ShardLimiter =
  sl_bucket :: bucket
  sl_queue :: 'q

definition shard_limiter_init :: "(Pending, 'q) skl \<Rightarrow> real \<Rightarrow> real \<Rightarrow> real \<Rightarrow> 'q ShardLimiter" where
  "shard_limiter_init ops records_per_sec bytes_per_sec now =
     \<lparr>sl_bucket = bucket_init [(records_per_sec, records_per_sec), (bytes_per_sec, bytes_per_sec)] now True,
      sl_queue = skl_empty ops\<rparr>"

definition enqueue :: "(Pending, 'q) skl \<Rightarrow> AggregatedBatch \<Rightarrow> real \<Rightarrow> 'q ShardLimiter \<Rightarrow> 'q ShardLimiter" where
  "enqueue ops b exp_at s = s\<lparr>sl_queue := skl_add ops \<lparr>p_batch = b, expires_at = exp_at\<rparr> (sl_queue s)\<rparr>"

text \<open>The admission loop.  \<open>clk k i\<close> is the clock reading for stream \<open>i\<close> in the \<open>k\<close>-th take.  The first
  argument bounds the turns by the length of the queue; each turn that does not stop pops one.\<close>

fun drain_loop :: "nat \<Rightarrow> (Pending, 'q) skl \<Rightarrow> (nat \<Rightarrow> nat \<Rightarrow> real) \<Rightarrow> nat \<Rightarrow> bucket \<Rightarrow> 'q
    \<Rightarrow> pyerr + AggregatedBatch list \<times> bucket \<times> 'q" where
  "drain_loop 0 ops clk k b q = Inr ([], b, q)"
| "drain_loop (Suc n) ops clk k b q =
     (case skl_list ops q of
        [] \<Rightarrow> Inr ([], b, q)
      | head # _ \<Rightarrow>
          ebind (try_take (clk k) [1, real (size_estimate (p_batch head))] b) (\<lambda>(ok, b).
            if ok
            then ebind (drain_loop n ops clk (k + 1) b (skl_pop0 ops q)) (\<lambda>(adm, b, q).
              Inr (p_batch head # adm, b, q))
            else Inr ([], b, q)))"

definition drain :: "(Pending, 'q) skl \<Rightarrow> real \<Rightarrow> (nat \<Rightarrow> nat \<Rightarrow> real) \<Rightarrow> 'q ShardLimiter
    \<Rightarrow> pyerr + (AggregatedBatch list \<times> AggregatedBatch list) \<times> 'q ShardLimiter" where
  "drain ops now clk s =
     (let expired = filter (\<lambda>p. expires_at p \<le> now) (skl_list ops (sl_queue s));
          keep = filter (\<lambda>p. \<not> expires_at p \<le> now) (skl_list ops (sl_queue s));
          q = (if expired \<noteq> [] then skl_update ops keep (skl_clear ops (sl_queue s)) else sl_queue s) in
      ebind (drain_loop (length (skl_list ops q)) ops clk 0 (sl_bucket s) q) (\<lambda>(admitted, b, q).
        Inr ((admitted, map p_batch expired), s\<lparr>sl_bucket := b, sl_queue := q\<rparr>)))"

definition drain_force :: "(Pending, 'q) skl \<Rightarrow> real \<Rightarrow> 'q ShardLimiter
    \<Rightarrow> (AggregatedBatch list \<times> AggregatedBatch list) \<times> 'q ShardLimiter" where
  "drain_force ops now s =
     ((map p_batch (filter (\<lambda>p. \<not> expires_at p \<le> now) (skl_list ops (sl_queue s))),
       map p_batch (filter (\<lambda>p. expires_at p \<le> now) (skl_list ops (sl_queue s)))),
      s\<lparr>sl_queue := skl_clear ops (sl_queue s)\<rparr>)"

definition pending_count :: "(Pending, 'q) skl \<Rightarrow> 'q ShardLimiter \<Rightarrow> nat" where
  "pending_count ops s = length (skl_list ops (sl_queue s))"

section \<open>Limiter\<close>

record limiter_cfg =
  records_per_sec :: real
  bytes_per_sec :: real
  expiration :: real
  drain_interval :: real
  lm_metrics :: bool
  lm_stream :: "pystr option"

definition limiter_cfg_of :: "real \<Rightarrow> real \<Rightarrow> real \<Rightarrow> real \<Rightarrow> bool \<Rightarrow> pystr option \<Rightarrow> limiter_cfg" where
  "limiter_cfg_of records_per_sec_per_shard bytes_per_sec_per_shard expiration_ms drain_interval_ms metrics stream =
     \<lparr>records_per_sec = records_per_sec_per_shard, bytes_per_sec = bytes_per_sec_per_shard,
      expiration = expiration_ms / 1000, drain_interval = drain_interval_ms / 1000,
      lm_metrics = metrics, lm_stream = stream\<rparr>"

record 'q Limiter =
  lm_shards :: "(int option \<times> 'q ShardLimiter) list"
  drain_started :: bool
  drain_scope :: bool
  lm_closed :: bool
  lm_tg :: bool
  drain_task :: bool

definition limiter_init :: "'q Limiter" where
  "limiter_init = \<lparr>lm_shards = [], drain_started = False, drain_scope = False, lm_closed = False,
     lm_tg = False, drain_task = False\<rparr>"

definition limiter_aenter :: "'q Limiter \<Rightarrow> 'q Limiter" where
  "limiter_aenter lm = lm\<lparr>lm_tg := True\<rparr>"

datatype limiter_effect =
    LMetric metric_call
  | OnExpired AggregatedBatch pystr
  | OnAdmit AggregatedBatch

definition shard_str :: "AggregatedBatch \<Rightarrow> pystr option" where
  "shard_str b = map_option str_of_int (predicted_shard b)"

definition emit_expired :: "limiter_cfg \<Rightarrow> AggregatedBatch \<Rightarrow> limiter_effect list" where
  "emit_expired cfg b =
     (if \<not> lm_metrics cfg then []
      else [LMetric (MetricPut NAME_EXPIRED_RECORDS (real (length (ab_items b))) (lm_stream cfg) (shard_str b) None)])"

text \<open>\<open>min\<close> of an empty sequence raises; a reading of the clock is taken only with metrics on.\<close>

definition emit_buffered_time :: "limiter_cfg \<Rightarrow> real \<Rightarrow> AggregatedBatch \<Rightarrow> pyerr + limiter_effect list" where
  "emit_buffered_time cfg now b =
     (if \<not> lm_metrics cfg then Inr []
      else if ab_items b = [] then Inl (ValueError ''min() iterable argument is empty'')
      else let arrival_min = Min (set (map arrival_time (ab_items b))); elapsed_ms = (now - arrival_min) * 1000 in
        Inr [LMetric (MetricPut NAME_BUFFERED_TIME elapsed_ms (lm_stream cfg) (shard_str b) None)])"

text \<open>The effects up to the end or to the exception.\<close>

fun dispatch_admitted :: "limiter_cfg \<Rightarrow> (nat \<Rightarrow> real) \<Rightarrow> nat \<Rightarrow> AggregatedBatch list \<Rightarrow> limiter_effect list \<times> pyerr option" where
  "dispatch_admitted cfg clk k [] = ([], None)"
| "dispatch_admitted cfg clk k (b # bs) =
     (case emit_buffered_time cfg (clk k) b of
        Inl e \<Rightarrow> ([], Some e)
      | Inr m \<Rightarrow> (case dispatch_admitted cfg clk (k + 1) bs of (es, e) \<Rightarrow> (m @ OnAdmit b # es, e)))"

definition dispatch :: "limiter_cfg \<Rightarrow> (nat \<Rightarrow> real) \<Rightarrow> AggregatedBatch list \<times> AggregatedBatch list
    \<Rightarrow> limiter_effect list \<times> pyerr option" where
  "dispatch cfg clk ae =
     (case dispatch_admitted cfg clk 0 (fst ae) of
        (es, e) \<Rightarrow> (concat (map (\<lambda>b. emit_expired cfg b @ [OnExpired b (lit ''Expired'')]) (snd ae)) @ es, e))"

text \<open>The readings of the clock that one call takes: for a new bucket, for the expiry, at the start of a
  drain, in its takes, and in the dispatch.\<close>

record lclock =
  at_new :: real
  at_expiry :: real
  at_drain :: real
  at_take :: "nat \<Rightarrow> nat \<Rightarrow> real"
  at_emit :: "nat \<Rightarrow> real"

fun dispatch_all :: "limiter_cfg \<Rightarrow> (nat \<Rightarrow> lclock) \<Rightarrow> nat \<Rightarrow> (AggregatedBatch list \<times> AggregatedBatch list) list
    \<Rightarrow> limiter_effect list \<times> pyerr option" where
  "dispatch_all cfg c i [] = ([], None)"
| "dispatch_all cfg c i (ae # aes) =
     (case dispatch cfg (at_emit (c i)) ae of
        (es, Some e) \<Rightarrow> (es, Some e)
      | (es, None) \<Rightarrow> (case dispatch_all cfg c (i + 1) aes of (es', e) \<Rightarrow> (es @ es', e)))"

definition limiter_put :: "(Pending, 'q) skl \<Rightarrow> limiter_cfg \<Rightarrow> lclock \<Rightarrow> AggregatedBatch \<Rightarrow> 'q Limiter
    \<Rightarrow> (limiter_effect list \<times> pyerr option) \<times> 'q Limiter" where
  "limiter_put ops cfg c b lm =
     (let shard = predicted_shard b;
          s = (case dict_get (lm_shards lm) shard of Some s \<Rightarrow> s
               | None \<Rightarrow> shard_limiter_init ops (records_per_sec cfg) (bytes_per_sec cfg) (at_new c));
          s = enqueue ops b (at_expiry c + expiration cfg) s in
      case drain ops (at_drain c) (at_take c) s of
        Inl e \<Rightarrow> (([], Some e), lm\<lparr>lm_shards := dict_set shard s (lm_shards lm)\<rparr>)
      | Inr (ae, s) \<Rightarrow>
          let lm = lm\<lparr>lm_shards := dict_set shard s (lm_shards lm)\<rparr> in
          if \<not> drain_started lm \<and> \<not> lm_closed lm \<and> \<not> lm_tg lm
          then (([], Some (RuntimeError ''Limiter must be used as an async context manager'')), lm)
          else let lm = (if \<not> drain_started lm \<and> \<not> lm_closed lm
                 then lm\<lparr>drain_scope := True, drain_started := True, drain_task := True\<rparr> else lm) in
            (dispatch cfg (at_emit c) ae, lm))"

definition limiter_flush :: "(Pending, 'q) skl \<Rightarrow> limiter_cfg \<Rightarrow> (nat \<Rightarrow> lclock) \<Rightarrow> 'q Limiter
    \<Rightarrow> (limiter_effect list \<times> pyerr option) \<times> 'q Limiter" where
  "limiter_flush ops cfg c lm =
     (let res = map (\<lambda>(i, k, s). (k, drain_force ops (at_drain (c i)) s)) (enumerate 0 (lm_shards lm)) in
      (dispatch_all cfg c 0 (map (\<lambda>(k, ae, s). ae) res),
       lm\<lparr>lm_shards := map (\<lambda>(k, ae, s). (k, s)) res\<rparr>))"

text \<open>One turn of the background loop after its sleep: drain every shard, then dispatch.\<close>

fun drain_all :: "(Pending, 'q) skl \<Rightarrow> (nat \<Rightarrow> lclock) \<Rightarrow> nat \<Rightarrow> (int option \<times> 'q ShardLimiter) list
    \<Rightarrow> pyerr + (AggregatedBatch list \<times> AggregatedBatch list) list \<times> (int option \<times> 'q ShardLimiter) list" where
  "drain_all ops c i [] = Inr ([], [])"
| "drain_all ops c i ((k, s) # rest) =
     ebind (drain ops (at_drain (c i)) (at_take (c i)) s) (\<lambda>(ae, s).
     ebind (drain_all ops c (i + 1) rest) (\<lambda>(aes, rest). Inr (ae # aes, (k, s) # rest)))"

definition drain_turn :: "(Pending, 'q) skl \<Rightarrow> limiter_cfg \<Rightarrow> (nat \<Rightarrow> lclock) \<Rightarrow> 'q Limiter
    \<Rightarrow> (limiter_effect list \<times> pyerr option) \<times> 'q Limiter" where
  "drain_turn ops cfg c lm =
     (case drain_all ops c 0 (lm_shards lm) of
        Inl e \<Rightarrow> (([], Some e), lm)
      | Inr (aes, shs) \<Rightarrow> (dispatch_all cfg c 0 aes, lm\<lparr>lm_shards := shs\<rparr>))"

definition limiter_aclose :: "'q Limiter \<Rightarrow> 'q Limiter" where
  "limiter_aclose lm =
     (if lm_closed lm then lm
      else let lm = lm\<lparr>lm_closed := True\<rparr> in
        if drain_scope lm then lm\<lparr>drain_scope := False, drain_task := False\<rparr> else lm)"

definition limiter_aexit :: "'q Limiter \<Rightarrow> pyerr + 'q Limiter" where
  "limiter_aexit lm =
     (let lm = limiter_aclose lm in if \<not> lm_tg lm then Inl AssertionError else Inr (lm\<lparr>lm_tg := False\<rparr>))"

section \<open>The documented behaviour of the sorted list\<close>

locale sorted_key_list =
  fixes ops :: "('a, 'q) skl"
    and key :: "'a \<Rightarrow> pyfloat"
  assumes list_empty: "skl_list ops (skl_empty ops) = []"
    and add_mset: "mset (skl_list ops (skl_add ops x q)) = add_mset x (mset (skl_list ops q))"
    and add_sorted: "sorted (map key (skl_list ops q)) \<Longrightarrow> sorted (map key (skl_list ops (skl_add ops x q)))"
    and list_clear: "skl_list ops (skl_clear ops q) = []"
    and update_mset: "mset (skl_list ops (skl_update ops xs q)) = mset xs + mset (skl_list ops q)"
    and update_sorted: "sorted (map key (skl_list ops q)) \<Longrightarrow> sorted (map key (skl_list ops (skl_update ops xs q)))"
    and list_pop0: "skl_list ops q \<noteq> [] \<Longrightarrow> skl_list ops (skl_pop0 ops q) = tl (skl_list ops q)"

text \<open>A list kept sorted by insertion has these properties.\<close>

definition list_skl :: "('a \<Rightarrow> pyfloat) \<Rightarrow> ('a, 'a list) skl" where
  "list_skl key = \<lparr>skl_empty = [], skl_add = insort_key key, skl_list = (\<lambda>q. q), skl_clear = (\<lambda>q. []),
     skl_update = (\<lambda>xs q. foldr (insort_key key) xs q), skl_pop0 = tl\<rparr>"

lemma list_skl_sel [simp]:
  "skl_empty (list_skl key) = []" "skl_add (list_skl key) = insort_key key" "skl_list (list_skl key) q = q"
  "skl_clear (list_skl key) q = []" "skl_update (list_skl key) xs q = foldr (insort_key key) xs q"
  "skl_pop0 (list_skl key) = tl"
  by (simp_all add: list_skl_def)

interpretation insort_list: sorted_key_list "list_skl key" key for key
proof unfold_locales
  show "mset (skl_list (list_skl key) (skl_update (list_skl key) xs q)) = mset xs + mset (skl_list (list_skl key) q)" for xs q
    by (induction xs) simp_all
  show "sorted (map key (skl_list (list_skl key) q)) \<Longrightarrow>
      sorted (map key (skl_list (list_skl key) (skl_update (list_skl key) xs q)))" for xs q
    by (induction xs) (simp_all add: sorted_insort_key)
qed (simp_all add: sorted_insort_key)

section \<open>One shard limiter\<close>

definition cost :: "nat \<Rightarrow> AggregatedBatch \<Rightarrow> real" where
  "cost j b = [1, real (size_estimate b)] ! j"

text \<open>A bucket spends within the budget: between two states up to time \<open>t\<close>, the batches admitted.\<close>

definition spends :: "real \<Rightarrow> bucket \<Rightarrow> AggregatedBatch list \<Rightarrow> bucket \<Rightarrow> bool" where
  "spends t b adm b' \<longleftrightarrow> (\<forall>j<2. last_at (b ! j) \<le> t \<longrightarrow> last_at (b' ! j) \<le> t \<and> rate (b' ! j) = rate (b ! j) \<and>
     budget t (b' ! j) + sum_list (map (cost j) adm) \<le> budget t (b ! j))"

lemma spends_refl: "spends t b [] b"
  by (simp add: spends_def)

lemma spends_trans: "spends t b xs b' \<Longrightarrow> spends t b' ys b'' \<Longrightarrow> spends t b (xs @ ys) b''"
  by (fastforce simp: spends_def)

definition two_streams :: "bucket \<Rightarrow> bool" where
  "two_streams b \<longleftrightarrow> bucket_ok b \<and> length b = 2"

lemma take_two:
  assumes "two_streams b"
  shows "\<exists>ok b'. try_take clk [1, real n] b = Inr (ok, b') \<and> two_streams b'"
proof -
  have "length [1, real n] = length b" "list_all (\<lambda>a. 0 \<le> a) [1, real n]"
    using assms by (simp_all add: two_streams_def)
  from try_take_total [OF this, of clk] obtain ok b' where
    t: "try_take clk [1, real n] b = Inr (ok, b')" "length b' = length b" by blast
  with try_take_ok [OF _ t(1)] assms show ?thesis by (auto simp: two_streams_def)
qed

lemma take_spends:
  assumes "two_streams b" "try_take clk [1, real (size_estimate x)] b = Inr (ok, b')" "\<forall>i. clk i \<le> t"
  shows "spends t b (if ok then [x] else []) b'"
  unfolding spends_def
proof (intro allI impI)
  fix j :: nat
  assume j: "j < 2" "last_at (b ! j) \<le> t"
  have "length b' = length b \<and> last_at (b' ! j) \<le> t \<and> rate (b' ! j) = rate (b ! j) \<and>
      budget t (b' ! j) + (if ok then [1, real (size_estimate x)] ! j else 0) \<le> budget t (b ! j)"
    using assms(1,3) j by (intro try_take_stream [OF _ assms(2)]) (auto simp: two_streams_def)
  then show "last_at (b' ! j) \<le> t \<and> rate (b' ! j) = rate (b ! j) \<and>
      budget t (b' ! j) + sum_list (map (cost j) (if ok then [x] else [])) \<le> budget t (b ! j)"
    by (simp add: cost_def split: if_splits)
qed

locale limiter_queue = sorted_key_list ops pending_key for ops :: "(Pending, 'q) skl"
begin

abbreviation queued :: "'q \<Rightarrow> Pending list" where
  "queued q \<equiv> skl_list ops q"

lemma drain_loop_spec:
  "two_streams b \<Longrightarrow> n = length (queued q) \<Longrightarrow>
   \<exists>adm b' q'. drain_loop n ops clk k b q = Inr (adm, b', q') \<and> two_streams b' \<and>
     map p_batch (queued q) = adm @ map p_batch (queued q') \<and> queued q' = drop (length adm) (queued q) \<and>
     (\<forall>t. (\<forall>k i. clk k i \<le> t) \<longrightarrow> spends t b adm b')"
proof (induction n arbitrary: k b q)
  case 0
  then show ?case by (simp add: spends_refl)
next
  case (Suc n)
  then obtain p ps where q: "queued q = p # ps" by (cases "queued q") auto
  obtain ok b1 where t: "try_take (clk k) [1, real (size_estimate (p_batch p))] b = Inr (ok, b1)" "two_streams b1"
    using take_two [OF Suc.prems(1)] by blast
  have sp: "spends t b (if ok then [p_batch p] else []) b1" if "\<forall>k i. clk k i \<le> t" for t
    using take_spends [OF Suc.prems(1) t(1)] that by simp
  show ?case
  proof (cases ok)
    case True
    have q': "queued (skl_pop0 ops q) = ps" using list_pop0 [of q] q by simp
    obtain adm b' q' where IH: "drain_loop n ops clk (k + 1) b1 (skl_pop0 ops q) = Inr (adm, b', q')" "two_streams b'"
        "map p_batch ps = adm @ map p_batch (queued q')" "queued q' = drop (length adm) ps"
        "\<forall>t. (\<forall>k i. clk k i \<le> t) \<longrightarrow> spends t b1 adm b'"
      using Suc.IH [OF t(2), of "skl_pop0 ops q" "k + 1"] Suc.prems(2) q q' by auto
    have "spends t b (p_batch p # adm) b'" if "\<forall>k i. clk k i \<le> t" for t
      using spends_trans [of t b "[p_batch p]" b1 adm b'] sp [OF that] IH(5) that True by simp
    with IH t q True show ?thesis by auto
  next
    case False
    with t q sp show ?thesis by auto
  qed
qed

definition sl_ok :: "'q ShardLimiter \<Rightarrow> bool" where
  "sl_ok s \<longleftrightarrow> two_streams (sl_bucket s) \<and> sorted (map pending_key (queued (sl_queue s)))"

lemma sl_ok_init: "0 \<le> r \<Longrightarrow> 0 \<le> y \<Longrightarrow> sl_ok (shard_limiter_init ops r y now)"
  by (simp add: sl_ok_def shard_limiter_init_def two_streams_def bucket_ok_def bucket_init_def
    stream_ok_def list_empty)

lemma sl_ok_enqueue: "sl_ok s \<Longrightarrow> sl_ok (enqueue ops b e s)"
  by (simp add: sl_ok_def enqueue_def add_sorted)

text \<open>A drain: the expired ones are those whose time has come, in queue order; of the others a prefix
  in deadline order is admitted, within the budget; nothing else leaves, and nothing raises.\<close>

lemma drain_spec:
  assumes "sl_ok s"
  shows "\<exists>adm rest s'. drain ops now clk s =
      Inr ((adm, map p_batch (filter (\<lambda>p. expires_at p \<le> now) (queued (sl_queue s)))), s')
    \<and> sl_ok s' \<and> mset rest = mset (filter (\<lambda>p. \<not> expires_at p \<le> now) (queued (sl_queue s)))
    \<and> sorted (map pending_key rest) \<and> map p_batch rest = adm @ map p_batch (queued (sl_queue s'))
    \<and> queued (sl_queue s') = drop (length adm) rest
    \<and> (\<forall>t. (\<forall>k i. clk k i \<le> t) \<longrightarrow> spends t (sl_bucket s) adm (sl_bucket s'))"
proof -
  let ?keep = "filter (\<lambda>p. \<not> expires_at p \<le> now) (queued (sl_queue s))"
  let ?exp = "filter (\<lambda>p. expires_at p \<le> now) (queued (sl_queue s))"
  define q where "q = (if ?exp \<noteq> [] then skl_update ops ?keep (skl_clear ops (sl_queue s)) else sl_queue s)"
  have q: "mset (queued q) = mset ?keep" "sorted (map pending_key (queued q))"
  proof -
    have "?keep = queued (sl_queue s)" if "?exp = []"
      using that by (auto simp: filter_id_conv filter_empty_conv)
    then show "mset (queued q) = mset ?keep"
      by (cases "?exp = []") (simp_all add: q_def update_mset list_clear del: mset_filter)
    show "sorted (map pending_key (queued q))"
      using assms update_sorted [of "skl_clear ops (sl_queue s)"] by (auto simp: q_def list_clear sl_ok_def)
  qed
  have "two_streams (sl_bucket s)" using assms by (simp add: sl_ok_def)
  from drain_loop_spec [OF this refl, of q clk 0] obtain adm b' q' where
    d: "drain_loop (length (queued q)) ops clk 0 (sl_bucket s) q = Inr (adm, b', q')" "two_streams b'"
      "map p_batch (queued q) = adm @ map p_batch (queued q')" "queued q' = drop (length adm) (queued q)"
      "\<forall>t. (\<forall>k i. clk k i \<le> t) \<longrightarrow> spends t (sl_bucket s) adm b'" by blast
  have dr: "drain ops now clk s = Inr ((adm, map p_batch ?exp), s\<lparr>sl_bucket := b', sl_queue := q'\<rparr>)"
    using d(1) by (simp add: drain_def q_def Let_def)
  have so: "sorted (map pending_key (queued q'))"
    using q(2) d(4) by (simp flip: drop_map)
  show ?thesis
    by (rule exI [of _ adm], rule exI [of _ "queued q"], rule exI [of _ "s\<lparr>sl_bucket := b', sl_queue := q'\<rparr>"])
      (use dr q d so in \<open>simp add: sl_ok_def\<close>)
qed

end

interpretation insort_queue: limiter_queue "list_skl pending_key" ..

section \<open>Runs of one shard limiter\<close>

text \<open>From its creation at \<open>t0\<close>: the batches enqueued, those admitted by drains, those expired, and those
  admitted by a forced drain.  No reading of the clock is ahead of the time of the step.\<close>

inductive slrun :: "(Pending, 'q) skl \<Rightarrow> real \<Rightarrow> real \<Rightarrow> real \<Rightarrow> real \<Rightarrow> AggregatedBatch list \<Rightarrow> AggregatedBatch list
    \<Rightarrow> AggregatedBatch list \<Rightarrow> AggregatedBatch list \<Rightarrow> 'q ShardLimiter \<Rightarrow> bool" for ops r y t0 where
  new: "slrun ops r y t0 t0 [] [] [] [] (shard_limiter_init ops r y t0)"
| enqueue: "slrun ops r y t0 t es adm exs frc s \<Longrightarrow> t \<le> t' \<Longrightarrow>
     slrun ops r y t0 t' (es @ [b]) adm exs frc (enqueue ops b e s)"
| drain: "slrun ops r y t0 t es adm exs frc s \<Longrightarrow> t \<le> t' \<Longrightarrow> \<forall>k i. clk k i \<le> t' \<Longrightarrow>
     drain ops now clk s = Inr ((a, x), s') \<Longrightarrow> slrun ops r y t0 t' es (adm @ a) (exs @ x) frc s'"
| force: "slrun ops r y t0 t es adm exs frc s \<Longrightarrow> t \<le> t' \<Longrightarrow>
     drain_force ops now s = ((a, x), s') \<Longrightarrow> slrun ops r y t0 t' es adm (exs @ x) (frc @ a) s'"

context limiter_queue
begin

lemma mset_split_pending:
  "mset (map p_batch (filter P xs)) + mset (map p_batch (filter (\<lambda>p. \<not> P p) xs)) = mset (map p_batch xs)"
  by (induction xs) auto

lemma drain_conserves:
  assumes "sl_ok s" "drain ops now clk s = Inr ((a, x), s')"
  shows "mset a + mset x + mset (map p_batch (queued (sl_queue s'))) = mset (map p_batch (queued (sl_queue s)))"
proof -
  let ?P = "\<lambda>p. expires_at p \<le> now"
  from drain_spec [OF assms(1), of now clk] assms(2) obtain rest where
    r: "mset rest = mset (filter (\<lambda>p. \<not> ?P p) (queued (sl_queue s)))"
      "map p_batch rest = a @ map p_batch (queued (sl_queue s'))"
    and x: "x = map p_batch (filter ?P (queued (sl_queue s)))" by auto
  have "mset a + mset (map p_batch (queued (sl_queue s'))) = mset (map p_batch rest)"
    by (simp only: r(2) mset_append)
  also have "\<dots> = mset (map p_batch (filter (\<lambda>p. \<not> ?P p) (queued (sl_queue s))))"
    using r(1) by (metis mset_map)
  finally have "mset x + (mset a + mset (map p_batch (queued (sl_queue s')))) = mset (map p_batch (queued (sl_queue s)))"
    using mset_split_pending [of ?P "queued (sl_queue s)"] x by (simp only:)
  then show ?thesis by (simp only: add_ac)
qed

lemma slrun_ok:
  "slrun ops r y t0 t es adm exs frc s \<Longrightarrow> 0 \<le> r \<Longrightarrow> 0 \<le> y \<Longrightarrow>
   t0 \<le> t \<and> sl_ok s \<and> mset es = mset adm + mset exs + mset frc + mset (map p_batch (queued (sl_queue s)))"
proof (induction rule: slrun.induct)
  case new
  then show ?case using sl_ok_init [of r y t0] by (simp add: shard_limiter_init_def list_empty)
next
  case (enqueue t es adm exs frc s t' b e)
  have "mset (map p_batch (queued (sl_queue (Limiter.enqueue ops b e s)))) =
      add_mset b (mset (map p_batch (queued (sl_queue s))))"
    using arg_cong [OF add_mset [of "\<lparr>p_batch = b, expires_at = e\<rparr>" "sl_queue s"], of "image_mset p_batch"]
    by (simp add: enqueue_def)
  with enqueue sl_ok_enqueue show ?case by simp
next
  case (drain t es adm exs frc s t' clk now a x s')
  then have s: "sl_ok s" by simp
  from drain_spec [OF s, of now clk] drain(4) have "sl_ok s'" by auto
  with drain_conserves [OF s drain(4)] drain show ?case by (simp add: add_ac flip: drain_conserves [OF s drain(4)])
next
  case (force t es adm exs frc s t' now a x s')
  then have "sl_ok s'" "queued (sl_queue s') = []"
    by (auto simp: drain_force_def sl_ok_def list_clear)
  moreover have "mset a + mset x = mset (map p_batch (queued (sl_queue s)))"
    using force(3) mset_split_pending [of "\<lambda>p. expires_at p \<le> now" "queued (sl_queue s)"]
    by (auto simp: drain_force_def add.commute)
  ultimately show ?case using force by (simp add: add_ac)
qed

lemma slrun_spends:
  "slrun ops r y t0 t es adm exs frc s \<Longrightarrow> 0 \<le> r \<Longrightarrow> 0 \<le> y \<Longrightarrow> t \<le> t1 \<Longrightarrow>
   spends t1 (sl_bucket (shard_limiter_init ops r y t0)) adm (sl_bucket s)"
proof (induction rule: slrun.induct)
  case (drain t es adm exs frc s t' clk now a x s')
  then have s: "sl_ok s" using slrun_ok by blast
  have "\<forall>k i. clk k i \<le> t1" using drain(3,8) order_trans by blast
  with drain_spec [OF s, of now clk] drain(4) have "spends t1 (sl_bucket s) a (sl_bucket s')" by auto
  with drain spends_trans show ?case by (meson order_trans)
qed (auto simp: spends_refl enqueue_def drain_force_def)

lemma slrun_rate:
  assumes "slrun ops r y t0 t es adm exs frc s" "0 \<le> r" "0 \<le> y"
  shows "real (length adm) \<le> r + r * (t - t0)" "(\<Sum>b\<leftarrow>adm. real (size_estimate b)) \<le> y + y * (t - t0)"
proof -
  have t0: "t0 \<le> t" "sl_ok s" using slrun_ok [OF assms] by auto
  let ?b = "sl_bucket (shard_limiter_init ops r y t0)"
  have b: "last_at (?b ! j) \<le> t" "budget t (?b ! j) = [r + r * (t - t0), y + y * (t - t0)] ! j" if "j < 2" for j
    using that t0 by (auto simp: shard_limiter_init_def bucket_init_def budget_def less_2_cases_iff)
  have "0 \<le> budget t (sl_bucket s ! j)" if "j < 2" for j
  proof -
    have "last_at (sl_bucket s ! j) \<le> t"
      using slrun_spends [OF assms order_refl] b(1) that by (auto simp: spends_def)
    moreover have "stream_ok (sl_bucket s ! j)"
      using t0(2) that by (auto simp: sl_ok_def two_streams_def bucket_ok_def list_all_length)
    ultimately show ?thesis by (simp add: budget_def stream_ok_def)
  qed
  then have sum: "sum_list (map (cost j) adm) \<le> [r + r * (t - t0), y + y * (t - t0)] ! j" if "j < 2" for j
    using slrun_spends [OF assms order_refl] b that by (fastforce simp: spends_def)
  have "sum_list (map (cost 0) adm) = real (length adm)"
    by (induction adm) (simp_all add: cost_def)
  with sum [of 0] show "real (length adm) \<le> r + r * (t - t0)" by simp
  have one: "cost 1 = (\<lambda>b. real (size_estimate b))" by (rule ext) (simp add: cost_def)
  show "(\<Sum>b\<leftarrow>adm. real (size_estimate b)) \<le> y + y * (t - t0)"
    using sum [of 1] unfolding one by simp
qed

end

section \<open>Properties of a shard limiter\<close>

text \<open>C11.  The rate limit holds.  From the creation of a shard limiter at \<open>t0\<close> until any later time \<open>t\<close>,
  however batches are enqueued and drained, the drains admit at most \<open>r + r * (t - t0)\<close> batches and at most
  \<open>y + y * (t - t0)\<close> bytes, \<open>r\<close> and \<open>y\<close> being the two configured rates (a burst of one second, then the rate);
  forced drains at shutdown are not counted.  The queue is any container that behaves as
  documented.\<close>

theorem shard_limiter_rate:
  assumes "sorted_key_list ops pending_key" "slrun ops r y t0 t es adm exs frc s" "0 \<le> r" "0 \<le> y"
  shows "real (length adm) \<le> r + r * (t - t0) \<and> (\<Sum>b\<leftarrow>adm. real (size_estimate b)) \<le> y + y * (t - t0)"
  using limiter_queue.slrun_rate [OF limiter_queue.intro [OF assms(1)] assms(2-4)] by blast

abbreviation "demo_ops \<equiv> list_skl pending_key"

definition demo_sl :: "Pending list ShardLimiter" where
  "demo_sl = enqueue demo_ops demo_batch 30 (shard_limiter_init demo_ops 1 1000 0)"

definition demo_drained :: "Pending list ShardLimiter" where
  "demo_drained = \<lparr>sl_bucket = [\<lparr>rate = 1, max_tokens = 1, tokens = 0, last_at = 0\<rparr>,
     \<lparr>rate = 1000, max_tokens = 1000, tokens = 978, last_at = 0\<rparr>], sl_queue = []\<rparr>"

lemma demo_drain: "drain demo_ops 0 (\<lambda>_ _. 0) demo_sl = Inr (([demo_batch], []), demo_drained)"
  by (simp add: demo_sl_def demo_drained_def drain_def enqueue_def shard_limiter_init_def bucket_init_def try_take_def
    grow_def debit_def Let_def demo_batch_def)

lemma demo_slrun: "slrun demo_ops 1 1000 0 0 [demo_batch] [demo_batch] [] [] demo_drained"
proof -
  have "slrun demo_ops 1 1000 0 0 ([] @ [demo_batch]) [] [] [] demo_sl"
    unfolding demo_sl_def by (rule slrun.enqueue [OF slrun.new order_refl])
  from slrun.drain [OF this order_refl _ demo_drain] show ?thesis by simp
qed

theorem shard_limiter_rate_witness: "real (length [demo_batch]) \<le> (1 :: real) + 1 * (0 - 0)"
  using shard_limiter_rate [OF insort_list.sorted_key_list_axioms demo_slrun] by simp

text \<open>C24.  A shard limiter loses nothing and is fair by deadline.  Every batch enqueued is exactly once
  admitted, expired, forced out or still queued.  A further drain never raises; it expires exactly the
  queued batches whose expiry time has come, and admits, in deadline order, a prefix of the others.\<close>

theorem shard_limiter_drain:
  assumes "sorted_key_list ops pending_key" "slrun ops r y t0 t es adm exs frc s" "0 \<le> r" "0 \<le> y"
  shows "mset es = mset adm + mset exs + mset frc + mset (map p_batch (skl_list ops (sl_queue s)))
    \<and> (\<exists>a rest s'. drain ops now clk s =
          Inr ((a, map p_batch (filter (\<lambda>p. expires_at p \<le> now) (skl_list ops (sl_queue s)))), s')
        \<and> mset rest = mset (filter (\<lambda>p. \<not> expires_at p \<le> now) (skl_list ops (sl_queue s)))
        \<and> sorted (map pending_key rest) \<and> map p_batch rest = a @ map p_batch (skl_list ops (sl_queue s')))"
proof -
  have lq: "limiter_queue ops" using assms(1) by (rule limiter_queue.intro)
  from limiter_queue.slrun_ok [OF lq assms(2-4)] have ok: "limiter_queue.sl_ok ops s"
    and m: "mset es = mset adm + mset exs + mset frc + mset (map p_batch (skl_list ops (sl_queue s)))" by auto
  from limiter_queue.drain_spec [OF lq ok, of now clk] m show ?thesis by blast
qed

theorem shard_limiter_drain_witness:
  "mset [demo_batch] = mset [demo_batch] + mset [] + mset [] + mset (map p_batch (skl_list demo_ops (sl_queue demo_drained)))"
  using shard_limiter_drain [OF insort_list.sorted_key_list_axioms demo_slrun] by simp

text \<open>A batch larger than the capacity of the byte bucket is never admitted, whatever the time: it heads
  the queue, blocking every later batch of its shard, until it expires.\<close>

lemma oversized_head_blocks:
  assumes "two_streams b" "max_tokens (b ! 1) < real (size_estimate (p_batch p))" "skl_list ops q = p # ps"
  shows "\<exists>b'. drain_loop (Suc n) ops clk k b q = Inr ([], b', q)"
proof -
  let ?am = "[1, real (size_estimate (p_batch p))]"
  have len: "length ?am = length b" "list_all (\<lambda>a. 0 \<le> a) ?am" using assms(1) by (simp_all add: two_streams_def)
  have ok: "stream_ok (grow_all (clk k) 0 b ! 1)" "max_tokens (grow_all (clk k) 0 b ! 1) = max_tokens (b ! 1)"
    using assms(1) grow_ok [of "b ! 1"]
    by (auto simp: two_streams_def bucket_ok_def list_all_length grow_all_nth)
  have "\<not> covers (grow_all (clk k) 0 b) ?am"
  proof
    assume "covers (grow_all (clk k) 0 b) ?am"
    then have "?am ! 1 \<le> tokens (grow_all (clk k) 0 b ! 1)"
      using len(1) unfolding covers_def list_all2_conv_all_nth by (auto dest!: spec [of _ 1])
    with ok assms(2) show False by (simp add: stream_ok_def)
  qed
  then show ?thesis using try_take_cases [of "clk k" ?am b] len assms(3) by auto
qed

end
