(* ===== verification/Limiter_Flow.thy ===== *)
theory Limiter_Flow
  imports Limiter
begin

text \<open>
  The limiter of \<^verbatim>\<open>src/aiokpl/limiter.py\<close> as a whole: \<open>put\<close>, \<open>flush\<close> and the background drain over all shards.
  What goes in comes out exactly once, admitted or expired, or stays queued, and nothing raises.
\<close>

section \<open>The limiter as a whole\<close>

text \<open>The batches an effect list admits and expires, and the batches queued in a limiter.\<close>

fun admit_of :: "limiter_effect \<Rightarrow> AggregatedBatch list" where
  "admit_of (OnAdmit b) = [b]" | "admit_of _ = []"

fun expire_of :: "limiter_effect \<Rightarrow> AggregatedBatch list" where
  "expire_of (OnExpired b r) = [b]" | "expire_of _ = []"

definition admitted_in :: "limiter_effect list \<Rightarrow> AggregatedBatch list" where
  "admitted_in es = concat (map admit_of es)"

definition expired_in :: "limiter_effect list \<Rightarrow> AggregatedBatch list" where
  "expired_in es = concat (map expire_of es)"

lemma effects_append [simp]:
  "admitted_in (xs @ ys) = admitted_in xs @ admitted_in ys" "expired_in (xs @ ys) = expired_in xs @ expired_in ys"
  "admitted_in [] = []" "expired_in [] = []"
  "admitted_in (e # xs) = admit_of e @ admitted_in xs" "expired_in (e # xs) = expire_of e @ expired_in xs"
  by (simp_all add: admitted_in_def expired_in_def)

definition filled :: "AggregatedBatch \<Rightarrow> bool" where
  "filled b \<longleftrightarrow> ab_items b \<noteq> []"

lemma emit_buffered_time_filled:
  "filled b \<Longrightarrow> \<exists>m. emit_buffered_time cfg now b = Inr m \<and> admitted_in m = [] \<and> expired_in m = []"
  by (simp add: emit_buffered_time_def filled_def Let_def)

lemma dispatch_admitted_filled:
  "list_all filled bs \<Longrightarrow> snd (dispatch_admitted cfg clk k bs) = None
    \<and> admitted_in (fst (dispatch_admitted cfg clk k bs)) = bs \<and> expired_in (fst (dispatch_admitted cfg clk k bs)) = []"
proof (induction bs arbitrary: k)
  case (Cons b bs)
  then obtain m where "emit_buffered_time cfg (clk k) b = Inr m" "admitted_in m = []" "expired_in m = []"
    using emit_buffered_time_filled [of b cfg "clk k"] by auto
  with Cons show ?case by (simp add: split_beta)
qed simp

lemma dispatch_expired [simp]:
  "admitted_in (concat (map (\<lambda>b. emit_expired cfg b @ [OnExpired b r]) bs)) = []"
  "expired_in (concat (map (\<lambda>b. emit_expired cfg b @ [OnExpired b r]) bs)) = bs"
  by (induction bs) (simp_all add: emit_expired_def)

lemma dispatch_filled:
  "list_all filled (fst ae) \<Longrightarrow> snd (dispatch cfg clk ae) = None
    \<and> admitted_in (fst (dispatch cfg clk ae)) = fst ae \<and> expired_in (fst (dispatch cfg clk ae)) = snd ae"
  using dispatch_admitted_filled [of "fst ae" cfg clk 0] by (simp add: dispatch_def split_beta)

lemma dispatch_all_filled:
  "list_all (\<lambda>ae. list_all filled (fst ae)) aes \<Longrightarrow> snd (dispatch_all cfg c i aes) = None
    \<and> admitted_in (fst (dispatch_all cfg c i aes)) = concat (map fst aes)
    \<and> expired_in (fst (dispatch_all cfg c i aes)) = concat (map snd aes)"
proof (induction aes arbitrary: i)
  case (Cons ae aes)
  with dispatch_filled [of ae cfg "at_emit (c i)"] show ?case
    by (cases "dispatch cfg (at_emit (c i)) ae") (simp add: split_beta)
qed simp

context limiter_queue
begin

definition sl_batches :: "'q ShardLimiter \<Rightarrow> AggregatedBatch list" where
  "sl_batches s = map p_batch (queued (sl_queue s))"

definition lm_batches :: "'q Limiter \<Rightarrow> AggregatedBatch list" where
  "lm_batches lm = concat (map (\<lambda>(k, s). sl_batches s) (lm_shards lm))"

text \<open>An entered limiter in order: every queue is sorted, every bucket well formed, and every batch
  has records.\<close>

definition lm_ok :: "'q Limiter \<Rightarrow> bool" where
  "lm_ok lm \<longleftrightarrow> lm_tg lm \<and> dict_ok (lm_shards lm) \<and> (\<forall>(k, s)\<in>set (lm_shards lm). sl_ok s \<and> list_all filled (sl_batches s))"

lemma sl_batches_enqueue: "mset (sl_batches (enqueue ops b e s)) = add_mset b (mset (sl_batches s))"
  using arg_cong [OF add_mset [of "\<lparr>p_batch = b, expires_at = e\<rparr>" "sl_queue s"], of "image_mset p_batch"]
  by (simp add: enqueue_def sl_batches_def)

lemma list_all_mset: "mset xs = mset ys \<Longrightarrow> list_all P xs = list_all P ys"
  by (metis list_all_iff set_mset_mset)

text \<open>A drain of one shard that never raises, as a transfer of batches.\<close>

lemma drain_moves:
  assumes "sl_ok s" "list_all filled (sl_batches s)"
  shows "\<exists>a x s'. drain ops now clk s = Inr ((a, x), s') \<and> sl_ok s' \<and> list_all filled a \<and> list_all filled x
    \<and> list_all filled (sl_batches s') \<and> mset a + mset x + mset (sl_batches s') = mset (sl_batches s)"
proof -
  from drain_spec [OF assms(1), of now clk] obtain a x s' where
    d: "drain ops now clk s = Inr ((a, x), s')" "sl_ok s'" by blast
  have m: "mset (a @ x @ sl_batches s') = mset (sl_batches s)"
    using drain_conserves [OF assms(1) d(1)] by (simp add: sl_batches_def add_ac)
  with list_all_mset [OF m, of filled] assms(2) have "list_all filled (a @ x @ sl_batches s')" by simp
  with d m show ?thesis by (auto simp: add_ac)
qed

lemma force_moves:
  assumes "sl_ok s" "list_all filled (sl_batches s)"
  shows "\<exists>a x s'. drain_force ops now s = ((a, x), s') \<and> sl_ok s' \<and> list_all filled a \<and> list_all filled x
    \<and> sl_batches s' = [] \<and> mset a + mset x = mset (sl_batches s)"
  using assms mset_split_pending [of "\<lambda>p. expires_at p \<le> now" "queued (sl_queue s)"]
  by (auto simp: drain_force_def sl_ok_def list_clear sl_batches_def list_all_iff add.commute)

lemma shards_dict_set:
  "dict_get d k = Some s \<Longrightarrow>
   mset (concat (map (\<lambda>(k, s). sl_batches s) (dict_set k s' d))) + mset (sl_batches s) =
   mset (concat (map (\<lambda>(k, s). sl_batches s) d)) + mset (sl_batches s')"
  by (induction d) (auto simp: add_ac)

lemma shards_dict_new:
  "dict_get d k = None \<Longrightarrow>
   mset (concat (map (\<lambda>(k, s). sl_batches s) (dict_set k s' d))) = mset (concat (map (\<lambda>(k, s). sl_batches s) d)) + mset (sl_batches s')"
  by (simp add: dict_set_fresh)

lemma lm_ok_set:
  assumes "lm_ok lm" "sl_ok s" "list_all filled (sl_batches s)"
  shows "lm_ok (lm\<lparr>lm_shards := dict_set k s (lm_shards lm)\<rparr>)"
proof -
  have "set (dict_set k s d) \<subseteq> insert (k, s) (set d)" for d :: "(int option \<times> 'q ShardLimiter) list"
    by (induction d) auto
  with assms show ?thesis by (fastforce simp: lm_ok_def)
qed

lemma sl_batches_init [simp]: "sl_batches (shard_limiter_init ops r y now) = []"
  by (simp add: sl_batches_def shard_limiter_init_def list_empty)

text \<open>The batches an operation lets go, and those that stay.\<close>

definition flows :: "'q Limiter \<Rightarrow> AggregatedBatch list \<Rightarrow> (limiter_effect list \<times> pyerr option) \<times> 'q Limiter \<Rightarrow> bool" where
  "flows lm bs res \<longleftrightarrow> snd (fst res) = None \<and> lm_ok (snd res)
     \<and> list_all filled (admitted_in (fst (fst res))) \<and> list_all filled (expired_in (fst (fst res)))
     \<and> mset (admitted_in (fst (fst res))) + mset (expired_in (fst (fst res))) + mset (lm_batches (snd res))
        = mset (lm_batches lm) + mset bs"

lemma limiter_put_flows:
  assumes "lm_ok lm" "filled b" "0 \<le> records_per_sec cfg" "0 \<le> bytes_per_sec cfg"
  shows "flows lm [b] (limiter_put ops cfg c b lm)"
proof -
  let ?k = "predicted_shard b"
  define s where "s = (case dict_get (lm_shards lm) ?k of Some s \<Rightarrow> s
    | None \<Rightarrow> shard_limiter_init ops (records_per_sec cfg) (bytes_per_sec cfg) (at_new c))"
  let ?s = "enqueue ops b (at_expiry c + expiration cfg) s"
  have s: "sl_ok s" "list_all filled (sl_batches s)"
    using assms(1,3,4) by (auto simp: s_def lm_ok_def sl_ok_init dest!: map_of_SomeD split: option.splits)
  have "list_all filled (sl_batches ?s)"
    using sl_batches_enqueue [of b _ s] s(2) assms(2) list_all_mset [of "sl_batches ?s" "b # sl_batches s"] by simp
  from drain_moves [OF sl_ok_enqueue [OF s(1)] this, of "at_drain c" "at_take c"] obtain a x s' where
    d: "drain ops (at_drain c) (at_take c) ?s = Inr ((a, x), s')" "sl_ok s'" "list_all filled a" "list_all filled x"
      "list_all filled (sl_batches s')" "mset a + mset x + mset (sl_batches s') = mset (sl_batches ?s)" by blast
  let ?lm = "lm\<lparr>lm_shards := dict_set ?k s' (lm_shards lm)\<rparr>"
  have ok: "lm_ok ?lm" by (rule lm_ok_set [OF assms(1) d(2,5)])
  obtain lm' where r: "limiter_put ops cfg c b lm = (dispatch cfg (at_emit c) (a, x), lm')" "lm_ok lm'"
      "lm_shards lm' = dict_set ?k s' (lm_shards lm)"
    using d(1) ok assms(1) by (cases "\<not> drain_started lm \<and> \<not> lm_closed lm")
      (auto simp: limiter_put_def Let_def lm_ok_def simp flip: s_def)
  have "mset (sl_batches s') + mset a + mset x = mset (sl_batches s) + {#b#}"
    using d(6) sl_batches_enqueue [of b _ s] by (simp add: add_ac)
  moreover have "mset (lm_batches lm') + mset (sl_batches s) = mset (lm_batches lm) + mset (sl_batches s')"
  proof (cases "dict_get (lm_shards lm) ?k")
    case None
    then have "sl_batches s = []" by (simp add: s_def)
    with shards_dict_new [OF None] r(3) show ?thesis by (simp add: lm_batches_def)
  next
    case (Some t)
    then have "s = t" by (simp add: s_def)
    with shards_dict_set [OF Some] r(3) show ?thesis by (simp add: lm_batches_def)
  qed
  ultimately have "mset a + mset x + mset (lm_batches lm') = mset (lm_batches lm) + {#b#}"
    using mset_transfer [of "mset (lm_batches lm')" "mset (sl_batches s)" "mset (lm_batches lm)" "mset (sl_batches s')"
        "mset a + mset x" "{#b#}"] by (simp add: add_ac)
  with dispatch_filled [of "(a, x)" cfg "at_emit c"] d(3,4) r show ?thesis by (simp add: flows_def)
qed

lemma drain_all_moves:
  assumes "\<forall>(k, s)\<in>set shs. sl_ok s \<and> list_all filled (sl_batches s)"
  shows "\<exists>aes shs'. drain_all ops c i shs = Inr (aes, shs') \<and> map fst shs' = map fst shs
    \<and> (\<forall>(k, s)\<in>set shs'. sl_ok s \<and> list_all filled (sl_batches s))
    \<and> list_all (\<lambda>ae. list_all filled (fst ae)) aes \<and> list_all (\<lambda>ae. list_all filled (snd ae)) aes
    \<and> mset (concat (map fst aes)) + mset (concat (map snd aes)) + mset (concat (map (\<lambda>(k, s). sl_batches s) shs'))
       = mset (concat (map (\<lambda>(k, s). sl_batches s) shs))"
  using assms
proof (induction shs arbitrary: i)
  case (Cons ks shs)
  obtain k s where ks: "ks = (k, s)" by force
  with Cons.prems have s: "sl_ok s" "list_all filled (sl_batches s)" by auto
  from drain_moves [OF s, of "at_drain (c i)" "at_take (c i)"] obtain a x s' where
    d: "drain ops (at_drain (c i)) (at_take (c i)) s = Inr ((a, x), s')" "sl_ok s'" "list_all filled a" "list_all filled x"
      "list_all filled (sl_batches s')" "mset a + mset x + mset (sl_batches s') = mset (sl_batches s)" by blast
  from Cons.IH [of "Suc i"] Cons.prems obtain aes shs' where
    r: "drain_all ops c (Suc i) shs = Inr (aes, shs')" "map fst shs' = map fst shs"
      "\<forall>(k, s)\<in>set shs'. sl_ok s \<and> list_all filled (sl_batches s)"
      "list_all (\<lambda>ae. list_all filled (fst ae)) aes" "list_all (\<lambda>ae. list_all filled (snd ae)) aes"
      "mset (concat (map fst aes)) + mset (concat (map snd aes)) + mset (concat (map (\<lambda>(k, s). sl_batches s) shs'))
       = mset (concat (map (\<lambda>(k, s). sl_batches s) shs))" by auto
  have "mset (a @ concat (map fst aes)) + mset (x @ concat (map snd aes))
      + mset (sl_batches s' @ concat (map (\<lambda>(k, s). sl_batches s) shs'))
    = (mset a + mset x + mset (sl_batches s')) + (mset (concat (map fst aes)) + mset (concat (map snd aes))
      + mset (concat (map (\<lambda>(k, s). sl_batches s) shs')))" by (simp only: mset_append add_ac)
  also have "\<dots> = mset (sl_batches s @ concat (map (\<lambda>(k, s). sl_batches s) shs))" by (simp only: d(6) r(6) mset_append)
  finally have m: "mset (a @ concat (map fst aes)) + mset (x @ concat (map snd aes))
      + mset (sl_batches s' @ concat (map (\<lambda>(k, s). sl_batches s) shs')) = mset (sl_batches s @ concat (map (\<lambda>(k, s). sl_batches s) shs))" .
  show ?case
    by (rule exI [of _ "(a, x) # aes"], rule exI [of _ "(k, s') # shs'"])
      (use ks d r m in \<open>simp del: mset_append\<close>)
qed simp

lemma drain_turn_flows:
  assumes "lm_ok lm"
  shows "flows lm [] (drain_turn ops cfg c lm)"
proof -
  have "\<forall>(k, s)\<in>set (lm_shards lm). sl_ok s \<and> list_all filled (sl_batches s)" using assms by (simp add: lm_ok_def)
  from drain_all_moves [OF this, of c 0] obtain aes shs where
    r: "drain_all ops c 0 (lm_shards lm) = Inr (aes, shs)" "map fst shs = map fst (lm_shards lm)"
      "\<forall>(k, s)\<in>set shs. sl_ok s \<and> list_all filled (sl_batches s)"
      "list_all (\<lambda>ae. list_all filled (fst ae)) aes" "list_all (\<lambda>ae. list_all filled (snd ae)) aes"
      "mset (concat (map fst aes)) + mset (concat (map snd aes)) + mset (concat (map (\<lambda>(k, s). sl_batches s) shs))
       = mset (concat (map (\<lambda>(k, s). sl_batches s) (lm_shards lm)))" by blast
  then show ?thesis using assms dispatch_all_filled [OF r(4), of cfg c 0]
    by (auto simp: drain_turn_def flows_def lm_ok_def lm_batches_def list_all_iff)
qed

lemma force_all_moves:
  fixes c i
  defines "res \<equiv> \<lambda>i shs. map (\<lambda>(i, k, s). (k, drain_force ops (at_drain (c i)) s)) (enumerate i shs)"
  assumes "\<forall>(k, s)\<in>set shs. sl_ok s \<and> list_all filled (sl_batches s)"
  shows "map fst (res i shs) = map fst shs
    \<and> (\<forall>(k, ae, s)\<in>set (res i shs). sl_ok s \<and> sl_batches s = [] \<and> list_all filled (fst ae) \<and> list_all filled (snd ae))
    \<and> mset (concat (map (\<lambda>(k, ae, s). fst ae) (res i shs))) + mset (concat (map (\<lambda>(k, ae, s). snd ae) (res i shs)))
       = mset (concat (map (\<lambda>(k, s). sl_batches s) shs))"
  using assms(2)
proof (induction shs arbitrary: i)
  case (Cons ks shs)
  obtain k s where ks: "ks = (k, s)" by force
  with Cons.prems have "sl_ok s" "list_all filled (sl_batches s)" by auto
  from force_moves [OF this, of "at_drain (c i)"] Cons.IH [of "Suc i"] Cons.prems ks show ?case
    by (auto simp: res_def add_ac)
qed (simp add: res_def)

lemma limiter_flush_flows:
  assumes "lm_ok lm"
  shows "flows lm [] (limiter_flush ops cfg c lm) \<and> lm_batches (snd (limiter_flush ops cfg c lm)) = []"
proof -
  define res where "res = map (\<lambda>(i, k, s). (k, drain_force ops (at_drain (c i)) s)) (enumerate 0 (lm_shards lm))"
  define aes where "aes = map (\<lambda>(k, ae, s). ae) res"
  have "\<forall>(k, s)\<in>set (lm_shards lm). sl_ok s \<and> list_all filled (sl_batches s)" using assms by (simp add: lm_ok_def)
  note f = force_all_moves [OF this, of c 0, folded res_def]
  have fl: "limiter_flush ops cfg c lm = (dispatch_all cfg c 0 aes, lm\<lparr>lm_shards := map (\<lambda>(k, ae, s). (k, s)) res\<rparr>)"
    unfolding limiter_flush_def Let_def res_def aes_def by simp
  have keys: "map fst (map (\<lambda>(k, ae, s). (k, s)) res) = map fst res" by (simp add: split_beta comp_def)
  have "concat (map (\<lambda>(k, s). sl_batches s) (map (\<lambda>(k, ae, s). (k, s)) res)) = []"
    using f by (auto simp: split_beta)
  moreover have "lm_ok (snd (limiter_flush ops cfg c lm))"
    using f assms keys by (auto simp: fl lm_ok_def split_beta)
  moreover have "map fst aes = map (\<lambda>(k, ae, s). fst ae) res" "map snd aes = map (\<lambda>(k, ae, s). snd ae) res"
    by (simp_all add: aes_def split_beta comp_def)
  moreover have a: "list_all (\<lambda>ae. list_all filled (fst ae)) aes" "list_all (\<lambda>ae. list_all filled (snd ae)) aes"
    using f by (auto simp: list_all_iff split_beta aes_def)
  moreover have "list_all filled (concat (map fst aes))" "list_all filled (concat (map snd aes))"
    using a by (auto simp: list_all_iff)
  ultimately show ?thesis
    using dispatch_all_filled [OF a(1), of cfg c 0] f unfolding flows_def fl lm_batches_def by simp
qed

end

end
