(* ===== verification/Pipeline.thy ===== *)
theory Pipeline
  imports Retrier Limiter_Flow
begin

text \<open>
  The per-stream pipeline of \<^verbatim>\<open>src/aiokpl/producer.py\<close> and the tunables of \<^verbatim>\<open>src/aiokpl/config.py\<close>: the callbacks
  that \<open>_build_pipeline\<close> wires between aggregator, limiter, collector, sender and retrier.  Each callback
  runs one section under a lock of the component it calls and leaves work to be done next, by the same
  task or by the task it spawns; \<open>pl_work\<close> is the work that is still to be done.  What a callback reads from
  outside (clocks, the shard map, the answer of Kinesis) is the record \<open>env\<close>.
\<close>

section \<open>Config\<close>

record Config =
  cf_region :: pystr
  cf_aggregation_enabled :: bool
  cf_aggregation_max_count :: nat
  cf_aggregation_max_size :: nat
  cf_record_max_buffered_time_ms :: real
  cf_record_ttl_ms :: real
  cf_collection_max_count :: nat
  cf_collection_max_size :: nat
  cf_rate_limit_records_per_sec_per_shard :: real
  cf_rate_limit_bytes_per_sec_per_shard :: real
  cf_drain_interval_ms :: real
  cf_fail_if_throttled :: bool
  cf_retry_deadline_ms :: real
  cf_max_outstanding_records :: nat
  cf_endpoint_url :: "pystr option"
  cf_verify_ssl :: bool
  cf_aws_access_key_id :: "pystr option"
  cf_aws_secret_access_key :: "pystr option"
  cf_aws_session_token :: "pystr option"
  cf_metrics_level :: MetricsLevel
  cf_metrics_upload_interval_ms :: real

definition config_default :: "pystr \<Rightarrow> Config" where
  "config_default region =
     \<lparr>cf_region = region, cf_aggregation_enabled = True, cf_aggregation_max_count = 4294967295,
      cf_aggregation_max_size = 51200, cf_record_max_buffered_time_ms = 100, cf_record_ttl_ms = 30000,
      cf_collection_max_count = 500, cf_collection_max_size = 5 * 1024 * 1024,
      cf_rate_limit_records_per_sec_per_shard = 1000, cf_rate_limit_bytes_per_sec_per_shard = 1048576,
      cf_drain_interval_ms = 25, cf_fail_if_throttled = False, cf_retry_deadline_ms = 50,
      cf_max_outstanding_records = 100000, cf_endpoint_url = None, cf_verify_ssl = True,
      cf_aws_access_key_id = None, cf_aws_secret_access_key = None, cf_aws_session_token = None, cf_metrics_level = NONE, cf_metrics_upload_interval_ms = 60000\<rparr>"

text \<open>How \<open>_build_pipeline\<close> hands the tunables to the components; the metrics manager is always there.\<close>

definition build_aggregator_cfg :: "Config \<Rightarrow> pystr \<Rightarrow> aggregator_cfg" where
  "build_aggregator_cfg cfg stream =
     aggregator_cfg_of (cf_aggregation_enabled cfg) (cf_record_max_buffered_time_ms cfg)
       (cf_aggregation_max_count cfg) (cf_aggregation_max_size cfg) True (Some stream)"

definition build_limiter_cfg :: "Config \<Rightarrow> pystr \<Rightarrow> limiter_cfg" where
  "build_limiter_cfg cfg stream =
     limiter_cfg_of (cf_rate_limit_records_per_sec_per_shard cfg) (cf_rate_limit_bytes_per_sec_per_shard cfg)
       (cf_record_ttl_ms cfg) (cf_drain_interval_ms cfg) True (Some stream)"

definition build_collector_cfg :: "Config \<Rightarrow> collector_cfg" where
  "build_collector_cfg cfg =
     collector_cfg_default\<lparr>collection_max_count := cf_collection_max_count cfg,
       collection_max_size := cf_collection_max_size cfg\<rparr>"

definition build_sender_cfg :: "pystr \<Rightarrow> sender_cfg" where
  "build_sender_cfg stream = \<lparr>sd_stream = stream, sd_metrics = True\<rparr>"

definition build_retrier_cfg :: "Config \<Rightarrow> pystr \<Rightarrow> retrier_cfg" where
  "build_retrier_cfg cfg stream =
     retrier_cfg_of (cf_record_ttl_ms cfg) (cf_fail_if_throttled cfg) (cf_retry_deadline_ms cfg) True (Some stream)"

section \<open>The pipeline\<close>

datatype work =
    Route BufferedRecord
  | ToLimiter AggregatedBatch
  | ToCollector AggregatedBatch
  | ToExpired AggregatedBatch pystr
  | ToSend PutRecordsBatch
  | Finish BufferedRecord RecordResult

record env =
  e_now :: real
  e_ready :: bool
  e_predict :: "int \<Rightarrow> int option"
  e_hashrange :: "nat \<Rightarrow> int \<Rightarrow> (int \<times> int) option"
  e_lclock :: "nat \<Rightarrow> lclock"
  e_put_records :: put_records_fn
  e_started_at :: real
  e_ended_at :: real
  e_rclock :: "nat \<Rightarrow> nat \<Rightarrow> real"
  e_inv_at :: "nat \<Rightarrow> real"

text \<open>\<open>pl_pending\<close> maps the identity of a record to the outcome that was handed to the caller.\<close>

record 'q pipeline =
  pl_stream :: pystr
  pl_agg :: aggregator
  pl_lim :: "'q Limiter"
  pl_col :: collector
  pl_pending :: "(nat \<times> nat) list"
  pl_work :: "work list"

definition build_pipeline :: "Config \<Rightarrow> pystr \<Rightarrow> 'q pipeline" where
  "build_pipeline cfg stream =
     \<lparr>pl_stream = stream, pl_agg = agg_aenter aggregator_init, pl_lim = limiter_aenter limiter_init,
      pl_col = collector_aenter (build_collector_cfg cfg) collector_init, pl_pending = [], pl_work = []\<rparr>"

text \<open>The work that the effects of a component leave.\<close>

fun limiter_work :: "limiter_effect \<Rightarrow> work list" where
  "limiter_work (OnAdmit b) = [ToCollector b]"
| "limiter_work (OnExpired b reason) = [ToExpired b reason]"
| "limiter_work (LMetric m) = []"

fun retrier_work :: "retrier_effect \<Rightarrow> work list" where
  "retrier_work (OnFinish x r) = [Finish x r]"
| "retrier_work (OnRetry x) = [Route x]"
| "retrier_work _ = []"

type_synonym 'q result = "(pyerr option \<times> work list) \<times> 'q pipeline"

definition batches_out :: "(pyerr + AggregatedBatch option) \<times> aggregator \<Rightarrow> 'q pipeline \<Rightarrow> 'q result" where
  "batches_out res pl =
     ((case fst res of Inl e \<Rightarrow> Some e | Inr _ \<Rightarrow> None, map ToLimiter (emitted (fst res))), pl\<lparr>pl_agg := snd res\<rparr>)"

definition requests_out :: "(pyerr + PutRecordsBatch option) \<times> collector \<Rightarrow> 'q pipeline \<Rightarrow> 'q result" where
  "requests_out res pl =
     ((case fst res of Inl e \<Rightarrow> Some e | Inr _ \<Rightarrow> None, map ToSend (emitted (fst res))), pl\<lparr>pl_col := snd res\<rparr>)"

definition limited_out :: "(limiter_effect list \<times> pyerr option) \<times> 'q Limiter \<Rightarrow> 'q pipeline \<Rightarrow> 'q result" where
  "limited_out res pl = ((snd (fst res), concat (map limiter_work (fst (fst res)))), pl\<lparr>pl_lim := snd res\<rparr>)"

definition handled :: "retrier_effect list \<times> pyerr option \<Rightarrow> 'q pipeline \<Rightarrow> 'q result" where
  "handled res pl = ((snd res, concat (map retrier_work (fst res))), pl)"

text \<open>\<open>aggregator.put_buffered\<close>, called for a new record and by \<open>on_retrier_retry\<close>.\<close>

definition route :: "Config \<Rightarrow> env \<Rightarrow> BufferedRecord \<Rightarrow> 'q pipeline \<Rightarrow> 'q result" where
  "route cfg e x pl =
     batches_out
       (put_buffered (build_aggregator_cfg cfg (pl_stream pl)) (e_now e) (e_ready e) (e_predict e) x (pl_agg pl)) pl"

definition on_aggregator_batch :: "(Pending, 'q) skl \<Rightarrow> Config \<Rightarrow> env \<Rightarrow> AggregatedBatch \<Rightarrow> 'q pipeline \<Rightarrow> 'q result" where
  "on_aggregator_batch ops cfg e b pl =
     limited_out (limiter_put ops (build_limiter_cfg cfg (pl_stream pl)) (e_lclock e 0) b (pl_lim pl)) pl"

definition on_limiter_admit :: "Config \<Rightarrow> env \<Rightarrow> AggregatedBatch \<Rightarrow> 'q pipeline \<Rightarrow> 'q result" where
  "on_limiter_admit cfg e b pl = requests_out (collector_put (build_collector_cfg cfg) (e_now e) b (pl_col pl)) pl"

definition expired_outcome :: "pystr \<Rightarrow> real \<Rightarrow> AggregatedBatch \<Rightarrow> pystr \<Rightarrow> SendOutcome" where
  "expired_outcome stream now b reason =
     \<lparr>so_stream = stream, so_started_at = now, so_ended_at = now,
      request_error = Some (EXPIRED_ERROR_CODE, EXPIRED_ERROR_MESSAGE @ lit '': '' @ reason),
      per_record = [], batch_items = [b]\<rparr>"

definition handle_expired :: "Config \<Rightarrow> env \<Rightarrow> AggregatedBatch \<Rightarrow> pystr \<Rightarrow> 'q pipeline \<Rightarrow> 'q result" where
  "handle_expired cfg e b reason pl =
     handled (handle (build_retrier_cfg cfg (pl_stream pl)) (e_hashrange e) (e_rclock e) (e_inv_at e)
       (expired_outcome (pl_stream pl) (e_now e) b reason)) pl"

definition send_and_handle :: "Config \<Rightarrow> env \<Rightarrow> PutRecordsBatch \<Rightarrow> 'q pipeline \<Rightarrow> 'q result" where
  "send_and_handle cfg e req pl =
     (case send (build_sender_cfg (pl_stream pl)) (e_put_records e) (e_started_at e) (e_ended_at e) req of
        Inl err \<Rightarrow> ((Some err, []), pl)
      | Inr (out, ms) \<Rightarrow>
          handled (handle (build_retrier_cfg cfg (pl_stream pl)) (e_hashrange e) (e_rclock e) (e_inv_at e) out) pl)"

text \<open>The timers and background turns of the components, and the three stages of \<open>flush\<close>.\<close>

definition aggregator_wakes :: "Config \<Rightarrow> env \<Rightarrow> int option \<Rightarrow> nat \<Rightarrow> 'q pipeline \<Rightarrow> 'q result" where
  "aggregator_wakes cfg e p s pl =
     batches_out (agg_timer (build_aggregator_cfg cfg (pl_stream pl)) (e_now e) p s (pl_agg pl)) pl"

definition collector_wakes :: "Config \<Rightarrow> env \<Rightarrow> nat \<Rightarrow> 'q pipeline \<Rightarrow> 'q result" where
  "collector_wakes cfg e s pl = requests_out (collector_timer (build_collector_cfg cfg) (e_now e) s (pl_col pl)) pl"

definition limiter_turn :: "(Pending, 'q) skl \<Rightarrow> Config \<Rightarrow> env \<Rightarrow> 'q pipeline \<Rightarrow> 'q result" where
  "limiter_turn ops cfg e pl =
     limited_out (drain_turn ops (build_limiter_cfg cfg (pl_stream pl)) (e_lclock e) (pl_lim pl)) pl"

definition flush_aggregator :: "Config \<Rightarrow> env \<Rightarrow> int option \<Rightarrow> 'q pipeline \<Rightarrow> 'q result" where
  "flush_aggregator cfg e p pl =
     batches_out (agg_flush_one (build_aggregator_cfg cfg (pl_stream pl)) (e_now e) p (pl_agg pl)) pl"

definition flush_limiter :: "(Pending, 'q) skl \<Rightarrow> Config \<Rightarrow> env \<Rightarrow> 'q pipeline \<Rightarrow> 'q result" where
  "flush_limiter ops cfg e pl =
     limited_out (limiter_flush ops (build_limiter_cfg cfg (pl_stream pl)) (e_lclock e) (pl_lim pl)) pl"

definition flush_collector :: "Config \<Rightarrow> env \<Rightarrow> 'q pipeline \<Rightarrow> 'q result" where
  "flush_collector cfg e pl = requests_out (collector_flush (build_collector_cfg cfg) (e_now e) (pl_col pl)) pl"

section \<open>Where the records are\<close>

fun work_records :: "work \<Rightarrow> BufferedRecord list" where
  "work_records (Route x) = [x]"
| "work_records (ToLimiter b) = ab_items b"
| "work_records (ToCollector b) = ab_items b"
| "work_records (ToExpired b reason) = ab_items b"
| "work_records (ToSend req) = concat (map ab_items (pr_items req))"
| "work_records (Finish x r) = [x]"

definition lim_batches :: "(Pending, 'q) skl \<Rightarrow> 'q Limiter \<Rightarrow> AggregatedBatch list" where
  "lim_batches ops lm = concat (map (\<lambda>(k, s). map p_batch (skl_list ops (sl_queue s))) (lm_shards lm))"

definition buffered_records :: "(Pending, 'q) skl \<Rightarrow> 'q pipeline \<Rightarrow> BufferedRecord list" where
  "buffered_records ops pl =
     map snd (held (pl_agg pl)) @ concat (map ab_items (lim_batches ops (pl_lim pl)))
     @ concat (map ab_items (col_batches (pl_col pl)))"

section \<open>Nothing is lost on the way\<close>

definition rec_ok :: "BufferedRecord \<Rightarrow> bool" where
  "rec_ok x \<longleftrightarrow> record_scalar (user_record x) \<and> list_all failed_try (attempts x)"

definition bwf :: "AggregatedBatch \<Rightarrow> bool" where
  "bwf b \<longleftrightarrow> filled b \<and> sized b \<and> list_all rec_ok (ab_items b)"

fun work_ok :: "work \<Rightarrow> bool" where
  "work_ok (Route x) = rec_ok x"
| "work_ok (ToLimiter b) = bwf b"
| "work_ok (ToCollector b) = bwf b"
| "work_ok (ToExpired b reason) = bwf b"
| "work_ok (ToSend req) = (pr_items req \<noteq> [] \<and> list_all bwf (pr_items req))"
| "work_ok (Finish x r) = result_ok r"

lemma rec_ok_encodable: "rec_ok x \<Longrightarrow> encodable x"
  by (auto simp: rec_ok_def record_scalar_def encodable_def pk_of_def ehks_of_def)

lemma rec_ok_tried: "list_all rec_ok xs \<Longrightarrow> list_all (\<lambda>x. list_all failed_try (attempts x)) xs"
  by (auto simp: rec_ok_def list_all_iff)

lemma good_batch_bwf:
  assumes "good_batch cfg b" "list_all rec_ok (ab_items b)"
  shows "bwf b"
proof -
  obtain xs x where "ab_items b = xs @ [x]" using assms(1) by (cases "ab_items b" rule: rev_cases) (auto simp: good_batch_def)
  then show ?thesis
    using assms by (simp add: bwf_def good_batch_def filled_def sized_def agg_ok_def agg_size_snoc)
qed

lemma filled_sendable: "filled b \<Longrightarrow> list_all (\<lambda>x. record_scalar (user_record x)) (ab_items b) \<Longrightarrow> sendable b"
  by (cases "ab_items b"; cases "tl (ab_items b)") (auto simp: filled_def sendable_def list_all_iff)

lemma bwf_sendable: "bwf b \<Longrightarrow> sendable b"
  by (rule filled_sendable) (auto simp: bwf_def rec_ok_def list_all_iff)

lemma sent_records: "map snd (sent bs) = concat (map ab_items bs)"
  by (induction bs) (simp_all add: sent_def comp_def)

lemma concat_work [simp]: "map (work_records \<circ> ToLimiter) bs = map ab_items bs"
  "concat (map (work_records \<circ> ToSend) qs) = concat (map ab_items (concat (map pr_items qs)))"
  by (simp add: comp_def, induction qs, simp_all)

lemma list_all_mset_cong: "mset xs = mset ys \<Longrightarrow> list_all P xs = list_all P ys"
  by (metis list_all_iff set_mset_mset)

lemma concat_items_mset:
  fixes xs ys :: "AggregatedBatch list"
  assumes "mset xs = mset ys"
  shows "mset (concat (map ab_items xs)) = mset (concat (map ab_items ys))"
proof -
  have "mset (concat (map ab_items zs)) = (\<Sum>z\<in>#mset zs. mset (ab_items z))" for zs :: "AggregatedBatch list"
    by (induction zs) simp_all
  with assms show ?thesis by simp
qed

text \<open>The rates of the configuration are not negative.\<close>

definition sane :: "Config \<Rightarrow> bool" where
  "sane cfg \<longleftrightarrow> 0 \<le> cf_rate_limit_records_per_sec_per_shard cfg \<and> 0 \<le> cf_rate_limit_bytes_per_sec_per_shard cfg"

text \<open>What is expected of the service: the shard ids it answers with can be read, as those of the
  documented form \<open>shardId-000000000000\<close> can.\<close>

definition readable_client :: "put_records_fn \<Rightarrow> bool" where
  "readable_client f \<longleftrightarrow> (\<forall>stream entries slots. f stream entries = Inr (Some slots) \<longrightarrow>
     list_all (\<lambda>slot. \<forall>s. slot_ShardId slot = Some s \<longrightarrow> \<not> unreadable_id s) slots)"

lemma build_per_record_readable:
  assumes "\<forall>s. slot_ShardId slot = Some s \<longrightarrow> \<not> unreadable_id s"
  shows "readable (build_per_record ar slot)"
proof -
  have "\<not> isl (parse_actual_shard_id (slot_ShardId slot))"
    using assms unreadable_iff by (cases "slot_ShardId slot") (auto simp: parse_actual_shard_id_def)
  then show ?thesis by (auto simp: readable_def build_per_record_def split: option.splits list.splits)
qed

lemma send_readable:
  assumes "readable_client f" "send cfg f t0 t1 req = Inr (out, ms)"
  shows "list_all readable (per_record out)"
proof (cases "emap build_entry (pr_items req)")
  case (Inr entries)
  show ?thesis
  proof (cases "f (sd_stream cfg) entries")
    case (Inl e)
    with assms(2) Inr show ?thesis by (auto simp: send_def Let_def split: if_splits)
  next
    case (Inr resp)
    define rs where "rs = (case resp of None \<Rightarrow> [] | Some rs \<Rightarrow> rs)"
    have "list_all (\<lambda>slot. \<forall>s. slot_ShardId slot = Some s \<longrightarrow> \<not> unreadable_id s) rs"
      using assms(1) Inr unfolding readable_client_def rs_def by (cases resp) auto
    then have "list_all readable (map2 build_per_record (pr_items req) rs)"
      using build_per_record_readable by (auto simp: list_all_iff dest!: set_zip_rightD)
    moreover have "per_record out = [] \<or> per_record out = map2 build_per_record (pr_items req) rs"
      using assms(2) Inr \<open>emap build_entry (pr_items req) = Inr entries\<close>
      by (auto simp: send_def Let_def rs_def split: if_splits)
    ultimately show ?thesis by auto
  qed
qed (use assms(2) in \<open>auto simp: send_def split: if_splits\<close>)

lemma send_outcome_records:
  assumes "well_formed_outcome req out"
  shows "outcome_records out = concat (map ab_items (pr_items req))"
proof (cases "request_error out")
  case None
  then have "map po_batch (per_record out) = pr_items req" using assms by (simp add: well_formed_outcome_def)
  then have "map ab_items (pr_items req) = map (\<lambda>po. ab_items (po_batch po)) (per_record out)" by (auto simp flip: \<open>map po_batch (per_record out) = pr_items req\<close>)
  with None show ?thesis by (simp add: outcome_records_def)
qed (use assms in \<open>simp add: outcome_records_def well_formed_outcome_def\<close>)

lemma follows_work:
  assumes "follows rc x e"
  shows "map obj (concat (map work_records (retrier_work e))) = [obj x]" "rec_ok x \<Longrightarrow> carries e \<Longrightarrow> list_all work_ok (retrier_work e)"
  using assms by (cases e; simp add: same_record_def rec_ok_def)+

lemma retrier_work_records:
  "list_all2 (follows rc) xs (verdicts es) \<Longrightarrow>
   map obj (concat (map work_records (concat (map retrier_work es)))) = map obj xs
    \<and> (list_all rec_ok xs \<longrightarrow> list_all carries (verdicts es) \<longrightarrow> list_all work_ok (concat (map retrier_work es)))"
proof (induction es arbitrary: xs)
  case (Cons e es)
  show ?case
  proof (cases "terminal e")
    case True
    then obtain y ys where "xs = y # ys" "follows rc y e" "list_all2 (follows rc) ys (verdicts es)"
      using Cons.prems by (auto simp: verdicts_def list_all2_Cons2)
    moreover have "verdicts (e # es) = e # verdicts es" using True by (simp add: verdicts_def)
    ultimately show ?thesis using Cons.IH follows_work [of rc y e] by auto
  next
    case False
    then have "retrier_work e = []" "verdicts (e # es) = verdicts es" by (cases e; simp add: verdicts_def)+
    with Cons show ?thesis by simp
  qed
qed (simp add: verdicts_def)

context limiter_queue
begin

lemma lim_batches_eq: "lim_batches ops lm = lm_batches lm"
  by (simp add: lim_batches_def lm_batches_def sl_batches_def)

definition pl_ok :: "Config \<Rightarrow> real \<Rightarrow> 'q pipeline \<Rightarrow> bool" where
  "pl_ok cfg t pl \<longleftrightarrow> ag_inv (build_aggregator_cfg cfg (pl_stream pl)) t (pl_agg pl)
     \<and> list_all rec_ok (map snd (held (pl_agg pl)))
     \<and> lm_ok (pl_lim pl) \<and> list_all bwf (lm_batches (pl_lim pl))
     \<and> col_ok (build_collector_cfg cfg) t (pl_col pl) \<and> list_all bwf (col_batches (pl_col pl))"

definition passes :: "Config \<Rightarrow> real \<Rightarrow> BufferedRecord list \<Rightarrow> 'q pipeline \<Rightarrow> 'q result \<Rightarrow> bool" where
  "passes cfg t xs pl res \<longleftrightarrow> fst (fst res) = None \<and> pl_ok cfg t (snd res) \<and> list_all work_ok (snd (fst res))
     \<and> pl_stream (snd res) = pl_stream pl \<and> pl_pending (snd res) = pl_pending pl \<and> pl_work (snd res) = pl_work pl
     \<and> mset (map obj (buffered_records ops (snd res) @ concat (map work_records (snd (fst res)))))
        = mset (map obj (buffered_records ops pl @ xs))"

lemma pl_ok_mono: "pl_ok cfg t pl \<Longrightarrow> t \<le> t' \<Longrightarrow> pl_ok cfg t' pl"
  by (auto simp: pl_ok_def intro: ag_inv_mono col_ok_mono)

lemma pl_ok_build: "pl_ok cfg t (build_pipeline cfg stream)" "buffered_records ops (build_pipeline cfg stream) = []"
  using col_ok_aenter [of "build_collector_cfg cfg"]
  by (simp_all add: pl_ok_def build_pipeline_def ag_inv_def agg_aenter_def aggregator_init_def held_def
      limiter_aenter_def limiter_init_def lm_ok_def lm_batches_def buffered_records_def lim_batches_eq)

lemma batches_out_passes:
  assumes "pl_ok cfg t pl" "list_all rec_ok (map snd ps)"
    "ag_inv (build_aggregator_cfg cfg (pl_stream pl)) t ag'" "\<forall>e. out \<noteq> Inl e"
    "\<forall>b\<in>set (emitted out). good_batch (build_aggregator_cfg cfg (pl_stream pl)) b"
    and m: "mset (sent (emitted out)) + mset (held ag') = mset (held (pl_agg pl)) + mset ps"
  shows "passes cfg t (map snd ps) pl (batches_out (out, ag') pl)"
proof -
  have "image_mset snd (mset (sent (emitted out)) + mset (held ag')) = image_mset snd (mset (held (pl_agg pl)) + mset ps)"
    by (simp only: m)
  then have r: "mset (concat (map ab_items (emitted out)) @ map snd (held ag')) = mset (map snd (held (pl_agg pl)) @ map snd ps)"
    by (simp flip: sent_records)
  from list_all_mset_cong [OF this, of rec_ok] assms(1,2)
  have ok: "list_all rec_ok (concat (map ab_items (emitted out)))" "list_all rec_ok (map snd (held ag'))"
    by (simp_all add: pl_ok_def)
  then have "list_all bwf (emitted out)"
    using assms(5) good_batch_bwf by (fastforce simp: list_all_iff)
  moreover have "image_mset obj (mset (concat (map ab_items (emitted out)) @ map snd (held ag')))
      = image_mset obj (mset (map snd (held (pl_agg pl)) @ map snd ps))" by (simp only: r)
  ultimately show ?thesis
    using assms(1,3,4) ok(2)
    by (cases out) (simp_all add: passes_def batches_out_def pl_ok_def buffered_records_def list_all_iff multiset.map_comp add_ac)
qed

lemma requests_out_passes:
  assumes "pl_ok cfg t pl" "list_all bwf bs" "col_moves (build_collector_cfg cfg) t bs (pl_col pl) res"
  shows "passes cfg t (concat (map ab_items bs)) pl (requests_out res pl)"
proof -
  have m: "mset (concat (map pr_items (emitted (fst res))) @ col_batches (snd res)) = mset (col_batches (pl_col pl) @ bs)"
    using assms(3) by (simp add: col_moves_def)
  from list_all_mset_cong [OF m, of bwf] assms(1,2)
  have ok: "list_all bwf (concat (map pr_items (emitted (fst res))))" "list_all bwf (col_batches (snd res))"
    by (simp_all add: pl_ok_def)
  have "image_mset obj (mset (concat (map ab_items (concat (map pr_items (emitted (fst res))) @ col_batches (snd res)))))
      = image_mset obj (mset (concat (map ab_items (col_batches (pl_col pl) @ bs))))"
    by (simp only: concat_items_mset [OF m])
  with assms ok show ?thesis
    by (cases "fst res") (auto simp: passes_def requests_out_def pl_ok_def buffered_records_def col_moves_def list_all_iff add_ac)
qed

lemma limiter_work_records:
  "mset (concat (map work_records (concat (map limiter_work es)))) =
     mset (concat (map ab_items (admitted_in es))) + mset (concat (map ab_items (expired_in es)))"
proof (induction es)
  case (Cons e es)
  then show ?case by (cases e) (simp_all add: add_ac)
qed simp

lemma limiter_work_ok:
  "list_all bwf (admitted_in es) \<Longrightarrow> list_all bwf (expired_in es) \<Longrightarrow> list_all work_ok (concat (map limiter_work es))"
proof (induction es)
  case (Cons e es)
  then show ?case by (cases e) simp_all
qed simp

lemma limited_out_passes:
  assumes "pl_ok cfg t pl" "list_all bwf bs" "flows (pl_lim pl) bs res"
  shows "passes cfg t (concat (map ab_items bs)) pl (limited_out res pl)"
proof -
  let ?es = "fst (fst res)"
  have m: "mset (admitted_in ?es @ expired_in ?es @ lm_batches (snd res)) = mset (lm_batches (pl_lim pl) @ bs)"
    using assms(3) by (simp add: flows_def add_ac)
  from list_all_mset_cong [OF m, of bwf] assms(1,2)
  have ok: "list_all bwf (admitted_in ?es)" "list_all bwf (expired_in ?es)" "list_all bwf (lm_batches (snd res))"
    by (simp_all add: pl_ok_def)
  have "image_mset obj (mset (concat (map ab_items (admitted_in ?es @ expired_in ?es @ lm_batches (snd res)))))
      = image_mset obj (mset (concat (map ab_items (lm_batches (pl_lim pl) @ bs))))"
    by (simp only: concat_items_mset [OF m])
  moreover have "image_mset obj (mset (concat (map work_records (concat (map limiter_work ?es)))))
      = image_mset obj (mset (concat (map ab_items (admitted_in ?es))) + mset (concat (map ab_items (expired_in ?es))))"
    by (simp only: limiter_work_records)
  ultimately show ?thesis
    using assms(1,3) ok limiter_work_ok [OF ok(1,2)]
    by (simp add: passes_def limited_out_def pl_ok_def buffered_records_def flows_def lim_batches_eq add_ac)
qed

lemma handled_passes:
  assumes "pl_ok cfg t pl" "list_all rec_ok xs" "snd res = None" "list_all2 (follows rc) xs (verdicts (fst res))"
    "list_all carries (verdicts (fst res))"
  shows "passes cfg t xs pl (handled res pl)"
proof -
  from retrier_work_records [OF assms(4)]
  have "mset (map obj (concat (map work_records (concat (map retrier_work (fst res)))))) = mset (map obj xs)"
    "list_all work_ok (concat (map retrier_work (fst res)))"
    using assms(2,5) by simp_all
  with assms(1,3) show ?thesis by (simp add: passes_def handled_def)
qed

lemma route_passes:
  assumes "pl_ok cfg (e_now e) pl" "rec_ok x"
  shows "passes cfg (e_now e) [x] pl (route cfg e x pl)"
proof -
  let ?ac = "build_aggregator_cfg cfg (pl_stream pl)"
  obtain out ag' where p: "put_buffered ?ac (e_now e) (e_ready e) (e_predict e) x (pl_agg pl) = (out, ag')" by fastforce
  have "ag_inv ?ac (e_now e) (pl_agg pl)" using assms(1) by (simp add: pl_ok_def)
  from put_buffered_step [OF this rec_ok_encodable [OF assms(2)] p] assms
  have "passes cfg (e_now e) (map snd [(predicted_of (e_ready e) (e_predict e) x, x)]) pl (batches_out (out, ag') pl)"
    by (intro batches_out_passes) simp_all
  then show ?thesis by (simp add: route_def p)
qed

lemma aggregator_wakes_passes:
  assumes "pl_ok cfg (e_now e) pl" "dict_get (reducers (pl_agg pl)) p = Some r" "(s, w) \<in> set (timer_tasks r)"
  shows "passes cfg (e_now e) [] pl (aggregator_wakes cfg e p s pl)"
proof -
  let ?ac = "build_aggregator_cfg cfg (pl_stream pl)"
  obtain out ag' where p: "agg_timer ?ac (e_now e) p s (pl_agg pl) = (out, ag')" by fastforce
  have "ag_inv ?ac (e_now e) (pl_agg pl)" using assms(1) by (simp add: pl_ok_def)
  from agg_timer_step [OF this assms(2,3) p] batches_out_passes [OF assms(1), of "[]" ag' out] show ?thesis
    by (simp add: aggregator_wakes_def p)
qed

lemma flush_aggregator_passes:
  assumes "pl_ok cfg (e_now e) pl"
  shows "passes cfg (e_now e) [] pl (flush_aggregator cfg e p pl)"
proof -
  let ?ac = "build_aggregator_cfg cfg (pl_stream pl)"
  obtain out ag' where p: "agg_flush_one ?ac (e_now e) p (pl_agg pl) = (out, ag')" by fastforce
  have "ag_inv ?ac (e_now e) (pl_agg pl)" using assms(1) by (simp add: pl_ok_def)
  from agg_flush_one_step [OF this p] batches_out_passes [OF assms(1), of "[]" ag' out] show ?thesis
    by (simp add: flush_aggregator_def p)
qed

lemma on_aggregator_batch_passes:
  assumes "pl_ok cfg t pl" "bwf b" "sane cfg"
  shows "passes cfg t (ab_items b) pl (on_aggregator_batch ops cfg e b pl)"
proof -
  have "flows (pl_lim pl) [b] (limiter_put ops (build_limiter_cfg cfg (pl_stream pl)) (e_lclock e 0) b (pl_lim pl))"
    using assms by (intro limiter_put_flows)
      (auto simp: pl_ok_def bwf_def sane_def build_limiter_cfg_def limiter_cfg_of_def)
  from limited_out_passes [OF assms(1) _ this] assms(2) show ?thesis by (simp add: on_aggregator_batch_def)
qed

lemma limiter_turn_passes: "pl_ok cfg t pl \<Longrightarrow> passes cfg t [] pl (limiter_turn ops cfg e pl)"
  using limited_out_passes [of cfg t pl "[]"] drain_turn_flows by (simp add: limiter_turn_def pl_ok_def)

lemma flush_limiter_passes: "pl_ok cfg t pl \<Longrightarrow> passes cfg t [] pl (flush_limiter ops cfg e pl)"
  using limited_out_passes [of cfg t pl "[]"] limiter_flush_flows by (simp add: flush_limiter_def pl_ok_def)

lemma on_limiter_admit_passes:
  assumes "pl_ok cfg (e_now e) pl" "bwf b"
  shows "passes cfg (e_now e) (ab_items b) pl (on_limiter_admit cfg e b pl)"
  using requests_out_passes [OF assms(1), of "[b]"] collector_put_moves [of "build_collector_cfg cfg" "e_now e" "pl_col pl" b]
    assms by (simp add: on_limiter_admit_def pl_ok_def bwf_def)

lemma flush_collector_passes:
  assumes "pl_ok cfg (e_now e) pl"
  shows "passes cfg (e_now e) [] pl (flush_collector cfg e pl)"
  using requests_out_passes [OF assms(1), of "[]"] collector_flush_moves assms by (simp add: flush_collector_def pl_ok_def)

lemma collector_wakes_passes:
  assumes "pl_ok cfg (e_now e) pl" "c_reducer (pl_col pl) = Some r" "(s, w) \<in> set (timer_tasks r)"
  shows "passes cfg (e_now e) [] pl (collector_wakes cfg e s pl)"
  using requests_out_passes [OF assms(1), of "[]"] collector_timer_moves [OF _ assms(2,3)] assms(1)
  by (simp add: collector_wakes_def pl_ok_def)

lemma handle_expired_passes:
  assumes "pl_ok cfg t pl" "bwf b"
  shows "passes cfg t (ab_items b) pl (handle_expired cfg e b reason pl)"
proof -
  let ?out = "expired_outcome (pl_stream pl) (e_now e) b reason"
  have "list_all readable (per_record ?out)" "outcome_records ?out = ab_items b"
    by (simp_all add: expired_outcome_def outcome_records_def)
  with handle_follows [of ?out "build_retrier_cfg cfg (pl_stream pl)" "e_hashrange e" "e_rclock e" "e_inv_at e"]
    handle_carries [of ?out "build_retrier_cfg cfg (pl_stream pl)" "e_hashrange e" "e_rclock e" "e_inv_at e"] assms
  show ?thesis unfolding handle_expired_def by (intro handled_passes) (auto simp: bwf_def dest: rec_ok_tried)
qed

lemma send_and_handle_passes:
  assumes "pl_ok cfg t pl" "work_ok (ToSend req)" "readable_client (e_put_records e)"
  shows "passes cfg t (work_records (ToSend req)) pl (send_and_handle cfg e req pl)"
proof -
  have "pr_items req \<noteq> []" "list_all sendable (pr_items req)"
    using assms(2) bwf_sendable by (auto simp: list_all_iff)
  from send_ok [OF this, of "build_sender_cfg (pl_stream pl)" "e_put_records e" "e_started_at e" "e_ended_at e"]
  obtain out ms where s: "send (build_sender_cfg (pl_stream pl)) (e_put_records e) (e_started_at e) (e_ended_at e) req = Inr (out, ms)"
      "well_formed_outcome req out" by blast
  have "list_all rec_ok (outcome_records out)"
    using assms(2) send_outcome_records [OF s(2)] by (auto simp: bwf_def list_all_iff)
  note carried = handle_carries [OF send_readable [OF assms(3) s(1)] rec_ok_tried [OF this]]
  with \<open>list_all rec_ok (outcome_records out)\<close> handle_follows [OF send_readable [OF assms(3) s(1)], of "build_retrier_cfg cfg (pl_stream pl)"] assms(1) show ?thesis
    by (auto simp: send_and_handle_def s(1) simp flip: send_outcome_records [OF s(2)] intro!: handled_passes [OF _ _ _ _ carried])
qed

end

end
