(* ===== verification/Producer.thy ===== *)
theory Producer
  imports Pipeline
begin

text \<open>
  Model of \<^verbatim>\<open>src/aiokpl/producer.py\<close>: backpressure, the dictionary of pipelines and the resolution of outcomes.
  \<open>put_record\<close> is three sections between its \<open>await\<close>s: passing the semaphore, building and registering the record,
  and routing it (the work \<open>Route\<close> of its pipeline).  Outcomes live in \<open>results\<close>; a pipeline's \<open>pending\<close> refers to
  them by position.  A run interleaves these sections with the callbacks, timers and flushes of
  all pipelines in any order.  \<open>raised\<close> collects the exceptions that escape from a callback.
\<close>

section \<open>State and operations\<close>

record 'q producer =
  p_closed :: bool
  p_tg :: bool
  p_client :: bool
  p_reporter :: bool
  semaphore :: nat
  outstanding :: int
  pipelines :: "(pystr \<times> 'q pipeline) list"
  results :: "RecordResult Outcome list"
  starting :: "(pystr \<times> UserRecord) list"
  raised :: "pyerr list"

definition producer_init :: "Config \<Rightarrow> 'q producer" where
  "producer_init cfg =
     \<lparr>p_closed = False, p_tg = False, p_client = False, p_reporter = False, semaphore = cf_max_outstanding_records cfg, outstanding = 0, pipelines = [], results = [],
      starting = [], raised = []\<rparr>"

text \<open>Entering creates the background task group, the client, whose creation may raise, and the metrics manager, which may raise
  too; then the background gauge is started unless metrics are off.\<close>

definition producer_aenter :: "pyerr option \<Rightarrow> pyerr option \<Rightarrow> Config \<Rightarrow> 'q producer \<Rightarrow> pyerr option \<times> 'q producer" where
  "producer_aenter client_enters metrics_enters cfg p =
     (let p = p\<lparr>p_tg := True\<rparr> in
      case client_enters of
        Some e \<Rightarrow> (Some e, p)
      | None \<Rightarrow>
          (let p = p\<lparr>p_client := True\<rparr> in
           case metrics_enters of
             Some e \<Rightarrow> (Some e, p)
           | None \<Rightarrow> (None, p\<lparr>p_reporter := (cf_metrics_level cfg \<noteq> NONE)\<rparr>)))"

definition outstanding_records :: "'q producer \<Rightarrow> int" where
  "outstanding_records p = outstanding p"

text \<open>The start of \<open>put_record\<close>; \<open>None\<close> while it waits for the semaphore.\<close>

definition put_record_enter :: "pystr \<Rightarrow> UserRecord \<Rightarrow> 'q producer \<Rightarrow> (pyerr + 'q producer) option" where
  "put_record_enter stream ur p =
     (if p_closed p then Some (Inl (RuntimeError ''Producer is closed''))
      else if partition_key ur = [] then Some (Inl (ValueError ''partition_key must be non-empty''))
      else if semaphore p = 0 then None
      else Some (Inr (p\<lparr>semaphore := semaphore p - 1, outstanding := outstanding p + 1,
             starting := starting p @ [(stream, ur)]\<rparr>)))"

definition get_or_create_pipeline :: "Config \<Rightarrow> pystr \<Rightarrow> 'q producer \<Rightarrow> 'q pipeline \<times> 'q producer" where
  "get_or_create_pipeline cfg stream p =
     (case dict_get (pipelines p) stream of
        Some existing \<Rightarrow> (existing, p)
      | None \<Rightarrow> let pl = build_pipeline cfg stream in (pl, p\<lparr>pipelines := dict_set stream pl (pipelines p)\<rparr>))"

definition release :: "'q producer \<Rightarrow> 'q producer" where
  "release p = p\<lparr>outstanding := outstanding p - 1, semaphore := semaphore p + 1\<rparr>"

definition put_record_register :: "Config \<Rightarrow> real \<Rightarrow> nat \<Rightarrow> pystr \<Rightarrow> UserRecord \<Rightarrow> 'q producer
    \<Rightarrow> (pyerr + nat) \<times> 'q producer" where
  "put_record_register cfg now oid stream ur p =
     (case get_or_create_pipeline cfg stream p of
        (pl, p) \<Rightarrow>
          (case build_buffered (build_aggregator_cfg cfg stream) now oid ur of
             Inl err \<Rightarrow> (Inl err, release p)
           | Inr (x, ms) \<Rightarrow>
               let h = length (results p);
                   pl = pl\<lparr>pl_pending := dict_set (obj x) h (pl_pending pl), pl_work := pl_work pl @ [Route x]\<rparr> in
               (Inr h, p\<lparr>results := results p @ [outcome_init], pipelines := dict_set stream pl (pipelines p)\<rparr>)))"

definition on_retrier_finish :: "pystr \<Rightarrow> BufferedRecord \<Rightarrow> RecordResult \<Rightarrow> 'q pipeline \<Rightarrow> 'q producer \<Rightarrow> 'q producer" where
  "on_retrier_finish stream x r pl p =
     (let popped = dict_get (pl_pending pl) (obj x);
          p = p\<lparr>pipelines := dict_set stream (pl\<lparr>pl_pending := dict_del (obj x) (pl_pending pl)\<rparr>) (pipelines p)\<rparr>;
          p = (case popped of
                 None \<Rightarrow> p
               | Some h \<Rightarrow>
                   if is_set (results p ! h) then p
                   else (case set_value r (results p ! h) of
                           Inl err \<Rightarrow> p | Inr out \<Rightarrow> p\<lparr>results := (results p)[h := out]\<rparr>))
      in release p)"

text \<open>Leaving the producer, after its last flush: the exit stack closes the parts of every pipeline in the
  reverse of the order they were entered in.\<close>

definition close_pipeline :: "Config \<Rightarrow> 'q pipeline \<Rightarrow> pyerr + 'q pipeline" where
  "close_pipeline cfg pl =
     ebind (collector_aexit (build_collector_cfg cfg) (pl_col pl)) (\<lambda>col.
     ebind (limiter_aexit (pl_lim pl)) (\<lambda>lim.
     ebind (agg_aexit (build_aggregator_cfg cfg (pl_stream pl)) (pl_agg pl)) (\<lambda>ag.
       Inr (pl\<lparr>pl_col := col, pl_lim := lim, pl_agg := ag\<rparr>))))"

definition producer_aexit :: "pyerr option \<Rightarrow> Config \<Rightarrow> 'q producer \<Rightarrow> pyerr + 'q producer" where
  "producer_aexit metrics_exits cfg p =
     ebind (emap (\<lambda>(s, pl). ebind (close_pipeline cfg pl) (\<lambda>pl. Inr (s, pl))) (rev (pipelines p)))
       (\<lambda>pls. case metrics_exits of
          Some e \<Rightarrow> Inl e
        | None \<Rightarrow> Inr (p\<lparr>p_closed := True, p_tg := False, p_client := False, p_reporter := False, pipelines := rev pls\<rparr>))"

text \<open>One turn of the background gauge of records in flight; \<open>None\<close> when the loop ends.\<close>

definition pending_reporter_turn :: "'q producer \<Rightarrow> metric_call option" where
  "pending_reporter_turn p =
     (if p_closed p then None
      else Some (MetricPut NAME_USER_RECORDS_PENDING (of_int (outstanding p)) None None None))"

text \<open>A request of the collector becomes a task of the background group, which has to be there.\<close>

fun on_collector_batch :: "bool \<Rightarrow> work \<Rightarrow> pyerr + work" where
  "on_collector_batch tg (ToSend batch) = (if \<not> tg then Inl AssertionError else Inr (ToSend batch))"
| "on_collector_batch tg w = Inr w"

text \<open>After a callback: its pipeline as it is now, with the new work added, and the exceptions that escape.\<close>

definition advance :: "pystr \<Rightarrow> 'q result \<Rightarrow> 'q producer \<Rightarrow> 'q producer" where
  "advance stream res p =
     (let spawned = map (on_collector_batch (p_tg p)) (snd (fst res)) in
      p\<lparr>pipelines := dict_set stream ((snd res)\<lparr>pl_work := pl_work (snd res) @ concat (map (\<lambda>w. case w of Inl e \<Rightarrow> [] | Inr w \<Rightarrow> [w]) spawned)\<rparr>) (pipelines p),
        raised := raised p @ (case fst (fst res) of None \<Rightarrow> [] | Some err \<Rightarrow> [err]) @ concat (map (\<lambda>w. case w of Inl e \<Rightarrow> [e] | Inr w \<Rightarrow> []) spawned)\<rparr>)"

lemma advance_running:
  assumes "p_tg p"
  shows "advance s res p =
     p\<lparr>pipelines := dict_set s ((snd res)\<lparr>pl_work := pl_work (snd res) @ snd (fst res)\<rparr>) (pipelines p),
       raised := raised p @ (case fst (fst res) of None \<Rightarrow> [] | Some err \<Rightarrow> [err])\<rparr>"
proof -
  have "on_collector_batch True = Inr"
  proof
    show "on_collector_batch True w = Inr w" for w by (cases w) simp_all
  qed
  then have "concat (map (\<lambda>w. case w of Inl e \<Rightarrow> [] | Inr w \<Rightarrow> [w]) (map (on_collector_batch (p_tg p)) ws)) = ws"
    "concat (map (\<lambda>w. case w of Inl e \<Rightarrow> [e] | Inr w \<Rightarrow> []) (map (on_collector_batch (p_tg p)) ws)) = []" for ws :: "work list"
    using assms by (induction ws) simp_all
  then show ?thesis by (simp add: advance_def Let_def del: map_map)
qed

text \<open>The callbacks of the wiring, by the work they answer to.\<close>

inductive does :: "(Pending, 'q) skl \<Rightarrow> Config \<Rightarrow> env \<Rightarrow> work \<Rightarrow> 'q pipeline \<Rightarrow> 'q result \<Rightarrow> bool" for ops cfg e where
  do_route: "does ops cfg e (Route x) pl (route cfg e x pl)"
| do_batch: "does ops cfg e (ToLimiter b) pl (on_aggregator_batch ops cfg e b pl)"
| do_admit: "does ops cfg e (ToCollector b) pl (on_limiter_admit cfg e b pl)"
| do_expire: "does ops cfg e (ToExpired b reason) pl (handle_expired cfg e b reason pl)"
| do_send: "does ops cfg e (ToSend req) pl (send_and_handle cfg e req pl)"

text \<open>What happens without a call: timers, the limiter's background turn; and the stages of a flush.\<close>

inductive wakes :: "(Pending, 'q) skl \<Rightarrow> Config \<Rightarrow> env \<Rightarrow> 'q pipeline \<Rightarrow> 'q result \<Rightarrow> bool" for ops cfg e where
  wake_agg: "dict_get (reducers (pl_agg pl)) k = Some r \<Longrightarrow> (s, w) \<in> set (timer_tasks r) \<Longrightarrow> w \<le> Fin (e_now e) \<Longrightarrow>
     wakes ops cfg e pl (aggregator_wakes cfg e k s pl)"
| wake_col: "c_reducer (pl_col pl) = Some r \<Longrightarrow> (s, w) \<in> set (timer_tasks r) \<Longrightarrow> w \<le> Fin (e_now e) \<Longrightarrow>
     wakes ops cfg e pl (collector_wakes cfg e s pl)"
| turn_lim: "wakes ops cfg e pl (limiter_turn ops cfg e pl)"
| flush_agg: "wakes ops cfg e pl (flush_aggregator cfg e k pl)"
| flush_lim: "wakes ops cfg e pl (flush_limiter ops cfg e pl)"
| flush_col: "wakes ops cfg e pl (flush_collector cfg e pl)"

section \<open>Runs\<close>

definition live :: "(Pending, 'q) skl \<Rightarrow> 'q pipeline \<Rightarrow> BufferedRecord list" where
  "live ops pl = buffered_records ops pl @ concat (map work_records (pl_work pl))"

text \<open>One step of the producer, from time \<open>t\<close> to time \<open>t'\<close>, with a service that behaves as \<open>service\<close> says.  Records have encodable strings,
  and a new record's identity is not that of a record that is alive.  A caller that holds an outcome
  may give it up (\<open>SyncOutcome.cancel\<close>) at any moment.\<close>

inductive pstep :: "(put_records_fn \<Rightarrow> bool) \<Rightarrow> (Pending, 'q) skl \<Rightarrow> Config \<Rightarrow> real \<Rightarrow> 'q producer \<Rightarrow> real \<Rightarrow> 'q producer \<Rightarrow> bool" for service ops cfg where
  enter: "record_scalar ur \<Longrightarrow> put_record_enter stream ur p = Some (Inr p') \<Longrightarrow> pstep service ops cfg t p t p'"
| register: "t \<le> t' \<Longrightarrow> starting p = as @ (stream, ur) # bs \<Longrightarrow>
     (\<And>pl. dict_get (pipelines p) stream = Some pl \<Longrightarrow> oid \<notin> obj ` set (live ops pl)) \<Longrightarrow>
     put_record_register cfg t' oid stream ur (p\<lparr>starting := as @ bs\<rparr>) = (res, p') \<Longrightarrow> pstep service ops cfg t p t' p'"
| callback: "t \<le> e_now e \<Longrightarrow> service (e_put_records e) \<Longrightarrow>
     dict_get (pipelines p) stream = Some pl \<Longrightarrow> pl_work pl = as @ w # bs \<Longrightarrow>
     does ops cfg e w (pl\<lparr>pl_work := as @ bs\<rparr>) res \<Longrightarrow> pstep service ops cfg t p (e_now e) (advance stream res p)"
| finish: "dict_get (pipelines p) stream = Some pl \<Longrightarrow> pl_work pl = as @ Finish x r # bs \<Longrightarrow>
     pstep service ops cfg t p t (on_retrier_finish stream x r (pl\<lparr>pl_work := as @ bs\<rparr>) p)"
| wake: "t \<le> e_now e \<Longrightarrow> dict_get (pipelines p) stream = Some pl \<Longrightarrow> wakes ops cfg e pl res \<Longrightarrow>
     pstep service ops cfg t p (e_now e) (advance stream res p)"
| cancel: "h < length (results p) \<Longrightarrow> set_exception err (results p ! h) = Inr out \<Longrightarrow>
     pstep service ops cfg t p t (p\<lparr>results := (results p)[h := out]\<rparr>)"

inductive psteps :: "(put_records_fn \<Rightarrow> bool) \<Rightarrow> (Pending, 'q) skl \<Rightarrow> Config \<Rightarrow> real \<Rightarrow> 'q producer \<Rightarrow> real \<Rightarrow> 'q producer \<Rightarrow> bool" for service ops cfg t p where
  none: "psteps service ops cfg t p t p"
| more: "psteps service ops cfg t p t' p' \<Longrightarrow> pstep service ops cfg t' p' t'' p'' \<Longrightarrow> psteps service ops cfg t p t'' p''"

lemma psteps_trans: "psteps service ops cfg t' p' t'' p'' \<Longrightarrow> psteps service ops cfg t p t' p' \<Longrightarrow> psteps service ops cfg t p t'' p''"
  by (induction rule: psteps.induct) (auto intro: psteps.more)

lemma pstep_psteps: "pstep service ops cfg t p t' p' \<Longrightarrow> psteps service ops cfg t p t' p'"
  by (rule psteps.more [OF psteps.none])

lemma pstep_mono: "pstep service ops cfg t p t' p' \<Longrightarrow> (\<And>f. service f \<Longrightarrow> service' f) \<Longrightarrow> pstep service' ops cfg t p t' p'"
  by (induction rule: pstep.induct) (blast intro: pstep.intros)+

lemma psteps_mono: "psteps service ops cfg t p t' p' \<Longrightarrow> (\<And>f. service f \<Longrightarrow> service' f) \<Longrightarrow> psteps service' ops cfg t p t' p'"
  by (induction rule: psteps.induct) (blast intro: psteps.intros pstep_mono)+

text \<open>The states that a producer reaches by time \<open>t\<close> after it was entered, with a service that answers with readable shard ids.\<close>

inductive prun :: "(Pending, 'q) skl \<Rightarrow> Config \<Rightarrow> real \<Rightarrow> 'q producer \<Rightarrow> bool" for ops cfg where
  init: "prun ops cfg t (snd (producer_aenter None None cfg (producer_init cfg)))"
| step: "prun ops cfg t p \<Longrightarrow> pstep readable_client ops cfg t p t' p' \<Longrightarrow> prun ops cfg t' p'"

lemma prun_psteps: "psteps readable_client ops cfg t p t' p' \<Longrightarrow> prun ops cfg t p \<Longrightarrow> prun ops cfg t' p'"
  by (induction rule: psteps.induct) (auto intro: prun.step)

section \<open>The invariant\<close>

lemma nth_update: "xs[h := v] ! k = (if k = h \<and> h < length xs then v else xs ! k)"
  by (auto simp: list_update_beyond)

definition handles_of :: "(pystr \<times> 'q pipeline) list \<Rightarrow> nat list" where
  "handles_of pls = concat (map (\<lambda>(s, pl). map snd (pl_pending pl)) pls)"

lemma handles_set:
  "dict_get d s = Some pl \<Longrightarrow>
   mset (handles_of (dict_set s pl' d)) + mset (map snd (pl_pending pl)) = mset (handles_of d) + mset (map snd (pl_pending pl'))"
  by (induction d) (auto simp: handles_of_def add_ac)

definition unresolved :: "'q producer \<Rightarrow> nat set" where
  "unresolved p = {h. h < length (results p) \<and> \<not> is_set (results p ! h)}"

text \<open>The outcomes that the pipelines still refer to: each once; every outcome that is not resolved is one of them, and one that is resolved
  already was given up by its caller.\<close>

definition handles_ok :: "nat list \<Rightarrow> RecordResult Outcome list \<Rightarrow> bool" where
  "handles_ok hs rs \<longleftrightarrow> distinct hs \<and> (\<forall>h\<in>set hs. h < length rs \<and> (is_set (rs ! h) \<longrightarrow> exc (rs ! h) \<noteq> None))
     \<and> (\<forall>h<length rs. \<not> is_set (rs ! h) \<longrightarrow> h \<in> set hs) \<and> list_all (outcome_reach outcome_init) rs"

lemma handles_ok_mset: "handles_ok hs rs \<Longrightarrow> mset hs' = mset hs \<Longrightarrow> handles_ok hs' rs"
  using mset_eq_imp_distinct_iff [of hs' hs] mset_eq_setD [of hs' hs] by (simp add: handles_ok_def)

lemma handles_ok_new:
  assumes "handles_ok hs rs" "mset hs' = mset (length rs # hs)"
  shows "handles_ok hs' (rs @ [outcome_init])"
proof -
  have "handles_ok (length rs # hs) (rs @ [outcome_init])"
    using assms(1) by (auto simp: handles_ok_def nth_append less_Suc_eq is_set_def outcome_init_def intro: outcome_reach.unset)
  then show ?thesis using assms(2) handles_ok_mset by blast
qed

lemma handles_ok_done:
  assumes "handles_ok hs rs" "mset (h # hs') = mset hs"
  shows "is_set (rs ! h) \<Longrightarrow> handles_ok hs' rs"
    and "set_value r (rs ! h) = Inr out \<Longrightarrow> handles_ok hs' (rs[h := out])"
proof -
  have ok: "handles_ok (h # hs') rs" by (rule handles_ok_mset [OF assms])
  then have h: "outcome_reach outcome_init (rs ! h)" "h < length rs" by (auto simp: handles_ok_def list_all_length)
  from ok show "is_set (rs ! h) \<Longrightarrow> handles_ok hs' rs" by (auto simp: handles_ok_def)
  assume v: "set_value r (rs ! h) = Inr out"
  then have "outcome_reach outcome_init out" by (rule outcome_reach.setv [OF h(1)])
  with v ok h show "handles_ok hs' (rs[h := out])"
    by (auto simp: handles_ok_def list_all_length nth_list_update is_set_def set_value_def split: if_splits)
qed

lemma handles_ok_cancel:
  assumes "handles_ok hs rs" "h < length rs" "set_exception err (rs ! h) = Inr out"
  shows "handles_ok hs (rs[h := out])"
proof -
  have "outcome_reach outcome_init out"
    using assms outcome_reach.sete [of outcome_init "rs ! h"] by (simp add: handles_ok_def list_all_length)
  with assms show ?thesis
    by (auto simp: handles_ok_def list_all_length nth_list_update is_set_def set_exception_def split: if_splits)
qed

text \<open>Every result an outcome holds is a terminal one, with its history.\<close>

definition results_ok :: "RecordResult Outcome list \<Rightarrow> bool" where
  "results_ok rs \<longleftrightarrow> list_all (\<lambda>out. pred_option result_ok (ovalue out)) rs"

lemma results_ok_simps [simp]:
  "results_ok []" "results_ok (rs @ [outcome_init]) \<longleftrightarrow> results_ok rs"
  by (simp_all add: results_ok_def outcome_init_def)

lemma results_ok_update:
  "results_ok rs \<Longrightarrow> (h < length rs \<Longrightarrow> pred_option result_ok (ovalue out)) \<Longrightarrow> results_ok (rs[h := out])"
  by (cases "h < length rs") (auto simp: results_ok_def list_all_length nth_list_update list_update_beyond)

lemma results_ok_cancel:
  "results_ok rs \<Longrightarrow> set_exception err (rs ! h) = Inr out \<Longrightarrow> results_ok (rs[h := out])"
  by (rule results_ok_update) (auto simp: results_ok_def list_all_length set_exception_def split: if_splits)

definition given_up :: "'q producer \<Rightarrow> nat set" where
  "given_up p = {h. h < length (results p) \<and> exc (results p ! h) \<noteq> None}"

lemma handles_ok_sets:
  assumes "handles_ok (handles_of (pipelines p)) (results p)"
  shows "unresolved p \<union> (given_up p \<inter> set (handles_of (pipelines p))) = set (handles_of (pipelines p))"
    and "unresolved p \<inter> given_up p = {}"
proof -
  have "exc (results p ! h) = None" if "h < length (results p)" "\<not> is_set (results p ! h)" for h
    using assms that outcome_reach_wait [of outcome_init "results p ! h"]
    by (auto simp: handles_ok_def list_all_length is_set_def outcome_init_def)
  with assms show "unresolved p \<union> (given_up p \<inter> set (handles_of (pipelines p))) = set (handles_of (pipelines p))"
    "unresolved p \<inter> given_up p = {}"
    by (auto simp: handles_ok_def unresolved_def given_up_def)
qed

context limiter_queue
begin

definition pipe_ok :: "Config \<Rightarrow> real \<Rightarrow> 'q pipeline \<Rightarrow> bool" where
  "pipe_ok cfg t pl \<longleftrightarrow> pl_ok cfg t pl \<and> list_all work_ok (pl_work pl) \<and> dict_ok (pl_pending pl)
     \<and> mset (map obj (live ops pl)) = mset (map fst (pl_pending pl))"

definition pinv :: "Config \<Rightarrow> real \<Rightarrow> 'q producer \<Rightarrow> bool" where
  "pinv cfg t p \<longleftrightarrow> raised p = [] \<and> p_tg p \<and> \<not> p_closed p \<and> dict_ok (pipelines p) \<and> (\<forall>(s, pl)\<in>set (pipelines p). pl_stream pl = s \<and> pipe_ok cfg t pl)
     \<and> handles_ok (handles_of (pipelines p)) (results p)
     \<and> list_all (\<lambda>(s, ur). record_scalar ur) (starting p) \<and> results_ok (results p)
     \<and> outstanding p = int (length (starting p)) + int (length (handles_of (pipelines p)))
     \<and> semaphore p + length (starting p) + length (handles_of (pipelines p)) = cf_max_outstanding_records cfg"

lemma pipe_ok_mono: "pipe_ok cfg t pl \<Longrightarrow> t \<le> t' \<Longrightarrow> pipe_ok cfg t' pl"
  using pl_ok_mono by (auto simp: pipe_ok_def)

lemma pinv_mono: "pinv cfg t p \<Longrightarrow> t \<le> t' \<Longrightarrow> pinv cfg t' p"
  using pipe_ok_mono by (fastforce simp: pinv_def)

lemma pinv_get: "pinv cfg t p \<Longrightarrow> dict_get (pipelines p) s = Some pl \<Longrightarrow> pl_stream pl = s \<and> pipe_ok cfg t pl"
  by (auto simp: pinv_def dest!: map_of_SomeD)

lemma set_dict_set: "x \<in> set (dict_set k v d) \<Longrightarrow> x = (k, v) \<or> x \<in> set d"
  by (induction d) (auto split: if_splits)

text \<open>A pipeline that changed only inside.\<close>

lemma pinv_same_pending:
  assumes "pinv cfg t p" "dict_get (pipelines p) s = Some pl" "pl_pending pl' = pl_pending pl" "pl_stream pl' = s"
    "pipe_ok cfg t pl'"
  shows "pinv cfg t (p\<lparr>pipelines := dict_set s pl' (pipelines p)\<rparr>)"
proof -
  have "mset (handles_of (dict_set s pl' (pipelines p))) = mset (handles_of (pipelines p))"
    using handles_set [OF assms(2), of pl'] assms(3) by simp
  then have "length (handles_of (dict_set s pl' (pipelines p))) = length (handles_of (pipelines p))"
    "mset (handles_of (dict_set s pl' (pipelines p))) = mset (handles_of (pipelines p))"
    by (auto dest: mset_eq_length)
  with assms handles_ok_mset show ?thesis by (auto simp: pinv_def dest!: set_dict_set)
qed

lemma passes_advance:
  assumes "pinv cfg t p" "dict_get (pipelines p) s = Some pl" "pl_work pl = as @ ws @ bs"
    "passes cfg t (concat (map work_records ws)) (pl\<lparr>pl_work := as @ bs\<rparr>) res"
  shows "pinv cfg t (advance s res p)"
proof -
  let ?pl = "(snd res)\<lparr>pl_work := pl_work (snd res) @ snd (fst res)\<rparr>"
  have pl: "pl_stream pl = s" "pipe_ok cfg t pl" using pinv_get [OF assms(1,2)] by auto
  have br: "buffered_records ops (q\<lparr>pl_work := ys\<rparr>) = buffered_records ops q" for q :: "'q pipeline" and ys
    by (simp add: buffered_records_def)
  have po: "pl_ok cfg t (q\<lparr>pl_work := ys\<rparr>) = pl_ok cfg t q" for q :: "'q pipeline" and ys
    by (simp add: pl_ok_def)
  have "pipe_ok cfg t ?pl"
    using assms(3,4) pl by (auto simp: pipe_ok_def passes_def live_def br po add_ac)
  moreover have "advance s res p = p\<lparr>pipelines := dict_set s ?pl (pipelines p)\<rparr>"
    using assms(1,4) by (simp add: advance_running passes_def pinv_def)
  ultimately show ?thesis
    using pinv_same_pending [OF assms(1,2), of ?pl] assms(4) pl(1) by (simp add: passes_def)
qed

lemma does_passes:
  assumes "does ops cfg e w pl res" "pl_ok cfg (e_now e) pl" "work_ok w" "readable_client (e_put_records e)" "sane cfg"
  shows "passes cfg (e_now e) (work_records w) pl res"
  using assms
  by cases (auto intro: route_passes on_aggregator_batch_passes on_limiter_admit_passes handle_expired_passes
      send_and_handle_passes [unfolded work_records.simps])

lemma wakes_passes:
  assumes "wakes ops cfg e pl res" "pl_ok cfg (e_now e) pl"
  shows "passes cfg (e_now e) [] pl res"
  using assms
  by cases (auto intro: aggregator_wakes_passes collector_wakes_passes limiter_turn_passes flush_aggregator_passes
      flush_limiter_passes flush_collector_passes)

lemma callback_pinv:
  assumes "pinv cfg t p" "t \<le> e_now e" "readable_client (e_put_records e)" "sane cfg"
    "dict_get (pipelines p) s = Some pl" "pl_work pl = as @ w # bs" "does ops cfg e w (pl\<lparr>pl_work := as @ bs\<rparr>) res"
  shows "pinv cfg (e_now e) (advance s res p)"
proof -
  have p: "pinv cfg (e_now e) p" by (rule pinv_mono [OF assms(1,2)])
  from pinv_get [OF p assms(5)] have pl: "pipe_ok cfg (e_now e) pl" by simp
  then have "pl_ok cfg (e_now e) (pl\<lparr>pl_work := as @ bs\<rparr>)" "work_ok w"
    using assms(6) by (auto simp: pipe_ok_def pl_ok_def)
  from does_passes [OF assms(7) this assms(3,4)] show ?thesis
    using passes_advance [OF p assms(5), of as "[w]" bs res] assms(6) by simp
qed

lemma wake_pinv:
  assumes "pinv cfg t p" "t \<le> e_now e" "dict_get (pipelines p) s = Some pl" "wakes ops cfg e pl res"
  shows "pinv cfg (e_now e) (advance s res p)"
proof -
  have p: "pinv cfg (e_now e) p" by (rule pinv_mono [OF assms(1,2)])
  from pinv_get [OF p assms(3)] have "pl_ok cfg (e_now e) pl" by (simp add: pipe_ok_def)
  from wakes_passes [OF assms(4) this] show ?thesis
    using passes_advance [OF p assms(3), of "pl_work pl" "[]" "[]" res] by simp
qed

lemma enter_pinv:
  assumes "pinv cfg t p" "record_scalar ur" "put_record_enter stream ur p = Some (Inr p')"
  shows "pinv cfg t p'"
  using assms by (auto simp: pinv_def put_record_enter_def split: if_splits)

lemma cancel_pinv:
  "pinv cfg t p \<Longrightarrow> h < length (results p) \<Longrightarrow> set_exception err (results p ! h) = Inr out \<Longrightarrow>
   pinv cfg t (p\<lparr>results := (results p)[h := out]\<rparr>)"
  using handles_ok_cancel results_ok_cancel by (simp add: pinv_def)

text \<open>Creating a pipeline changes nothing that counts.\<close>

lemma get_or_create_pipeline_ok:
  assumes "pinv cfg t p" "get_or_create_pipeline cfg stream p = (pl, p')"
  shows "pinv cfg t p' \<and> dict_get (pipelines p') stream = Some pl \<and> results p' = results p \<and> starting p' = starting p
    \<and> semaphore p' = semaphore p \<and> outstanding p' = outstanding p \<and> handles_of (pipelines p') = handles_of (pipelines p)
    \<and> (dict_get (pipelines p) stream = Some pl \<or> live ops pl = [])"
proof (cases "dict_get (pipelines p) stream")
  case None
  then have eq: "pl = build_pipeline cfg stream" "p' = p\<lparr>pipelines := dict_set stream pl (pipelines p)\<rparr>"
    using assms(2) by (auto simp: get_or_create_pipeline_def Let_def)
  have pl: "pl_stream pl = stream" "pl_pending pl = []" "pl_work pl = []" by (simp_all add: eq(1) build_pipeline_def)
  have "pipe_ok cfg t pl" "live ops pl = []"
    using pl_ok_build(1) [of cfg t stream] pl_ok_build(2) [of cfg stream] pl(2,3) by (simp_all add: pipe_ok_def live_def flip: eq(1))
  moreover have "handles_of (dict_set stream pl (pipelines p)) = handles_of (pipelines p)"
    using pl(2) by (simp add: dict_set_fresh [OF None] handles_of_def)
  ultimately show ?thesis
    using assms(1) pl(1) eq(2) by (auto simp: pinv_def dest!: set_dict_set)
qed (use assms in \<open>auto simp: get_or_create_pipeline_def\<close>)

lemma get_or_create_starting:
  "get_or_create_pipeline cfg s (p\<lparr>starting := ys\<rparr>) =
     (fst (get_or_create_pipeline cfg s p), (snd (get_or_create_pipeline cfg s p))\<lparr>starting := ys\<rparr>)"
  by (simp add: get_or_create_pipeline_def Let_def split: option.splits)

lemma pending_keys:
  assumes "pipe_ok cfg t pl"
  shows "fst ` set (pl_pending pl) = obj ` set (live ops pl)"
proof -
  have "mset (map fst (pl_pending pl)) = mset (map obj (live ops pl))" using assms by (simp add: pipe_ok_def)
  from mset_eq_setD [OF this] show ?thesis by simp
qed

lemma pipe_ok_register:
  assumes "pipe_ok cfg t pl" "obj x \<notin> obj ` set (live ops pl)" "rec_ok x"
  shows "pipe_ok cfg t (pl\<lparr>pl_pending := dict_set (obj x) h (pl_pending pl), pl_work := pl_work pl @ [Route x]\<rparr>)"
    and "dict_set (obj x) h (pl_pending pl) = pl_pending pl @ [(obj x, h)]"
proof -
  have "dict_get (pl_pending pl) (obj x) = None"
    using assms(2) pending_keys [OF assms(1)] by (simp add: map_of_eq_None_iff)
  then show eq: "dict_set (obj x) h (pl_pending pl) = pl_pending pl @ [(obj x, h)]" by (rule dict_set_fresh)
  have "obj x \<notin> fst ` set (pl_pending pl)" using assms(2) pending_keys [OF assms(1)] by simp
  then show "pipe_ok cfg t (pl\<lparr>pl_pending := dict_set (obj x) h (pl_pending pl), pl_work := pl_work pl @ [Route x]\<rparr>)"
    using assms(1,3) unfolding eq by (auto simp: pipe_ok_def pl_ok_def live_def buffered_records_def)
qed

text \<open>What registering a call does: an error gives the slot back; otherwise the record gets the next outcome.\<close>

lemma register_shape:
  assumes "pinv cfg t p" "starting p = as @ (s, ur) # bs"
    "\<And>pl. dict_get (pipelines p) s = Some pl \<Longrightarrow> oid \<notin> obj ` set (live ops pl)"
    "put_record_register cfg t oid s ur (p\<lparr>starting := as @ bs\<rparr>) = (res, p')"
  shows "\<exists>q. pinv cfg t q \<and> results q = results p \<and> starting q = starting p \<and> semaphore q = semaphore p \<and> outstanding q = outstanding p
    \<and> handles_of (pipelines q) = handles_of (pipelines p)
    \<and> ((\<exists>err. res = Inl err \<and> p' = release (q\<lparr>starting := as @ bs\<rparr>))
      \<or> (\<exists>pl'. res = Inr (length (results p)) \<and> pipe_ok cfg t pl' \<and> pl_stream pl' = s
          \<and> mset (handles_of (dict_set s pl' (pipelines q))) = mset (length (results p) # handles_of (pipelines p))
          \<and> p' = q\<lparr>starting := as @ bs, results := results p @ [outcome_init], pipelines := dict_set s pl' (pipelines q)\<rparr>))"
proof -
  obtain pl q where g: "get_or_create_pipeline cfg s p = (pl, q)" by fastforce
  note q = get_or_create_pipeline_ok [OF assms(1) g]
  let ?q = "q\<lparr>starting := as @ bs\<rparr>"
  have g': "get_or_create_pipeline cfg s (p\<lparr>starting := as @ bs\<rparr>) = (pl, ?q)" by (simp add: get_or_create_starting g)
  have sq: "starting q = as @ (s, ur) # bs" using q assms(2) by simp
  show ?thesis
  proof (cases "build_buffered (build_aggregator_cfg cfg s) t oid ur")
    case (Inl err)
    then have "res = Inl err \<and> p' = release ?q" using assms(4) by (simp add: put_record_register_def g')
    with q show ?thesis by (intro exI [of _ q]) simp
  next
    case (Inr xm)
    obtain x ms where xm: "xm = (x, ms)" by fastforce
    have x: "obj x = oid" "user_record x = ur" "attempts x = []"
      using Inr by (auto simp: xm build_buffered_def split: option.splits elim!: ebind.elims)
    define pl' where "pl' = pl\<lparr>pl_pending := dict_set (obj x) (length (results q)) (pl_pending pl), pl_work := pl_work pl @ [Route x]\<rparr>"
    have p': "res = Inr (length (results q))" "p' = ?q\<lparr>results := results q @ [outcome_init], pipelines := dict_set s pl' (pipelines q)\<rparr>"
      using assms(4) by (simp_all add: put_record_register_def g' Inr xm pl'_def Let_def)
    have pl: "pipe_ok cfg t pl" "pl_stream pl = s" using pinv_get [of cfg t q] q by auto
    have fresh: "obj x \<notin> obj ` set (live ops pl)" using q assms(3) x(1) by auto
    have rx: "rec_ok x" using q sq x(2,3) by (simp add: rec_ok_def pinv_def)
    note pr = pipe_ok_register [OF pl(1) fresh rx, of "length (results q)"]
    have "mset (handles_of (dict_set s pl' (pipelines q))) = mset (length (results p) # handles_of (pipelines p))"
      using handles_set [of "pipelines q" s pl pl'] q pr(2) by (simp add: pl'_def)
    moreover have "pipe_ok cfg t pl'" "pl_stream pl' = s" using pr(1) pl(2) by (simp_all add: pl'_def)
    ultimately show ?thesis using q p' by (intro exI [of _ q]) auto
  qed
qed

lemma register_pinv:
  assumes "pinv cfg t p" "t \<le> t'" "starting p = as @ (s, ur) # bs"
    "\<And>pl. dict_get (pipelines p) s = Some pl \<Longrightarrow> oid \<notin> obj ` set (live ops pl)"
    "put_record_register cfg t' oid s ur (p\<lparr>starting := as @ bs\<rparr>) = (res, p')"
  shows "pinv cfg t' p'"
proof -
  from register_shape [OF pinv_mono [OF assms(1,2)] assms(3,4,5)]
  obtain q where q: "pinv cfg t' q" "results q = results p" "starting q = as @ (s, ur) # bs"
      "handles_of (pipelines q) = handles_of (pipelines p)"
      "(\<exists>err. p' = release (q\<lparr>starting := as @ bs\<rparr>))
      \<or> (\<exists>pl'. pipe_ok cfg t' pl' \<and> pl_stream pl' = s
          \<and> mset (handles_of (dict_set s pl' (pipelines q))) = mset (length (results p) # handles_of (pipelines p))
          \<and> p' = q\<lparr>starting := as @ bs, results := results p @ [outcome_init], pipelines := dict_set s pl' (pipelines q)\<rparr>)"
    using assms(3) by auto
  from q(5) show ?thesis
  proof (elim disjE exE conjE)
    fix pl'
    assume pl': "pipe_ok cfg t' pl'" "pl_stream pl' = s"
      "p' = q\<lparr>starting := as @ bs, results := results p @ [outcome_init], pipelines := dict_set s pl' (pipelines q)\<rparr>"
      and h: "mset (handles_of (dict_set s pl' (pipelines q))) = mset (length (results p) # handles_of (pipelines p))"
    have "handles_ok (handles_of (dict_set s pl' (pipelines q))) (results p @ [outcome_init])"
      using q h by (auto simp: pinv_def intro: handles_ok_new)
    with q pl' mset_eq_length [OF h] show ?thesis by (auto simp: pinv_def dest!: set_dict_set)
  qed (use q in \<open>auto simp: pinv_def release_def\<close>)
qed

lemma mset_split_item: "mset (as @ w # bs) = add_mset w (mset (as @ bs))"
  by simp

lemma pipe_ok_finish:
  assumes "pipe_ok cfg t pl" "pl_work pl = as @ Finish x r # bs"
  shows "\<exists>h. dict_get (pl_pending pl) (obj x) = Some h
    \<and> mset (pl_pending pl) = add_mset (obj x, h) (mset (dict_del (obj x) (pl_pending pl)))
    \<and> pipe_ok cfg t (pl\<lparr>pl_work := as @ bs, pl_pending := dict_del (obj x) (pl_pending pl)\<rparr>)"
proof -
  have "obj x \<in> fst ` set (pl_pending pl)"
    unfolding pending_keys [OF assms(1)] using assms(2) by (simp add: live_def)
  then obtain h where h: "dict_get (pl_pending pl) (obj x) = Some h"
    by (cases "dict_get (pl_pending pl) (obj x)") (auto simp: map_of_eq_None_iff)
  have "mset d = add_mset (k, h) (mset (dict_del k d))" if "dict_ok d" "dict_get d k = Some h" for d :: "(nat \<times> nat) list" and k
    using that
  proof (induction d)
    case (Cons y d)
    then show ?case
      by (cases y) (auto simp: delete_idem split: if_splits)
  qed simp
  moreover have "dict_ok (pl_pending pl)" using assms(1) by (simp add: pipe_ok_def)
  ultimately have d: "mset (pl_pending pl) = add_mset (obj x, h) (mset (dict_del (obj x) (pl_pending pl)))" using h by simp
  have "add_mset (obj x) (mset (map fst (dict_del (obj x) (pl_pending pl)))) = mset (map fst (pl_pending pl))"
    using arg_cong [OF d, of "image_mset fst"] by simp
  also have "\<dots> = mset (map obj (live ops pl))" using assms(1) by (simp add: pipe_ok_def)
  also have "\<dots> = add_mset (obj x) (mset (map obj (live ops (pl\<lparr>pl_work := as @ bs, pl_pending := dict_del (obj x) (pl_pending pl)\<rparr>))))"
    using assms(2) by (simp add: live_def buffered_records_def)
  finally have "mset (map fst (dict_del (obj x) (pl_pending pl)))
      = mset (map obj (live ops (pl\<lparr>pl_work := as @ bs, pl_pending := dict_del (obj x) (pl_pending pl)\<rparr>)))" by simp
  then have "pipe_ok cfg t (pl\<lparr>pl_work := as @ bs, pl_pending := dict_del (obj x) (pl_pending pl)\<rparr>)"
    using assms by (simp add: pipe_ok_def pl_ok_def)
  with h d show ?thesis by blast
qed

lemma finish_shape:
  assumes "pinv cfg t p" "dict_get (pipelines p) s = Some pl" "pl_work pl = as @ Finish x r # bs"
  shows "\<exists>h pl' rs. on_retrier_finish s x r (pl\<lparr>pl_work := as @ bs\<rparr>) p
        = release (p\<lparr>pipelines := dict_set s pl' (pipelines p), results := rs\<rparr>)
    \<and> pipe_ok cfg t pl' \<and> pl_stream pl' = s
    \<and> mset (h # handles_of (dict_set s pl' (pipelines p))) = mset (handles_of (pipelines p))
    \<and> (if is_set (results p ! h) then rs = results p
       else rs = (results p)[h := (results p ! h)\<lparr>ovalue := Some r, event := True\<rparr>])"
proof -
  have pl: "pl_stream pl = s" "pipe_ok cfg t pl" using pinv_get [OF assms(1,2)] by auto
  let ?pl = "pl\<lparr>pl_work := as @ bs, pl_pending := dict_del (obj x) (pl_pending pl)\<rparr>"
  obtain h where h: "dict_get (pl_pending pl) (obj x) = Some h"
      "mset (pl_pending pl) = add_mset (obj x, h) (mset (dict_del (obj x) (pl_pending pl)))" "pipe_ok cfg t ?pl"
    using pipe_ok_finish [OF pl(2) assms(3)] by blast
  have "mset (map snd (pl_pending pl)) = add_mset h (mset (map snd (pl_pending ?pl)))"
    using arg_cong [OF h(2), of "image_mset snd"] by simp
  with handles_set [OF assms(2), of ?pl]
  have "mset (h # handles_of (dict_set s ?pl (pipelines p))) = mset (handles_of (pipelines p))" by simp
  moreover have "on_retrier_finish s x r (pl\<lparr>pl_work := as @ bs\<rparr>) p
      = release (p\<lparr>pipelines := dict_set s ?pl (pipelines p), results := (if is_set (results p ! h) then results p
      else (results p)[h := (results p ! h)\<lparr>ovalue := Some r, event := True\<rparr>])\<rparr>)"
    using h(1) by (simp add: on_retrier_finish_def Let_def set_value_def is_set_def)
  ultimately show ?thesis using h(3) pl(1) by (intro exI [of _ h] exI [of _ ?pl] exI conjI) auto
qed

lemma finish_pinv:
  assumes "pinv cfg t p" "dict_get (pipelines p) s = Some pl" "pl_work pl = as @ Finish x r # bs"
  shows "pinv cfg t (on_retrier_finish s x r (pl\<lparr>pl_work := as @ bs\<rparr>) p)"
proof -
  from finish_shape [OF assms] obtain h pl' rs where f:
      "on_retrier_finish s x r (pl\<lparr>pl_work := as @ bs\<rparr>) p = release (p\<lparr>pipelines := dict_set s pl' (pipelines p), results := rs\<rparr>)"
      "pipe_ok cfg t pl'" "pl_stream pl' = s"
      and hs: "mset (h # handles_of (dict_set s pl' (pipelines p))) = mset (handles_of (pipelines p))"
      and rs: "if is_set (results p ! h) then rs = results p
        else rs = (results p)[h := (results p ! h)\<lparr>ovalue := Some r, event := True\<rparr>]" by blast
  have "handles_ok (handles_of (pipelines p)) (results p)" using assms(1) by (simp add: pinv_def)
  from handles_ok_done [OF this hs] rs have "handles_ok (handles_of (dict_set s pl' (pipelines p))) rs"
    by (auto simp: set_value_def is_set_def split: if_splits)
  moreover have "length (handles_of (pipelines p)) = Suc (length (handles_of (dict_set s pl' (pipelines p))))"
    using mset_eq_length [OF hs] by simp
  moreover have "result_ok r" using pinv_get [OF assms(1,2)] assms(3) by (simp add: pipe_ok_def)
  then have "results_ok rs" using assms(1) rs by (auto simp: pinv_def split: if_splits intro: results_ok_update)
  ultimately show ?thesis
    using assms(1) f(2,3) unfolding f(1) by (auto simp: pinv_def release_def dest!: set_dict_set)
qed

lemma pstep_pinv: "pstep readable_client ops cfg t p t' p' \<Longrightarrow> sane cfg \<Longrightarrow> pinv cfg t p \<Longrightarrow> pinv cfg t' p'"
proof (induction rule: pstep.induct)
  case (enter ur stream p p' t)
  then show ?case using enter_pinv by blast
next
  case (register t t' p as stream ur bs oid res p')
  then show ?case using register_pinv by blast
next
  case (callback t e p stream pl as w bs res)
  then show ?case using callback_pinv by blast
next
  case (finish p stream pl as x r bs t)
  then show ?case using finish_pinv by blast
next
  case (wake t e p stream pl res)
  then show ?case using wake_pinv by blast
next
  case (cancel h p err out t)
  then show ?case using cancel_pinv by blast
qed

lemma prun_pinv: "prun ops cfg t p \<Longrightarrow> sane cfg \<Longrightarrow> pinv cfg t p"
proof (induction rule: prun.induct)
  case (init t)
  then show ?case by (simp add: pinv_def producer_init_def producer_aenter_def handles_of_def handles_ok_def)
next
  case (step t p t' p')
  then show ?case using pstep_pinv by blast
qed

end

section \<open>Properties\<close>

lemma handles_of_length: "length (handles_of pls) = (\<Sum>(s, pl)\<leftarrow>pls. length (pl_pending pl))"
  by (induction pls) (auto simp: handles_of_def)

lemma pinv_live:
  assumes "limiter_queue ops" "limiter_queue.pinv ops cfg t p" "(s, pl) \<in> set (pipelines p)"
  shows "length (pl_pending pl) = length (live ops pl)" "distinct (map obj (live ops pl))"
    "obj ` set (live ops pl) = fst ` set (pl_pending pl)"
proof -
  have m: "mset (map obj (live ops pl)) = mset (map fst (pl_pending pl))" and d: "dict_ok (pl_pending pl)"
    using assms(2,3) limiter_queue.pinv_def [OF assms(1)] limiter_queue.pipe_ok_def [OF assms(1)] by fastforce+
  show "length (pl_pending pl) = length (live ops pl)" using mset_eq_length [OF m] by simp
  show "distinct (map obj (live ops pl))" using mset_eq_imp_distinct_iff [OF m] d by simp
  show "obj ` set (live ops pl) = fst ` set (pl_pending pl)" using mset_eq_setD [OF m] by simp
qed

lemma pinv_prun:
  assumes "sorted_key_list ops pending_key" "sane cfg" "prun ops cfg t p"
  shows "limiter_queue ops" "limiter_queue.pinv ops cfg t p"
  using limiter_queue.intro [OF assms(1)] limiter_queue.prun_pinv [OF _ assms(3,2)] by blast+

lemma live_total:
  assumes "limiter_queue ops" "limiter_queue.pinv ops cfg t p"
  shows "length (handles_of (pipelines p)) = (\<Sum>(s, pl)\<leftarrow>pipelines p. length (live ops pl))"
  unfolding handles_of_length
  by (rule arg_cong [where f = sum_list], rule map_cong) (use pinv_live(1) [OF assms] in auto)

text \<open>Every outcome that is not resolved belongs to a record that is alive.\<close>

lemma unresolved_live:
  assumes "limiter_queue ops" "limiter_queue.pinv ops cfg t p" "h \<in> unresolved p"
  shows "\<exists>s pl x. dict_get (pipelines p) s = Some pl \<and> x \<in> set (live ops pl) \<and> dict_get (pl_pending pl) (obj x) = Some h"
proof -
  have ok: "handles_ok (handles_of (pipelines p)) (results p)" "dict_ok (pipelines p)"
    using assms(2) by (simp_all add: limiter_queue.pinv_def [OF assms(1)])
  then have "h \<in> set (handles_of (pipelines p))" using handles_ok_sets(1) [OF ok(1)] assms(3) by blast
  then obtain s pl k where pl: "(s, pl) \<in> set (pipelines p)" "(k, h) \<in> set (pl_pending pl)" by (auto simp: handles_of_def)
  have "dict_ok (pl_pending pl)"
    using pl(1) assms(2) by (auto simp: limiter_queue.pinv_def [OF assms(1)] limiter_queue.pipe_ok_def [OF assms(1)])
  then have "dict_get (pl_pending pl) k = Some h" using pl(2) by simp
  moreover have "k \<in> obj ` set (live ops pl)" using pinv_live(3) [OF assms(1,2) pl(1)] pl(2) by force
  moreover have "dict_get (pipelines p) s = Some pl" using pl(1) ok(2) by simp
  ultimately show ?thesis by blast
qed

text \<open>C1.  Every record is accounted for, end to end.  Whatever the interleaving of calls, callbacks, timers,
  flushes, answers of the service and cancelled outcomes: no callback raises; the semaphore and the number of outstanding
  records always add up to the configured maximum; the outstanding records are exactly the calls being
  started and the records inside the pipelines; every record inside a pipeline is there exactly once
  (in the aggregator, a limiter queue, the collector, or on its way between them) and has its own outcome, which is unresolved
  unless the caller gave it up; and there are no other unresolved outcomes: when a record has left, its caller has its result.\<close>

theorem producer_accounts:
  assumes "sorted_key_list ops pending_key" "sane cfg" "prun ops cfg t p"
  shows "raised p = []
    \<and> int (semaphore p) + outstanding_records p = int (cf_max_outstanding_records cfg)
    \<and> outstanding_records p = int (length (starting p) + (\<Sum>(s, pl)\<leftarrow>pipelines p. length (live ops pl)))
    \<and> card (unresolved p) + card (given_up p \<inter> set (handles_of (pipelines p))) = (\<Sum>(s, pl)\<leftarrow>pipelines p. length (live ops pl))
    \<and> (\<forall>s pl. dict_get (pipelines p) s = Some pl \<longrightarrow> distinct (map obj (live ops pl))
        \<and> obj ` set (live ops pl) = fst ` set (pl_pending pl) \<and> snd ` set (pl_pending pl) \<subseteq> unresolved p \<union> given_up p)
    \<and> (\<forall>h\<in>unresolved p. \<exists>s pl x. dict_get (pipelines p) s = Some pl \<and> x \<in> set (live ops pl)
        \<and> dict_get (pl_pending pl) (obj x) = Some h)"
proof -
  note lq = pinv_prun [OF assms]
  from lq(2) have inv: "raised p = []" "handles_ok (handles_of (pipelines p)) (results p)"
      "outstanding p = int (length (starting p)) + int (length (handles_of (pipelines p)))"
      "semaphore p + length (starting p) + length (handles_of (pipelines p)) = cf_max_outstanding_records cfg"
    by (simp_all add: limiter_queue.pinv_def [OF lq(1)])
  note hs = handles_ok_sets [OF inv(2)]
  have "finite (unresolved p)" by (simp add: unresolved_def)
  then have "card (unresolved p) + card (given_up p \<inter> set (handles_of (pipelines p)))
      = card (unresolved p \<union> (given_up p \<inter> set (handles_of (pipelines p))))"
    using hs(2) by (intro card_Un_disjoint [symmetric]) auto
  also have "\<dots> = length (handles_of (pipelines p))"
    using inv(2) unfolding hs(1) by (simp add: handles_ok_def distinct_card)
  finally have card: "card (unresolved p) + card (given_up p \<inter> set (handles_of (pipelines p))) = length (handles_of (pipelines p))" .
  have sub: "snd ` set (pl_pending pl) \<subseteq> unresolved p \<union> given_up p" if "(s, pl) \<in> set (pipelines p)" for s pl
  proof -
    have "snd ` set (pl_pending pl) \<subseteq> set (handles_of (pipelines p))" using that by (force simp: handles_of_def)
    then show ?thesis using hs(1) by blast
  qed
  have "distinct (map obj (live ops pl)) \<and> obj ` set (live ops pl) = fst ` set (pl_pending pl)
      \<and> snd ` set (pl_pending pl) \<subseteq> unresolved p \<union> given_up p" if "dict_get (pipelines p) s = Some pl" for s pl
    using map_of_SomeD [OF that] sub pinv_live(2,3) [OF lq] by blast
  moreover have "int (semaphore p) + outstanding_records p = int (cf_max_outstanding_records cfg)"
    using inv(3,4) by (simp add: outstanding_records_def)
  ultimately show ?thesis using inv(1,3) card live_total [OF lq] unresolved_live [OF lq] by (simp add: outstanding_records_def)
qed

definition demo_config :: Config where
  "demo_config = config_default (lit ''us-east-1'')"

definition demo_ur :: UserRecord where
  "demo_ur = \<lparr>partition_key = [97], data = [1], explicit_hash_key = Some [0x35], tags = []\<rparr>"

lemma demo_prun:
  "\<exists>p. prun demo_ops demo_config 0 p \<and> outstanding_records p = 1 \<and> length (pipelines p) = 1 \<and> results p = [outcome_init]"
proof -
  let ?p = "snd (producer_aenter None None demo_config (producer_init demo_config)) :: Pending list producer"
  obtain p1 where e: "put_record_enter [115] demo_ur ?p = Some (Inr p1)" "starting p1 = [([115], demo_ur)]"
      "outstanding p1 = 1" "pipelines p1 = []" "results p1 = []"
    by (simp add: put_record_enter_def producer_init_def producer_aenter_def demo_config_def config_default_def demo_ur_def)
  have "record_scalar demo_ur" by (simp add: record_scalar_def demo_ur_def scalar_def)
  from prun.step [OF prun.init pstep.enter [OF this e(1)]] have r1: "prun demo_ops demo_config 0 p1" .
  obtain p2 res where s: "put_record_register demo_config 0 7 [115] demo_ur (p1\<lparr>starting := [] @ []\<rparr>) = (res, p2)" by fastforce
  have "parse_explicit_hash_key [0x35] = Inr 5"
    using parse_str_of_int [of 5] by (simp add: str_of_int_def str_of_nat.simps UINT128_MAX_def)
  then have b: "build_buffered (build_aggregator_cfg demo_config [115]) 0 7 demo_ur =
      Inr (\<lparr>obj = 7, user_record = demo_ur, deadline = Fin (0 + buffered_time (build_aggregator_cfg demo_config [115])), hash_key = 5,
        arrival_time = 0, attempts = []\<rparr>, [MetricPut NAME_USER_RECORDS_RECEIVED 1 (Some [115]) None None])"
    by (simp add: build_buffered_def demo_ur_def build_aggregator_cfg_def aggregator_cfg_of_def)
  have "prun demo_ops demo_config 0 p2"
    by (rule prun.step [OF r1 pstep.register [OF order_refl _ _ s]]) (use e in simp_all)
  moreover have "outstanding_records p2 = 1" "length (pipelines p2) = 1" "results p2 = [outcome_init]"
    using s e b by (auto simp: put_record_register_def get_or_create_pipeline_def Let_def outstanding_records_def)
  ultimately show ?thesis by blast
qed

lemma demo_sane: "sane demo_config"
  by (simp add: sane_def demo_config_def config_default_def)

theorem producer_accounts_witness:
  "\<exists>p. prun demo_ops demo_config 0 p \<and> outstanding_records p = 1 \<and> int (semaphore p) + outstanding_records p = 100000"
proof -
  obtain p where p: "prun demo_ops demo_config 0 p" "outstanding_records p = 1" using demo_prun by blast
  from producer_accounts [OF insort_list.sorted_key_list_axioms demo_sane p(1)] p show ?thesis
    by (auto simp: demo_config_def config_default_def)
qed





text \<open>A call of \<open>put_record\<close> that is cancelled after its record was buffered releases the semaphore; the record
  is still in the pipeline, and when it finishes the semaphore is released again.  With a single record the
  number of outstanding records becomes negative and the semaphore exceeds its maximum.\<close>

lemma cancelled_put_releases_twice:
  assumes "sorted_key_list ops pending_key" "sane cfg" "prun ops cfg t p" "starting p = []"
    "(\<Sum>(s, pl)\<leftarrow>pipelines p. length (live ops pl)) = 1"
  shows "outstanding_records (on_retrier_finish s x r pl (release p)) = - 1
    \<and> semaphore (on_retrier_finish s x r pl (release p)) = cf_max_outstanding_records cfg + 1"
proof -
  note lq = pinv_prun [OF assms(1-3)]
  have "length (handles_of (pipelines p)) = 1" using live_total [OF lq] assms(5) by simp
  then have "outstanding p = 1" "semaphore p + 1 = cf_max_outstanding_records cfg"
    using lq(2) assms(4) by (auto simp: limiter_queue.pinv_def [OF lq(1)])
  then show ?thesis
    by (auto simp: on_retrier_finish_def release_def outstanding_records_def Let_def split: option.splits sum.splits)
qed

end
