(* ===== verification/Sync.thy ===== *)
theory Sync
  imports Producer
begin

text \<open>
  Model of \<^verbatim>\<open>src/aiokpl/sync.py\<close>, the facade for callers without an event loop.  A \<open>SyncOutcome\<close> is the outcome it
  wraps; its operations run on the loop's thread, so each is one step.  The dispatcher task executes the commands
  that the callers' threads send it one after the other: it is a loop over the commands in the order received, with what the
  asynchronous producer does for a command as a function argument, and it completes each command with a result or an
  exception.  The polling loop of \<open>flush\<close> reads the number of outstanding records until it is not positive, or
  until its deadline.  The blocking portal and the threads' events are not modelled.
\<close>

section \<open>SyncOutcome\<close>

definition sync_done :: "'a Outcome \<Rightarrow> bool" where
  "sync_done out = is_set out"

definition sync_cancel :: "'a Outcome \<Rightarrow> bool \<times> 'a Outcome" where
  "sync_cancel out =
     (if is_set out then (False, out)
      else case set_exception (SyncOutcomeCancelled ''SyncOutcome.cancel'') out of
        Inr out \<Rightarrow> (True, out) | Inl e \<Rightarrow> (False, out))"

text \<open>\<open>wait\<close> on an outcome that is \<open>out\<close> when it is resolved or the deadline passes; \<open>None\<close> when it blocks forever.
  A \<open>TimeoutError\<close> from either cause is replaced.\<close>

definition wait_with_timeout :: "real option \<Rightarrow> 'a Outcome \<Rightarrow> (pyerr + 'a option) option" where
  "wait_with_timeout limit out =
     (case wait out of
        Some r \<Rightarrow> Some r
      | None \<Rightarrow> (case limit of None \<Rightarrow> None | Some t \<Rightarrow> Some (Inl (TimeoutError ''fail_after''))))"

definition sync_wait :: "real option \<Rightarrow> 'a Outcome \<Rightarrow> (pyerr + 'a option) option" where
  "sync_wait timeout out =
     (case wait_with_timeout timeout out of
        Some (Inl (TimeoutError m)) \<Rightarrow> Some (Inl (TimeoutError ''SyncOutcome.wait timed out''))
      | r \<Rightarrow> r)"

section \<open>Commands\<close>

datatype command =
    PutRecord pystr UserRecord
  | Flush "real option"
  | Shutdown

record Command =
  kind :: command
  cmd_done :: bool
  cmd_result :: "nat option"
  cmd_exc :: "pyerr option"

definition command_init :: "command \<Rightarrow> Command" where
  "command_init k = \<lparr>kind = k, cmd_done = False, cmd_result = None, cmd_exc = None\<rparr>"

text \<open>What the asynchronous producer does while a command is executed: what its \<open>put_record\<close> and its \<open>flush\<close> end with (a deadline
  that passes inside \<open>flush\<close> is one of its exceptions), the producer at the looks of the polling loop, and whether the deadline has
  passed by then.\<close>

record 'q exec_env =
  ex_put :: "pyerr + nat"
  ex_flush :: "pyerr option"
  ex_world :: "nat \<Rightarrow> 'q producer"
  ex_late :: "nat \<Rightarrow> bool"

text \<open>The polling loop of \<open>flush\<close>: \<open>reading i\<close> is the number of outstanding records at the \<open>i\<close>-th look, and \<open>late i\<close> says that
  the deadline has passed by then.  It ends with its exception, if any, at a look.\<close>

partial_function (option) poll_outstanding :: "(nat \<Rightarrow> int) \<Rightarrow> (nat \<Rightarrow> bool) \<Rightarrow> nat \<Rightarrow> (pyerr option \<times> nat) option" where
  "poll_outstanding reading late i =
     (if late i then Some (Some (TimeoutError ''fail_after''), i)
      else if 0 < reading i then poll_outstanding reading late (i + 1)
      else Some (None, i))"

text \<open>\<open>None\<close> when the command never ends.  Every other kind than \<open>put_record\<close> is treated as a flush.\<close>

definition execute :: "'q exec_env \<Rightarrow> command \<Rightarrow> ((pyerr + nat option) \<times> 'q producer) option" where
  "execute env cmd =
     (case cmd of
        PutRecord stream ur \<Rightarrow> Some (case ex_put env of Inl e \<Rightarrow> Inl e | Inr h \<Rightarrow> Inr (Some h), ex_world env 0)
      | _ \<Rightarrow>
          (let timeout = (case cmd of Flush t \<Rightarrow> t | _ \<Rightarrow> None) in
           case ex_flush env of
             Some e \<Rightarrow> Some (Inl e, ex_world env 0)
           | None \<Rightarrow>
               (case poll_outstanding (\<lambda>i. outstanding_records (ex_world env i)) (\<lambda>i. timeout \<noteq> None \<and> ex_late env i) 0 of
                  None \<Rightarrow> None
                | Some (Some e, i) \<Rightarrow> Some (Inl e, ex_world env i)
                | Some (None, i) \<Rightarrow> Some (Inr None, ex_world env i))))"

definition complete :: "pyerr + nat option \<Rightarrow> Command \<Rightarrow> Command" where
  "complete res c =
     (case res of Inl e \<Rightarrow> c\<lparr>cmd_exc := Some e, cmd_done := True\<rparr> | Inr r \<Rightarrow> c\<lparr>cmd_result := r, cmd_done := True\<rparr>)"

section \<open>The facade\<close>

record 'q SyncProducer =
  entered :: bool
  portal :: bool
  command_send :: bool
  dispatcher_started :: bool
  dispatcher_stopped :: bool
  producer_ref :: "'q producer option"

definition sync_init :: "'q SyncProducer" where
  "sync_init = \<lparr>entered = False, portal = False, command_send = False, dispatcher_started = False,
     dispatcher_stopped = False, producer_ref = None\<rparr>"

text \<open>The dispatcher task up to its loop: entering the producer \<open>p\<close> may raise, which ends the task.\<close>

definition dispatcher_start :: "pyerr option \<Rightarrow> 'q producer \<Rightarrow> 'q SyncProducer \<Rightarrow> 'q SyncProducer" where
  "dispatcher_start startup_error p s =
     (let s = s\<lparr>command_send := True\<rparr> in
      case startup_error of
        Some e \<Rightarrow> s\<lparr>dispatcher_started := True, producer_ref := None, dispatcher_stopped := True\<rparr>
      | None \<Rightarrow> s\<lparr>producer_ref := Some p, dispatcher_started := True\<rparr>)"

text \<open>Its loop over the commands in the order received: the commands as they are when it ends or waits, and the state.  Only \<open>shutdown\<close>
  ends it; the producer is then left, whatever that raises.  A command that never ends keeps all later ones waiting.\<close>

fun run_dispatcher :: "('q exec_env \<times> Command) list \<Rightarrow> 'q SyncProducer \<Rightarrow> Command list \<times> 'q SyncProducer" where
  "run_dispatcher [] s = ([], s)"
| "run_dispatcher ((env, c) # cmds) s =
     (if kind c = Shutdown
      then (c\<lparr>cmd_done := True\<rparr> # map snd cmds, s\<lparr>producer_ref := None, dispatcher_stopped := True\<rparr>)
      else case execute env (kind c) of
        None \<Rightarrow> (c # map snd cmds, s)
      | Some (res, p) \<Rightarrow>
          (case run_dispatcher cmds (s\<lparr>producer_ref := Some p\<rparr>) of (ds, s) \<Rightarrow> (complete res c # ds, s)))"

text \<open>The caller's side: send a command and wait until it is done.  The stream is closed when the dispatcher has ended.\<close>

definition dispatch_command :: "'q exec_env \<Rightarrow> command \<Rightarrow> 'q SyncProducer \<Rightarrow> ((pyerr + nat option) \<times> 'q SyncProducer) option" where
  "dispatch_command env k s =
     (if \<not> command_send s \<or> \<not> portal s then Some (Inl AssertionError, s)
      else if dispatcher_stopped s then Some (Inl ClosedResourceError, s)
      else case run_dispatcher [(env, command_init k)] s of
        (cmds, s) \<Rightarrow>
          let cmd = hd cmds in
          if \<not> cmd_done cmd then None
          else Some (case cmd_exc cmd of Some e \<Rightarrow> Inl e | None \<Rightarrow> Inr (cmd_result cmd), s))"

definition sync_put_record :: "'q exec_env \<Rightarrow> pystr \<Rightarrow> UserRecord \<Rightarrow> 'q SyncProducer
    \<Rightarrow> ((pyerr + nat option) \<times> 'q SyncProducer) option" where
  "sync_put_record env stream ur s =
     (if \<not> entered s then Some (Inl (RuntimeError ''SyncProducer not entered''), s)
      else case dispatch_command env (PutRecord stream ur) s of
        None \<Rightarrow> None
      | Some (Inl e, s) \<Rightarrow> Some (Inl e, s)
      | Some (Inr h, s) \<Rightarrow> if \<not> portal s then Some (Inl AssertionError, s) else Some (Inr h, s))"

definition sync_flush :: "'q exec_env \<Rightarrow> real option \<Rightarrow> 'q SyncProducer \<Rightarrow> (pyerr option \<times> 'q SyncProducer) option" where
  "sync_flush env timeout s =
     (if \<not> entered s then Some (Some (RuntimeError ''SyncProducer not entered''), s)
      else case dispatch_command env (Flush timeout) s of
        None \<Rightarrow> None
      | Some (Inl (TimeoutError m), s) \<Rightarrow> Some (Some (TimeoutError ''SyncProducer.flush timed out''), s)
      | Some (Inl e, s) \<Rightarrow> Some (Some e, s)
      | Some (Inr r, s) \<Rightarrow> Some (None, s))"

definition sync_outstanding_records :: "'q SyncProducer \<Rightarrow> int" where
  "sync_outstanding_records s = (case producer_ref s of None \<Rightarrow> 0 | Some p \<Rightarrow> outstanding_records p)"

definition sync_enter :: "pyerr option \<Rightarrow> 'q producer \<Rightarrow> 'q SyncProducer \<Rightarrow> pyerr option \<times> 'q SyncProducer" where
  "sync_enter startup_error p s =
     (let s = dispatcher_start startup_error p (s\<lparr>portal := True\<rparr>) in
      case startup_error of
        Some e \<Rightarrow> (Some e, s\<lparr>command_send := False, portal := False\<rparr>)
      | None \<Rightarrow> (None, s\<lparr>entered := True\<rparr>))"

text \<open>Leaving the portal is code of anyio: \<open>portal_returns stopped\<close> says whether it returns, given that the dispatcher has ended.\<close>

definition leave_portal :: "(bool \<Rightarrow> bool) \<Rightarrow> pyerr option \<Rightarrow> 'q SyncProducer \<Rightarrow> (pyerr option \<times> 'q SyncProducer) option" where
  "leave_portal portal_returns e s =
     (if portal_returns (dispatcher_stopped s) then Some (e, s\<lparr>command_send := False, portal := False\<rparr>) else None)"

definition EXIT_FLUSH_TIMEOUT :: real where "EXIT_FLUSH_TIMEOUT = 30"

definition suppressed :: "pyerr + 'r \<Rightarrow> pyerr option" where
  "suppressed res = (case res of Inl (TimeoutError m) \<Rightarrow> None | Inl e \<Rightarrow> Some e | Inr r \<Rightarrow> None)"

definition sync_exit :: "(bool \<Rightarrow> bool) \<Rightarrow> 'q exec_env \<Rightarrow> 'q SyncProducer \<Rightarrow> (pyerr option \<times> 'q SyncProducer) option" where
  "sync_exit portal_returns env s =
     (case dispatch_command env (Flush (Some EXIT_FLUSH_TIMEOUT)) (s\<lparr>entered := False\<rparr>) of
        None \<Rightarrow> None
      | Some (res, s) \<Rightarrow>
          (case suppressed res of
             Some e \<Rightarrow> leave_portal portal_returns (Some e) s
           | None \<Rightarrow>
               (case dispatch_command env Shutdown s of
                  None \<Rightarrow> None
                | Some (Inl e, s) \<Rightarrow> leave_portal portal_returns (Some e) s
                | Some (Inr r, s) \<Rightarrow> leave_portal portal_returns None s)))"

section \<open>Properties\<close>

text \<open>Commands are executed one after the other, in order: those before the first \<open>shutdown\<close>, or before one that never ends, are completed
  with their own result, and no command after it is touched.\<close>

lemma run_dispatcher_serial:
  assumes "run_dispatcher cmds s = (ds, s')" "list_all (\<lambda>(env, c). \<not> cmd_done c) cmds"
  shows "\<exists>k\<le>length cmds. length ds = length cmds
    \<and> (\<forall>i<k. kind (snd (cmds ! i)) \<noteq> Shutdown
        \<and> (\<exists>res p. execute (fst (cmds ! i)) (kind (snd (cmds ! i))) = Some (res, p) \<and> ds ! i = complete res (snd (cmds ! i))))
    \<and> (\<forall>i<length cmds. k < i \<longrightarrow> ds ! i = snd (cmds ! i))
    \<and> (k < length cmds \<longrightarrow> (if kind (snd (cmds ! k)) = Shutdown then cmd_done (ds ! k) \<and> dispatcher_stopped s'
         else execute (fst (cmds ! k)) (kind (snd (cmds ! k))) = None \<and> ds ! k = snd (cmds ! k)))"
  using assms
proof (induction cmds arbitrary: s ds)
  case (Cons ec cmds)
  obtain env c where ec: "ec = (env, c)" by fastforce
  show ?case
  proof (cases "kind c = Shutdown \<or> execute env (kind c) = None")
    case True
    with Cons.prems(1) ec show ?thesis by (intro exI [of _ 0]) (auto simp: nth_Cons' split: if_splits)
  next
    case False
    then obtain res p where ex: "execute env (kind c) = Some (res, p)" by auto
    obtain ds' s1 where r: "run_dispatcher cmds (s\<lparr>producer_ref := Some p\<rparr>) = (ds', s1)" by fastforce
    with Cons.prems(1) False ex ec have eq: "ds = complete res c # ds'" "s' = s1" by auto
    from Cons.IH [OF r [folded eq(2)]] Cons.prems(2) obtain k where k: "k \<le> length cmds" "length ds' = length cmds"
        "\<forall>i<k. kind (snd (cmds ! i)) \<noteq> Shutdown
        \<and> (\<exists>res p. execute (fst (cmds ! i)) (kind (snd (cmds ! i))) = Some (res, p) \<and> ds' ! i = complete res (snd (cmds ! i)))"
        "\<forall>i<length cmds. k < i \<longrightarrow> ds' ! i = snd (cmds ! i)"
        "k < length cmds \<longrightarrow> (if kind (snd (cmds ! k)) = Shutdown then cmd_done (ds' ! k) \<and> dispatcher_stopped s'
         else execute (fst (cmds ! k)) (kind (snd (cmds ! k))) = None \<and> ds' ! k = snd (cmds ! k))" by auto
    show ?thesis
      by (rule exI [of _ "Suc k"]) (use k ex False ec eq(1) in \<open>auto simp: nth_Cons' less_Suc_eq_0_disj\<close>)
  qed
qed simp

lemma poll_returns:
  assumes "late n \<or> reading n \<le> 0" "i \<le> n"
  shows "\<exists>r. poll_outstanding reading late i = Some r"
  using assms(2)
proof (induction "n - i" arbitrary: i)
  case 0
  then have "i = n" by simp
  with assms(1) show ?case by (subst poll_outstanding.simps) auto
next
  case (Suc k)
  then have "\<exists>r. poll_outstanding reading late (i + 1) = Some r" by (intro Suc.hyps(1)) auto
  then show ?case by (subst poll_outstanding.simps) auto
qed

definition poll_ok :: "(nat \<Rightarrow> int) \<Rightarrow> (nat \<Rightarrow> bool) \<Rightarrow> pyerr option \<times> nat \<Rightarrow> bool" where
  "poll_ok reading late r \<longleftrightarrow>
     (if fst r = None then reading (snd r) \<le> 0 \<and> \<not> late (snd r) else fst r = Some (TimeoutError ''fail_after'') \<and> late (snd r))"

lemma poll_result:
  assumes "poll_outstanding reading late i = Some r"
  shows "poll_ok reading late r"
proof (rule poll_outstanding.raw_induct [where P = "\<lambda>reading late i. poll_ok reading late", OF _ assms])
  fix poll :: "(nat \<Rightarrow> int) \<Rightarrow> (nat \<Rightarrow> bool) \<Rightarrow> nat \<Rightarrow> (pyerr option \<times> nat) option" and reading late i r
  assume IH: "\<And>reading late i r. poll reading late i = Some r \<Longrightarrow> poll_ok reading late r"
    and r: "(if late i then Some (Some (TimeoutError ''fail_after''), i)
      else if 0 < reading i then poll reading late (i + 1) else Some (None, i)) = Some r"
  show "poll_ok reading late r"
  proof (cases "late i \<or> \<not> 0 < reading i")
    case True
    with r show ?thesis by (auto simp: poll_ok_def split: if_splits)
  next
    case False
    with r show ?thesis by (intro IH [of reading late "i + 1"]) simp
  qed
qed

text \<open>A cancellation is a step of the producer, or changes nothing.\<close>

lemma sync_cancel_step:
  assumes "h < length (results p)" "sync_cancel (results p ! h) = (b, out)"
  shows "psteps service ops cfg t p t (p\<lparr>results := (results p)[h := out]\<rparr>)"
proof (cases "is_set (results p ! h)")
  case True
  with assms(2) have "(results p)[h := out] = results p" by (auto simp: sync_cancel_def)
  then have "p\<lparr>results := (results p)[h := out]\<rparr> = p" by simp
  then show ?thesis using psteps.none by simp
next
  case False
  with assms(2) have "set_exception (SyncOutcomeCancelled ''SyncOutcome.cancel'') (results p ! h) = Inr out"
    by (auto simp: sync_cancel_def set_exception_def is_set_def)
  from pstep.cancel [OF assms(1) this] show ?thesis by (rule pstep_psteps)
qed

text \<open>C31.  A cancelled outcome stays cancelled and is finished only once.  \<open>cancel\<close> answers \<open>True\<close> exactly when the outcome was not
  resolved; afterwards it is resolved in any case, waiting on it never blocks, and after a successful cancellation every waiter gets
  \<open>SyncOutcomeCancelled\<close>, while the resolution by the pipeline, should it still come, is refused.\<close>

theorem sync_cancel_resolves:
  assumes "outcome_reach outcome_init out" "sync_cancel out = (b, out')"
  shows "b = (\<not> sync_done out) \<and> sync_done out' \<and> sync_wait timeout out' \<noteq> None
    \<and> (if b then sync_wait timeout out' = Some (Inl (SyncOutcomeCancelled ''SyncOutcome.cancel'')) else out' = out)
    \<and> (\<forall>v. set_value v out' = Inl (RuntimeError ''Outcome already set''))"
  using assms(2) outcome_reach_wait [OF assms(1) refl]
  by (auto simp: sync_cancel_def sync_done_def is_set_def set_exception_def set_value_def sync_wait_def wait_with_timeout_def wait_def outcome_init_def
      split: if_splits option.splits pyerr.splits)

theorem sync_cancel_resolves_witness:
  "sync_wait None (snd (sync_cancel (outcome_init :: nat Outcome))) = Some (Inl (SyncOutcomeCancelled ''SyncOutcome.cancel''))"
  using sync_cancel_resolves [OF outcome_reach.unset surjective_pairing, where timeout = None]
  by (auto simp: sync_done_def is_set_def outcome_init_def split: if_splits)

text \<open>A producer with nothing outstanding is empty.\<close>

lemma drained_state:
  assumes "sorted_key_list ops pending_key" "sane cfg" "prun ops cfg t p" "outstanding_records p \<le> 0"
  shows "starting p = [] \<and> unresolved p = {} \<and> (\<forall>s pl. dict_get (pipelines p) s = Some pl \<longrightarrow> live ops pl = [])"
proof -
  note lq = pinv_prun [OF assms(1-3)]
  have "outstanding p = int (length (starting p)) + int (length (handles_of (pipelines p)))"
    using lq(2) by (simp add: limiter_queue.pinv_def [OF lq(1)])
  with assms(4) have "length (starting p) + length (handles_of (pipelines p)) = 0" unfolding outstanding_records_def by linarith
  then have z: "starting p = []" "handles_of (pipelines p) = []" by simp_all
  have "handles_ok [] (results p)" using lq(2) z(2) by (simp add: limiter_queue.pinv_def [OF lq(1)])
  then have "unresolved p = {}" by (simp add: unresolved_def handles_ok_def)
  moreover have "live ops pl = []" if "dict_get (pipelines p) s = Some pl" for s pl
  proof -
    have "(s, pl) \<in> set (pipelines p)" using map_of_SomeD [OF that] .
    then have "pl_pending pl = []" using z(2) by (force simp: handles_of_def)
    with pinv_live(1) [OF lq \<open>(s, pl) \<in> set (pipelines p)\<close>] show ?thesis by simp
  qed
  ultimately show ?thesis using z(1) by blast
qed

text \<open>The states of a facade between \<open>__enter__\<close> and \<open>__exit__\<close>, by the calls that return.\<close>

inductive sync_reach :: "'q SyncProducer \<Rightarrow> bool" where
  enter: "sync_enter None p sync_init = (None, s) \<Longrightarrow> sync_reach s"
| put: "sync_reach s \<Longrightarrow> sync_put_record env stream ur s = Some (r, s') \<Longrightarrow> sync_reach s'"
| flush: "sync_reach s \<Longrightarrow> sync_flush env timeout s = Some (r, s') \<Longrightarrow> sync_reach s'"

definition sync_ok :: "'q SyncProducer \<Rightarrow> bool" where
  "sync_ok s \<longleftrightarrow> portal s \<and> command_send s \<and> dispatcher_started s \<and> \<not> dispatcher_stopped s \<and> producer_ref s \<noteq> None"

text \<open>A command sent to a running dispatcher: its result is that of the producer.\<close>

lemma dispatch_running:
  assumes "portal s" "command_send s" "\<not> dispatcher_stopped s" "k \<noteq> Shutdown"
  shows "dispatch_command env k s = (case execute env k of None \<Rightarrow> None | Some (res, p) \<Rightarrow> Some (res, s\<lparr>producer_ref := Some p\<rparr>))"
  using assms by (auto simp: dispatch_command_def command_init_def complete_def Let_def split: option.splits sum.splits)

lemma dispatch_shutdown:
  assumes "portal s" "command_send s" "\<not> dispatcher_stopped s"
  shows "dispatch_command env Shutdown s = Some (Inr None, s\<lparr>producer_ref := None, dispatcher_stopped := True\<rparr>)"
  using assms by (simp add: dispatch_command_def command_init_def Let_def)

lemma sync_reach_ok: "sync_reach s \<Longrightarrow> entered s \<and> sync_ok s"
proof (induction rule: sync_reach.induct)
  case (enter p s)
  then show ?case by (auto simp: sync_enter_def sync_init_def dispatcher_start_def sync_ok_def Let_def)
next
  case (put s env stream ur r s')
  then show ?case
    by (auto simp: sync_put_record_def dispatch_running sync_ok_def split: option.splits prod.splits sum.splits if_splits)
next
  case (flush s env timeout r s')
  then show ?case
    by (auto simp: sync_flush_def dispatch_running sync_ok_def split: option.splits prod.splits sum.splits pyerr.splits if_splits)
qed

lemma execute_flush_returns:
  assumes "ex_flush env \<noteq> None \<or> timeout \<noteq> None \<and> ex_late env n \<or> outstanding_records (ex_world env n) \<le> 0"
  shows "execute env (Flush timeout) \<noteq> None"
proof (cases "ex_flush env")
  case None
  with assms poll_returns [of "\<lambda>i. timeout \<noteq> None \<and> ex_late env i" n "\<lambda>i. outstanding_records (ex_world env i)" 0] show ?thesis
    by (auto simp: execute_def split: option.splits prod.splits)
qed (simp add: execute_def)

lemma execute_flush_result:
  assumes "execute env (Flush timeout) = Some (res, p)"
  shows "(res = Inr r \<longrightarrow> outstanding_records p \<le> 0 \<and> p \<in> range (ex_world env))
    \<and> (res = Inl e \<longrightarrow> ex_flush env = Some e \<or> ex_flush env = None \<and> e = TimeoutError ''fail_after'')"
  using assms poll_result [of "\<lambda>i. outstanding_records (ex_world env i)" "\<lambda>i. timeout \<noteq> None \<and> ex_late env i" 0]
  by (fastforce simp: execute_def poll_ok_def split: option.splits prod.splits if_splits)

text \<open>C17.  A flush of the facade that returns has drained the producer.  It returns when the deadline passes or some look of
  its polling loop finds nothing outstanding; and when it returns without raising, at that moment no call of \<open>put_record\<close> is under way,
  no record is left anywhere in the pipelines, and every outcome ever handed out is resolved.\<close>

theorem sync_flush_drains:
  assumes "sorted_key_list ops pending_key" "sane cfg" "sync_reach s" "\<And>i. \<exists>t. prun ops cfg t (ex_world env i)"
  shows "(timeout \<noteq> None \<and> ex_late env n \<or> outstanding_records (ex_world env n) \<le> 0 \<longrightarrow> sync_flush env timeout s \<noteq> None)
    \<and> (\<forall>s'. sync_flush env timeout s = Some (None, s') \<longrightarrow>
        (\<exists>p. producer_ref s' = Some p \<and> starting p = [] \<and> unresolved p = {}
           \<and> (\<forall>s pl. dict_get (pipelines p) s = Some pl \<longrightarrow> live ops pl = [])))"
proof -
  have ok: "entered s" "portal s" "command_send s" "\<not> dispatcher_stopped s"
    using sync_reach_ok [OF assms(3)] by (auto simp: sync_ok_def)
  note eq = dispatch_running [OF ok(2-4), of "Flush timeout" env]
  have ret: "sync_flush env timeout s \<noteq> None" if "timeout \<noteq> None \<and> ex_late env n \<or> outstanding_records (ex_world env n) \<le> 0"
    using execute_flush_returns [of env timeout n] that ok(1)
    by (auto simp: sync_flush_def eq split: option.splits prod.splits sum.splits pyerr.splits)
  have dr: "\<exists>p. producer_ref s' = Some p \<and> starting p = [] \<and> unresolved p = {}
      \<and> (\<forall>s pl. dict_get (pipelines p) s = Some pl \<longrightarrow> live ops pl = [])" if fl: "sync_flush env timeout s = Some (None, s')" for s'
  proof -
    obtain r p where ex: "execute env (Flush timeout) = Some (Inr r, p)" "s' = s\<lparr>producer_ref := Some p\<rparr>"
      using fl ok(1) by (cases "execute env (Flush timeout)") (auto simp: sync_flush_def eq split: sum.splits pyerr.splits)
    from execute_flush_result [OF ex(1), of r] obtain t where p: "outstanding_records p \<le> 0" "prun ops cfg t p"
      using assms(4) by auto
    with drained_state [OF assms(1,2) p(2,1)] ex(2) show ?thesis by simp
  qed
  with ret show ?thesis by blast
qed

definition demo_exec :: "Pending list exec_env" where
  "demo_exec = \<lparr>ex_put = Inr 0, ex_flush = None,
     ex_world = (\<lambda>_. snd (producer_aenter None None demo_config (producer_init demo_config))), ex_late = (\<lambda>n. n = 5)\<rparr>"

definition demo_sync :: "Pending list SyncProducer" where
  "demo_sync = snd (sync_enter None (ex_world demo_exec 0) sync_init)"

lemma demo_sync_reach: "sync_reach demo_sync"
  unfolding demo_sync_def by (rule sync_reach.enter) (simp add: sync_enter_def Let_def)

theorem sync_flush_drains_witness: "sync_flush demo_exec None demo_sync \<noteq> None"
proof -
  have "\<exists>t. prun demo_ops demo_config t (ex_world demo_exec i)" for i unfolding demo_exec_def by (simp, blast intro: prun.init)
  from sync_flush_drains [OF insort_list.sorted_key_list_axioms demo_sane demo_sync_reach this, of None 0]
  show ?thesis by (simp add: demo_exec_def outstanding_records_def producer_aenter_def producer_init_def)
qed

text \<open>C18.  When the facade's exit returns.  The portal is expected to wait for its tasks: leaving it returns exactly when the dispatcher has ended; and
  the flush's deadline is expected to pass.  Then \<open>__exit__\<close> of a facade in use returns, without raising, with the dispatcher ended, the producer
  released and the portal closed, unless the last flush raises something other than a timeout: in that case \<open>shutdown\<close> is never sent, the dispatcher waits
  for commands for ever, and \<open>__exit__\<close> does not return.\<close>

theorem sync_exit_returns:
  assumes "sync_reach s" "portal_returns True" "\<not> portal_returns False" "ex_late env n"
  shows "(sync_exit portal_returns env s = None \<longleftrightarrow> (\<exists>e. ex_flush env = Some e \<and> (\<forall>m. e \<noteq> TimeoutError m)))
    \<and> (\<forall>e s'. sync_exit portal_returns env s = Some (e, s') \<longrightarrow> e = None \<and> \<not> entered s' \<and> dispatcher_stopped s' \<and> \<not> portal s'
        \<and> sync_outstanding_records s' = 0
        \<and> sync_put_record env' stream ur s' = Some (Inl (RuntimeError ''SyncProducer not entered''), s'))"
proof -
  let ?s = "s\<lparr>entered := False\<rparr>"
  have ok: "portal ?s" "command_send ?s" "\<not> dispatcher_stopped ?s"
    using sync_reach_ok [OF assms(1)] by (auto simp: sync_ok_def)
  obtain res p where ex: "execute env (Flush (Some EXIT_FLUSH_TIMEOUT)) = Some (res, p)"
    using execute_flush_returns [of env "Some EXIT_FLUSH_TIMEOUT" n] assms(4) by (cases "execute env (Flush (Some EXIT_FLUSH_TIMEOUT))") auto
  define s1 where "s1 = ?s\<lparr>producer_ref := Some p\<rparr>"
  have d1: "dispatch_command env (Flush (Some EXIT_FLUSH_TIMEOUT)) ?s = Some (res, s1)"
    using dispatch_running [OF ok, of "Flush (Some EXIT_FLUSH_TIMEOUT)" env] ex by (simp add: s1_def)
  have d2: "dispatch_command env Shutdown s1 = Some (Inr None, s1\<lparr>producer_ref := None, dispatcher_stopped := True\<rparr>)"
    using ok by (intro dispatch_shutdown) (simp_all add: s1_def)
  have sup: "suppressed res = (case ex_flush env of Some (TimeoutError m) \<Rightarrow> None | r \<Rightarrow> r)"
  proof (cases "ex_flush env")
    case None
    show ?thesis
    proof (cases res)
      case (Inl e)
      with None execute_flush_result [OF ex, of _ e] show ?thesis by (simp add: suppressed_def)
    qed (simp add: None suppressed_def)
  next
    case (Some e)
    with ex have "res = Inl e" by (simp add: execute_def)
    with Some show ?thesis by (cases e) (simp_all add: suppressed_def)
  qed
  show ?thesis
  proof (cases "suppressed res")
    case None
    then have "sync_exit portal_returns env s = Some (None,
        s1\<lparr>producer_ref := None, dispatcher_stopped := True, command_send := False, portal := False\<rparr>)"
      by (simp add: sync_exit_def d1 d2 leave_portal_def assms(2))
    with None sup show ?thesis
      by (auto simp: s1_def sync_outstanding_records_def sync_put_record_def split: option.splits pyerr.splits)
  next
    case (Some e)
    then have "sync_exit portal_returns env s = None" using ok(3) by (simp add: sync_exit_def d1 leave_portal_def assms(3) s1_def)
    with Some sup show ?thesis by (auto split: option.splits pyerr.splits)
  qed
qed

theorem sync_exit_returns_witness:
  "sync_exit (\<lambda>stopped. stopped) demo_exec demo_sync \<noteq> None
    \<and> sync_exit (\<lambda>stopped. stopped) (demo_exec\<lparr>ex_flush := Some UnicodeEncodeError\<rparr>) demo_sync = None"
  using sync_exit_returns [OF demo_sync_reach, of "\<lambda>stopped. stopped" demo_exec 5]
    sync_exit_returns [OF demo_sync_reach, of "\<lambda>stopped. stopped" "demo_exec\<lparr>ex_flush := Some UnicodeEncodeError\<rparr>" 5]
  by (simp add: demo_exec_def)

end
