(* ===== verification/Producer_Spec.thy ===== *)
theory Producer_Spec
  imports Producer
begin

text \<open>
  What a caller sees of the producer, without its pipelines: the slots that are free, the calls that hold a slot and have no outcome
  yet, the outcomes whose record is still on its way, and what waiting on each outcome gives.  The steps of this
  specification are those of the documentation of \<open>put_record\<close> and of \<open>SyncOutcome.cancel\<close>.  The producer of
  \<^verbatim>\<open>src/aiokpl/producer.py\<close> is shown to refine it: every step of the detailed model is one of these steps or invisible.  The facts about
  the specification then hold of the program.
\<close>

section \<open>The specification\<close>

record spec =
  sp_free :: nat
  sp_starting :: nat
  sp_open :: "nat set"
  sp_seen :: "(pyerr + RecordResult option) option list"

definition spec_init :: "Config \<Rightarrow> spec" where
  "spec_init cfg = \<lparr>sp_free = cf_max_outstanding_records cfg, sp_starting = 0, sp_open = {}, sp_seen = []\<rparr>"

inductive spec_step :: "spec \<Rightarrow> spec \<Rightarrow> bool" where
  internal: "spec_step s s"
| admit: "0 < sp_free s \<Longrightarrow> spec_step s (s\<lparr>sp_free := sp_free s - 1, sp_starting := sp_starting s + 1\<rparr>)"
| refuse: "0 < sp_starting s \<Longrightarrow> spec_step s (s\<lparr>sp_free := sp_free s + 1, sp_starting := sp_starting s - 1\<rparr>)"
| accept: "0 < sp_starting s \<Longrightarrow> spec_step s (s\<lparr>sp_starting := sp_starting s - 1,
     sp_open := insert (length (sp_seen s)) (sp_open s), sp_seen := sp_seen s @ [None]\<rparr>)"
| resolve: "h \<in> sp_open s \<Longrightarrow> sp_seen s ! h = None \<Longrightarrow> spec_step s (s\<lparr>sp_free := sp_free s + 1, sp_open := sp_open s - {h},
     sp_seen := (sp_seen s)[h := Some (Inr (Some r))]\<rparr>)"
| discard: "h \<in> sp_open s \<Longrightarrow> sp_seen s ! h = Some (Inl err) \<Longrightarrow>
     spec_step s (s\<lparr>sp_free := sp_free s + 1, sp_open := sp_open s - {h}\<rparr>)"
| give_up: "h \<in> sp_open s \<Longrightarrow> sp_seen s ! h = None \<Longrightarrow> spec_step s (s\<lparr>sp_seen := (sp_seen s)[h := Some (Inl err)]\<rparr>)"

text \<open>Slots are conserved; an outcome without a record on its way has been resolved.\<close>

definition spec_inv :: "nat \<Rightarrow> spec \<Rightarrow> bool" where
  "spec_inv m s \<longleftrightarrow> sp_open s \<subseteq> {..<length (sp_seen s)} \<and> sp_free s + sp_starting s + card (sp_open s) = m
     \<and> (\<forall>h<length (sp_seen s). sp_seen s ! h = None \<longrightarrow> h \<in> sp_open s)"

lemma spec_inv_init: "spec_inv (cf_max_outstanding_records cfg) (spec_init cfg)"
  by (simp add: spec_inv_def spec_init_def)

lemma spec_inv_finite: "spec_inv m s \<Longrightarrow> finite (sp_open s)"
  unfolding spec_inv_def using finite_subset by blast

lemma spec_inv_step: "spec_step s s' \<Longrightarrow> spec_inv m s \<Longrightarrow> spec_inv m s'"
proof (induction rule: spec_step.induct)
  case (accept s)
  then have "finite (sp_open s)" "length (sp_seen s) \<notin> sp_open s" using spec_inv_finite by (auto simp: spec_inv_def)
  with accept show ?case by (auto simp: spec_inv_def nth_append less_Suc_eq)
next
  case (resolve h s r)
  then have "finite (sp_open s)" "card (sp_open s) > 0" using spec_inv_finite by (auto simp: card_gt_0_iff)
  with resolve show ?case by (auto simp: spec_inv_def nth_update split: if_splits)
next
  case (discard h s err)
  then have "finite (sp_open s)" "card (sp_open s) > 0" using spec_inv_finite by (auto simp: card_gt_0_iff)
  with discard show ?case by (auto simp: spec_inv_def)
qed (auto simp: spec_inv_def nth_update)

text \<open>What a caller has seen stays, and a record that has left does not come back.\<close>

definition spec_after :: "spec \<Rightarrow> spec \<Rightarrow> bool" where
  "spec_after s s' \<longleftrightarrow> length (sp_seen s) \<le> length (sp_seen s')
     \<and> (\<forall>h r. h < length (sp_seen s) \<longrightarrow> sp_seen s ! h = Some r \<longrightarrow> sp_seen s' ! h = Some r)
     \<and> (\<forall>h. h < length (sp_seen s) \<longrightarrow> h \<in> sp_open s' \<longrightarrow> h \<in> sp_open s)"

lemma spec_after_refl: "spec_after s s"
  by (simp add: spec_after_def)

lemma spec_after_trans: "spec_after s s' \<Longrightarrow> spec_after s' s'' \<Longrightarrow> spec_after s s''"
  unfolding spec_after_def by (meson less_le_trans order_trans)

lemma spec_step_after: "spec_step s s' \<Longrightarrow> spec_after s s'"
  by (induction rule: spec_step.induct) (auto simp: spec_after_def nth_append nth_update)

section \<open>Refinement\<close>

text \<open>A forward simulation by an abstraction function, under an invariant of the concrete system.\<close>

locale forward_simulation =
  fixes cstep :: "'c \<Rightarrow> 'c \<Rightarrow> bool" and astep :: "'a \<Rightarrow> 'a \<Rightarrow> bool" and abs :: "'c \<Rightarrow> 'a" and inv :: "'c \<Rightarrow> bool"
  assumes inv_step: "inv c \<Longrightarrow> cstep c c' \<Longrightarrow> inv c'"
    and sim_step: "inv c \<Longrightarrow> cstep c c' \<Longrightarrow> astep (abs c) (abs c')"
begin

lemma sim_steps: "cstep\<^sup>*\<^sup>* c c' \<Longrightarrow> inv c \<Longrightarrow> inv c' \<and> astep\<^sup>*\<^sup>* (abs c) (abs c')"
proof (induction rule: rtranclp_induct)
  case (step d e)
  then show ?case using inv_step sim_step by (auto intro: rtranclp.rtrancl_into_rtrancl)
qed simp

lemma sim_relation:
  assumes "\<And>a. R a a" "\<And>a b c. R a b \<Longrightarrow> R b c \<Longrightarrow> R a c" "\<And>a b. astep a b \<Longrightarrow> R a b" "cstep\<^sup>*\<^sup>* c c'" "inv c"
  shows "R (abs c) (abs c')"
proof -
  have "R a b" if "astep\<^sup>*\<^sup>* a b" for a b using that
    by (induction rule: rtranclp_induct) (use assms(1,2,3) in blast)+
  then show ?thesis using sim_steps [OF assms(4,5)] by blast
qed

end

text \<open>The abstraction.\<close>

definition spec_of :: "'q producer \<Rightarrow> spec" where
  "spec_of p = \<lparr>sp_free = semaphore p, sp_starting = length (starting p), sp_open = set (handles_of (pipelines p)),
     sp_seen = map wait (results p)\<rparr>"

lemma does_pending: "does ops cfg e w pl res \<Longrightarrow> pl_pending (snd res) = pl_pending pl"
  by (erule does.cases) (auto simp: route_def on_aggregator_batch_def on_limiter_admit_def handle_expired_def send_and_handle_def
      batches_out_def limited_out_def requests_out_def handled_def split: sum.splits)

lemma wakes_pending: "wakes ops cfg e pl res \<Longrightarrow> pl_pending (snd res) = pl_pending pl"
  by (erule wakes.cases) (auto simp: aggregator_wakes_def collector_wakes_def limiter_turn_def flush_aggregator_def
      flush_limiter_def flush_collector_def batches_out_def limited_out_def requests_out_def)

lemma wait_simps:
  "wait outcome_init = None" "set_exception err out = Inr out' \<Longrightarrow> wait out = None \<and> wait out' = Some (Inl err)"
  "\<not> is_set out \<Longrightarrow> wait out = None"
  by (auto simp: wait_def outcome_init_def set_exception_def is_set_def split: if_splits)

lemma wait_set:
  assumes "outcome_reach outcome_init out" "\<not> is_set out"
  shows "wait (out\<lparr>ovalue := Some v, event := True\<rparr>) = Some (Inr (Some v))"
  using outcome_reach_wait [OF assms(1) refl] assms(2) by (auto simp: wait_def is_set_def outcome_init_def)

lemma handles_pending:
  assumes "dict_get d s = Some pl" "pl_pending pl' = pl_pending pl"
  shows "set (handles_of (dict_set s pl' d)) = set (handles_of d)"
  using handles_set [OF assms(1), of pl'] assms(2) by (metis add_right_cancel set_mset_mset)

lemma advance_spec:
  assumes "dict_get (pipelines p) s = Some pl" "pl_pending (snd res) = pl_pending pl"
  shows "spec_of (advance s res p) = spec_of p"
  unfolding spec_of_def advance_def Let_def by (simp, rule handles_pending [OF assms(1)]) (simp add: assms(2))

context limiter_queue
begin

lemma register_spec:
  assumes "pinv cfg t p" "t \<le> t'" "starting p = as @ (s, ur) # bs"
    "\<And>pl. dict_get (pipelines p) s = Some pl \<Longrightarrow> oid \<notin> obj ` set (live ops pl)"
    "put_record_register cfg t' oid s ur (p\<lparr>starting := as @ bs\<rparr>) = (res, p')"
  shows "spec_step (spec_of p) (spec_of p')"
proof -
  have n: "sp_starting (spec_of p) = Suc (length as + length bs)" using assms(3) by (simp add: spec_of_def)
  from register_shape [OF pinv_mono [OF assms(1,2)] assms(3,4,5)]
  obtain q where q: "results q = results p" "semaphore q = semaphore p" "handles_of (pipelines q) = handles_of (pipelines p)"
      "(\<exists>err. p' = release (q\<lparr>starting := as @ bs\<rparr>))
      \<or> (\<exists>pl'. mset (handles_of (dict_set s pl' (pipelines q))) = mset (length (results p) # handles_of (pipelines p))
          \<and> p' = q\<lparr>starting := as @ bs, results := results p @ [outcome_init], pipelines := dict_set s pl' (pipelines q)\<rparr>)" by blast
  from q(4) show ?thesis
  proof (elim disjE exE conjE)
    fix err
    assume "p' = release (q\<lparr>starting := as @ bs\<rparr>)"
    then have "spec_of p' = (spec_of p)\<lparr>sp_free := sp_free (spec_of p) + 1, sp_starting := sp_starting (spec_of p) - 1\<rparr>"
      using q n by (simp add: spec_of_def release_def)
    with spec_step.refuse [of "spec_of p"] n show ?thesis by simp
  next
    fix pl'
    assume h: "mset (handles_of (dict_set s pl' (pipelines q))) = mset (length (results p) # handles_of (pipelines p))"
      and "p' = q\<lparr>starting := as @ bs, results := results p @ [outcome_init], pipelines := dict_set s pl' (pipelines q)\<rparr>"
    then have "spec_of p' = (spec_of p)\<lparr>sp_starting := sp_starting (spec_of p) - 1,
        sp_open := insert (length (sp_seen (spec_of p))) (sp_open (spec_of p)), sp_seen := sp_seen (spec_of p) @ [None]\<rparr>"
      using q n mset_eq_setD [OF h] by (simp add: spec_of_def wait_simps)
    with spec_step.accept [of "spec_of p"] n show ?thesis by simp
  qed
qed

lemma finish_spec:
  assumes "pinv cfg t p" "dict_get (pipelines p) s = Some pl" "pl_work pl = as @ Finish x r # bs"
  shows "spec_step (spec_of p) (spec_of (on_retrier_finish s x r (pl\<lparr>pl_work := as @ bs\<rparr>) p))"
proof -
  from finish_shape [OF assms] obtain h pl' rs where f:
      "on_retrier_finish s x r (pl\<lparr>pl_work := as @ bs\<rparr>) p = release (p\<lparr>pipelines := dict_set s pl' (pipelines p), results := rs\<rparr>)"
      and hs: "mset (h # handles_of (dict_set s pl' (pipelines p))) = mset (handles_of (pipelines p))"
      and rs: "if is_set (results p ! h) then rs = results p
        else rs = (results p)[h := (results p ! h)\<lparr>ovalue := Some r, event := True\<rparr>]" by blast
  have ok: "handles_ok (handles_of (pipelines p)) (results p)" using assms(1) by (simp add: pinv_def)
  have ok': "handles_ok (h # handles_of (dict_set s pl' (pipelines p))) (results p)" by (rule handles_ok_mset [OF ok hs])
  then have h: "h < length (results p)" "h \<in> sp_open (spec_of p)" "outcome_reach outcome_init (results p ! h)"
    using mset_eq_setD [OF hs] by (auto simp: spec_of_def handles_ok_def list_all_length)
  have op: "set (handles_of (dict_set s pl' (pipelines p))) = sp_open (spec_of p) - {h}"
    using ok' mset_eq_setD [OF hs] by (auto simp: spec_of_def handles_ok_def)
  show ?thesis
  proof (cases "is_set (results p ! h)")
    case True
    then obtain err where err: "exc (results p ! h) = Some err" using ok' by (auto simp: handles_ok_def)
    with True have "sp_seen (spec_of p) ! h = Some (Inl err)" using h(1) by (simp add: spec_of_def wait_def is_set_def)
    from spec_step.discard [OF h(2) this] True rs op show ?thesis by (simp add: f spec_of_def release_def)
  next
    case False
    then have "sp_seen (spec_of p) ! h = None" using h(1) by (simp add: spec_of_def wait_simps)
    from spec_step.resolve [OF h(2) this, of r] False rs op wait_set [OF h(3) False, of r] show ?thesis
      by (simp add: f spec_of_def release_def map_update)
  qed
qed

lemma cancel_spec:
  assumes "pinv cfg t p" "h < length (results p)" "set_exception err (results p ! h) = Inr out"
  shows "spec_step (spec_of p) (spec_of (p\<lparr>results := (results p)[h := out]\<rparr>))"
proof -
  have w: "wait (results p ! h) = None" "wait out = Some (Inl err)" using wait_simps(2) [OF assms(3)] by auto
  have "h \<in> sp_open (spec_of p)"
    using assms by (auto simp: spec_of_def pinv_def handles_ok_def is_set_def set_exception_def split: if_splits)
  from spec_step.give_up [OF this, of err] w assms(2) show ?thesis by (simp add: spec_of_def map_update)
qed

lemma pstep_spec: "pstep readable_client ops cfg t p t' p' \<Longrightarrow> pinv cfg t p \<Longrightarrow> spec_step (spec_of p) (spec_of p')"
proof (induction rule: pstep.induct)
  case (enter ur stream p p' t)
  then have "0 < sp_free (spec_of p)" "spec_of p' =
      (spec_of p)\<lparr>sp_free := sp_free (spec_of p) - 1, sp_starting := sp_starting (spec_of p) + 1\<rparr>"
    by (auto simp: put_record_enter_def spec_of_def split: if_splits)
  then show ?case using spec_step.admit [of "spec_of p"] by simp
next
  case (register t t' p as stream ur bs oid res p')
  then show ?case using register_spec by blast
next
  case (callback t e p stream pl as w bs res)
  then show ?case using does_pending [OF callback.hyps(5)] by (simp add: advance_spec spec_step.internal)
next
  case (finish p stream pl as x r bs t)
  then show ?case using finish_spec by blast
next
  case (wake t e p stream pl res)
  then show ?case by (simp add: advance_spec wakes_pending spec_step.internal)
next
  case (cancel h p err out t)
  then show ?case using cancel_spec by blast
qed

end

text \<open>The producer as a transition system on times and states.\<close>

definition producer_step :: "(Pending, 'q) skl \<Rightarrow> Config \<Rightarrow> real \<times> 'q producer \<Rightarrow> real \<times> 'q producer \<Rightarrow> bool" where
  "producer_step ops cfg c c' = pstep readable_client ops cfg (fst c) (snd c) (fst c') (snd c')"

lemma psteps_rtrancl: "psteps readable_client ops cfg t p t' p' \<Longrightarrow> (producer_step ops cfg)\<^sup>*\<^sup>* (t, p) (t', p')"
  by (induction rule: psteps.induct) (auto simp: producer_step_def intro: rtranclp.rtrancl_into_rtrancl)

sublocale limiter_queue \<subseteq> producer_sim: forward_simulation "producer_step ops cfg" spec_step "\<lambda>c. spec_of (snd c)"
    "\<lambda>c. sane cfg \<and> pinv cfg (fst c) (snd c)" for cfg
  by unfold_locales (auto simp: producer_step_def intro: pstep_pinv pstep_spec)

context limiter_queue
begin

lemma psteps_after:
  assumes "psteps readable_client ops cfg t p t' p'" "sane cfg" "pinv cfg t p"
  shows "spec_after (spec_of p) (spec_of p')"
  using producer_sim.sim_relation [of spec_after, OF spec_after_refl spec_after_trans spec_step_after psteps_rtrancl [OF assms(1)]]
    assms(2,3) by simp

end

section \<open>Properties\<close>

lemma spec_of_init: "spec_of (snd (producer_aenter None None cfg (producer_init cfg))) = spec_init cfg"
  by (simp add: spec_of_def spec_init_def producer_aenter_def producer_init_def handles_of_def)

lemma prun_spec_inv:
  assumes "sorted_key_list ops pending_key" "sane cfg" "prun ops cfg t p"
  shows "spec_inv (cf_max_outstanding_records cfg) (spec_of p)"
  using assms(3)
proof (induction rule: prun.induct)
  case (step t p t' p')
  note lq = pinv_prun [OF assms(1,2) step.hyps(1)]
  show ?case by (rule spec_inv_step [OF limiter_queue.pstep_spec [OF lq(1) step.hyps(2) lq(2)] step.IH])
qed (simp add: spec_of_init spec_inv_init)

text \<open>C2.  The producer refines its specification: a fresh producer is a fresh specification, every step of a reachable
  producer (the start of a call, its registration, a callback, the end of a record, a timer, a flush, a cancelled outcome) is a step
  of the specification, or changes nothing a caller can see; and the slots and outcomes are consistent in every state.\<close>

theorem producer_refines:
  fixes p :: "'q producer"
  assumes "sorted_key_list ops pending_key" "sane cfg" "prun ops cfg t p" "pstep readable_client ops cfg t p t' p'"
  shows "spec_of (snd (producer_aenter None None cfg (producer_init cfg)) :: 'q producer) = spec_init cfg
    \<and> spec_step (spec_of p) (spec_of p') \<and> spec_inv (cf_max_outstanding_records cfg) (spec_of p')"
proof -
  note lq = pinv_prun [OF assms(1-3)]
  show ?thesis
    using limiter_queue.pstep_spec [OF lq(1) assms(4) lq(2)] prun_spec_inv [OF assms(1,2) prun.step [OF assms(3,4)]]
    by (simp add: spec_of_init)
qed

lemma demo_enter:
  "prun demo_ops demo_config 0 p \<Longrightarrow> outstanding_records p = 1 \<Longrightarrow>
   \<exists>p'. put_record_enter [115] demo_ur p = Some (Inr p') \<and> pstep readable_client demo_ops demo_config 0 p 0 p' \<and> results p' = results p"
proof -
  assume p: "prun demo_ops demo_config 0 p" "outstanding_records p = 1"
  note lq = pinv_prun [OF insort_list.sorted_key_list_axioms demo_sane p(1)]
  have "semaphore p \<noteq> 0"
    using lq(2) p(2) by (auto simp: limiter_queue.pinv_def [OF lq(1)] outstanding_records_def demo_config_def config_default_def)
  moreover have "\<not> p_closed p" using lq(2) by (simp add: limiter_queue.pinv_def [OF lq(1)])
  ultimately obtain p' where e: "put_record_enter [115] demo_ur p = Some (Inr p')" "results p' = results p"
    by (simp add: put_record_enter_def demo_ur_def)
  have "record_scalar demo_ur" by (simp add: record_scalar_def demo_ur_def scalar_def)
  from pstep.enter [OF this e(1)] e show ?thesis by blast
qed

theorem producer_refines_witness:
  "\<exists>p p'. pstep readable_client demo_ops demo_config 0 p 0 p' \<and> spec_step (spec_of p) (spec_of p') \<and> sp_free (spec_of p') = 99998"
proof -
  obtain p where p: "prun demo_ops demo_config 0 p" "outstanding_records p = 1" using demo_prun by blast
  obtain p' where p': "put_record_enter [115] demo_ur p = Some (Inr p')" "pstep readable_client demo_ops demo_config 0 p 0 p'"
    using demo_enter [OF p] by blast
  note lq = pinv_prun [OF insort_list.sorted_key_list_axioms demo_sane p(1)]
  have "semaphore p = 99999"
    using lq(2) p(2) by (auto simp: limiter_queue.pinv_def [OF lq(1)] outstanding_records_def demo_config_def config_default_def)
  with p'(1) have "sp_free (spec_of p') = 99998" by (auto simp: spec_of_def put_record_enter_def split: if_splits)
  with producer_refines [OF insort_list.sorted_key_list_axioms demo_sane p(1) p'(2)] p'(2) show ?thesis by blast
qed

text \<open>C15.  What a caller has been told is final.  Once waiting on an outcome gives a result or an exception, it gives the same after
  whatever else the producer does, a record finishing after its outcome was cancelled included; and a record that has left
  the pipelines, whose outcome then is resolved, never comes back.\<close>

theorem producer_results_final:
  assumes "sorted_key_list ops pending_key" "sane cfg" "prun ops cfg t p" "psteps readable_client ops cfg t p t' p'" "h < length (results p)"
  shows "h < length (results p') \<and> (wait (results p ! h) = None \<or> wait (results p' ! h) = wait (results p ! h))
    \<and> (h \<in> set (handles_of (pipelines p))
      \<or> h \<notin> set (handles_of (pipelines p')) \<and> wait (results p ! h) \<noteq> None)"
proof -
  note lq = pinv_prun [OF assms(1-3)]
  have "spec_after (spec_of p) (spec_of p')" by (rule limiter_queue.psteps_after [OF lq(1) assms(4,2) lq(2)])
  moreover have "spec_inv (cf_max_outstanding_records cfg) (spec_of p)" by (rule prun_spec_inv [OF assms(1-3)])
  ultimately show ?thesis using assms(5) unfolding spec_after_def spec_inv_def
    by (cases "wait (results p ! h)") (auto simp: spec_of_def)
qed

theorem producer_results_final_witness:
  "\<exists>p p'. psteps readable_client demo_ops demo_config 0 p 0 p' \<and> length (starting p') = length (starting p) + 1
     \<and> wait (results p' ! 0) = Some (Inl (SyncOutcomeCancelled ''SyncOutcome.cancel''))"
proof -
  let ?err = "SyncOutcomeCancelled ''SyncOutcome.cancel''"
  obtain p where p: "prun demo_ops demo_config 0 p" "outstanding_records p = 1" "results p = [outcome_init]" using demo_prun by blast
  define q where "q = p\<lparr>results := (results p)[0 := outcome_init\<lparr>exc := Some ?err, event := True\<rparr>]\<rparr>"
  have "pstep readable_client demo_ops demo_config 0 p 0 q"
    unfolding q_def by (rule pstep.cancel [where err = ?err]) (simp_all add: p(3) set_exception_def outcome_init_def)
  then have q: "prun demo_ops demo_config 0 q" "outstanding_records q = 1" "wait (results q ! 0) = Some (Inl ?err)" "0 < length (results q)"
    using prun.step [OF p(1)] p(2,3) by (simp_all add: q_def outstanding_records_def wait_def)
  obtain p' where p': "put_record_enter [115] demo_ur q = Some (Inr p')" "pstep readable_client demo_ops demo_config 0 q 0 p'"
    using demo_enter [OF q(1,2)] by blast
  have "length (starting p') = length (starting q) + 1" using p'(1) by (auto simp: put_record_enter_def split: if_splits)
  with producer_results_final [OF insort_list.sorted_key_list_axioms demo_sane q(1) pstep_psteps [OF p'(2)] q(4)] q(3)
    pstep_psteps [OF p'(2)] show ?thesis by (intro exI [of _ q] exI [of _ p']) simp
qed

end
