(* ===== verification/Producer_Drain.thy ===== *)
theory Producer_Drain
  imports Producer
begin

text \<open>
  A producer can always be drained.  A rank counts, for every record, the stages it still has to pass; a flush of a stage that
  holds records, and every callback once the records' time to live is over, lowers it.  From every reachable
  state, whatever the service answers, there is therefore a continuation that ends with every record finished, every outcome resolved and every
  slot free.
\<close>

section \<open>The rank\<close>

definition batch_count :: "AggregatedBatch list \<Rightarrow> nat" where
  "batch_count bs = (\<Sum>b\<leftarrow>bs. length (ab_items b))"

lemma batch_count_simps [simp]:
  "batch_count [] = 0" "batch_count (b # bs) = length (ab_items b) + batch_count bs"
  "batch_count (xs @ ys) = batch_count xs + batch_count ys"
  by (simp_all add: batch_count_def)

lemma length_items [simp]: "length (concat (map ab_items bs)) = batch_count bs" for bs :: "AggregatedBatch list"
  by (induction bs) simp_all

lemma batch_count_pos: "list_all bwf bs \<Longrightarrow> bs \<noteq> [] \<Longrightarrow> 0 < batch_count bs"
  by (cases bs) (auto simp: bwf_def filled_def)

fun work_rank :: "work \<Rightarrow> nat" where
  "work_rank (Route x) = 8"
| "work_rank (ToLimiter b) = 6 * length (ab_items b)"
| "work_rank (ToCollector b) = 4 * length (ab_items b)"
| "work_rank (ToExpired b reason) = 2 * length (ab_items b)"
| "work_rank (ToSend req) = 2 * batch_count (pr_items req)"
| "work_rank (Finish x r) = 1"

definition works_rank :: "work list \<Rightarrow> nat" where
  "works_rank ws = sum_list (map work_rank ws)"

definition stage_rank :: "(Pending, 'q) skl \<Rightarrow> 'q pipeline \<Rightarrow> nat" where
  "stage_rank ops pl = 7 * length (held (pl_agg pl)) + 5 * batch_count (lim_batches ops (pl_lim pl))
     + 3 * batch_count (col_batches (pl_col pl))"

definition pl_rank :: "(Pending, 'q) skl \<Rightarrow> 'q pipeline \<Rightarrow> nat" where
  "pl_rank ops pl = stage_rank ops pl + works_rank (pl_work pl)"

definition rank :: "(Pending, 'q) skl \<Rightarrow> 'q producer \<Rightarrow> nat" where
  "rank ops p = 9 * length (starting p) + (\<Sum>(s, pl)\<leftarrow>pipelines p. pl_rank ops pl)"

definition result_rank :: "(Pending, 'q) skl \<Rightarrow> 'q result \<Rightarrow> nat" where
  "result_rank ops res = stage_rank ops (snd res) + works_rank (snd (fst res))"

lemma works_rank_simps [simp]:
  "works_rank [] = 0" "works_rank (w # ws) = work_rank w + works_rank ws" "works_rank (xs @ ys) = works_rank xs + works_rank ys"
  by (simp_all add: works_rank_def)

lemma works_rank_map [simp]:
  "works_rank (map ToLimiter bs) = 6 * batch_count bs"
  "works_rank (map ToSend reqs) = 2 * batch_count (concat (map pr_items reqs))"
  by (induction bs, simp_all) (induction reqs, simp_all)

lemma limiter_work_rank:
  "works_rank (concat (map limiter_work es)) = 4 * batch_count (admitted_in es) + 2 * batch_count (expired_in es)"
proof (induction es)
  case (Cons e es)
  then show ?case by (cases e) simp_all
qed simp

lemma finishes_rank:
  "list_all finishes (verdicts es) \<Longrightarrow> works_rank (concat (map retrier_work es)) = length (verdicts es)"
proof (induction es)
  case (Cons e es)
  then show ?case by (cases e) (simp_all add: verdicts_def)
qed (simp add: verdicts_def)

lemma rank_set:
  "dict_get d s = Some pl \<Longrightarrow>
   (\<Sum>(s, pl)\<leftarrow>dict_set s pl' d. pl_rank ops pl) + pl_rank ops pl = (\<Sum>(s, pl)\<leftarrow>d. pl_rank ops pl) + pl_rank ops pl'"
  by (induction d) auto

lemma rank_set_less:
  assumes "dict_get (pipelines p) s = Some pl" "pl_rank ops pl' < pl_rank ops pl" "starting p' = starting p"
    "pipelines p' = dict_set s pl' (pipelines p)"
  shows "rank ops p' < rank ops p"
  using rank_set [OF assms(1), where pl' = pl' and ops = ops] assms(2-4) by (simp add: rank_def)

text \<open>The clock has passed the time to live of some records.\<close>

definition late :: "Config \<Rightarrow> env \<Rightarrow> BufferedRecord list \<Rightarrow> bool" where
  "late cfg e xs \<longleftrightarrow> (\<forall>i j. \<forall>x\<in>set xs. cf_record_ttl_ms cfg / 1000 < e_rclock e i j - arrival_time x)"

definition late_env :: "put_records_fn \<Rightarrow> real \<Rightarrow> env" where
  "late_env f t =
     \<lparr>e_now = t, e_ready = False, e_predict = (\<lambda>_. None), e_hashrange = (\<lambda>_ _. None),
      e_lclock = (\<lambda>_. \<lparr>at_new = t, at_expiry = t, at_drain = t, at_take = (\<lambda>_ _. t), at_emit = (\<lambda>_. t)\<rparr>),
      e_put_records = f, e_started_at = t, e_ended_at = t, e_rclock = (\<lambda>_ _. t), e_inv_at = (\<lambda>_. t)\<rparr>"

lemma late_mono: "late cfg (late_env f u) xs \<Longrightarrow> u \<le> v \<Longrightarrow> late cfg (late_env f v) xs"
  by (fastforce simp: late_def late_env_def)

lemma late_env_exists: "\<exists>t'\<ge>t. late cfg (late_env f t') xs"
proof (induction xs)
  case (Cons x xs)
  then obtain u where "u \<ge> t" "late cfg (late_env f u) xs" by blast
  moreover define v where "v = max u (arrival_time x + cf_record_ttl_ms cfg / 1000 + 1)"
  ultimately have "t \<le> v" "late cfg (late_env f v) xs" using late_mono [of cfg f u xs v] by simp_all
  moreover have "cf_record_ttl_ms cfg / 1000 < v - arrival_time x" unfolding v_def by linarith
  then have "late cfg (late_env f v) [x]" by (simp add: late_def late_env_def)
  ultimately show ?case by (intro exI [of _ v]) (simp add: late_def)
qed (auto simp: late_def)

text \<open>On its own the producer lets no call in and gives no outcome up.\<close>

definition on_its_own :: "'q producer \<Rightarrow> 'q producer \<Rightarrow> bool" where
  "on_its_own p p' \<longleftrightarrow> given_up p' = given_up p \<and> length (starting p') \<le> length (starting p)"

lemma on_its_own_trans: "on_its_own p p' \<Longrightarrow> on_its_own p' p'' \<Longrightarrow> on_its_own p p''"
  by (simp add: on_its_own_def)

lemma on_its_own_advance: "on_its_own p (advance s res p)"
  by (simp add: on_its_own_def given_up_def advance_def Let_def)

lemma on_its_own_finish: "on_its_own p (on_retrier_finish s x r pl p)"
  by (auto simp: on_its_own_def given_up_def on_retrier_finish_def release_def set_value_def nth_update Let_def
      split: option.splits sum.splits if_splits)

lemma on_its_own_register:
  "starting p = as @ w # bs \<Longrightarrow> put_record_register cfg t oid s ur (p\<lparr>starting := as @ bs\<rparr>) = (res, p') \<Longrightarrow> on_its_own p p'"
  by (auto simp: on_its_own_def given_up_def put_record_register_def get_or_create_pipeline_def release_def outcome_init_def nth_append
      less_Suc_eq Let_def split: prod.splits option.splits sum.splits if_splits)

section \<open>Every stage lowers the rank\<close>

context limiter_queue
begin

lemma passes_count:
  assumes "passes cfg t xs pl res"
  shows "length (buffered_records ops (snd res)) + length (concat (map work_records (snd (fst res))))
    = length (buffered_records ops pl) + length xs"
proof -
  have "mset (map obj (buffered_records ops (snd res) @ concat (map work_records (snd (fst res)))))
        = mset (map obj (buffered_records ops pl @ xs))"
    using assms by (simp add: passes_def)
  from mset_eq_length [OF this] show ?thesis by simp
qed

lemmas counts = passes_count [unfolded buffered_records_def length_append length_map length_items]

lemma batches_rank:
  assumes "passes cfg t xs pl (batches_out out pl)"
  shows "result_rank ops (batches_out out pl) + batch_count (emitted (fst out)) = stage_rank ops pl + 7 * length xs"
  using counts [OF assms] by (simp add: result_rank_def stage_rank_def batches_out_def)

lemma requests_rank:
  assumes "passes cfg t xs pl (requests_out out pl)"
  shows "result_rank ops (requests_out out pl) + batch_count (concat (map pr_items (emitted (fst out)))) = stage_rank ops pl + 3 * length xs"
  using counts [OF assms] by (simp add: result_rank_def stage_rank_def requests_out_def)

lemma limited_rank:
  assumes "passes cfg t xs pl (limited_out out pl)"
  shows "result_rank ops (limited_out out pl) + length (concat (map work_records (concat (map limiter_work (fst (fst out))))))
    \<le> stage_rank ops pl + 5 * length xs"
proof -
  have "length (concat (map work_records (concat (map limiter_work es))))
      = batch_count (admitted_in es) + batch_count (expired_in es)" for es
    using arg_cong [OF limiter_work_records [of es], of size] by simp
  with counts [OF assms] show ?thesis
    by (simp add: result_rank_def stage_rank_def limited_out_def limiter_work_rank)
qed

lemma handled_rank:
  assumes "list_all finishes (verdicts (fst out))" "list_all2 (follows rc) xs (verdicts (fst out))"
  shows "result_rank ops (handled out pl) = stage_rank ops pl + length xs"
  using finishes_rank [OF assms(1)] list_all2_lengthD [OF assms(2)] by (simp add: result_rank_def handled_def)

lemma expired_rank:
  assumes "late cfg e (ab_items b)"
  shows "result_rank ops (handle_expired cfg e b reason pl) = stage_rank ops pl + length (ab_items b)"
proof -
  let ?out = "expired_outcome (pl_stream pl) (e_now e) b reason" and ?rc = "build_retrier_cfg cfg (pl_stream pl)"
  have out: "list_all readable (per_record ?out)" "outcome_records ?out = ab_items b"
    by (simp_all add: expired_outcome_def outcome_records_def)
  have "list_all finishes (verdicts (fst (handle ?rc (e_hashrange e) (e_rclock e) (e_inv_at e) ?out)))"
    using assms out(2) by (intro handle_late [OF out(1)]) (simp add: late_def build_retrier_cfg_def retrier_cfg_of_def)
  moreover have "list_all2 (follows ?rc) (ab_items b) (verdicts (fst (handle ?rc (e_hashrange e) (e_rclock e) (e_inv_at e) ?out)))"
    using handle_follows [OF out(1), of ?rc "e_hashrange e" "e_rclock e" "e_inv_at e"] out(2) by simp
  ultimately show ?thesis unfolding handle_expired_def by (rule handled_rank)
qed

lemma send_rank:
  assumes "work_ok (ToSend req)" "readable_client (e_put_records e)" "late cfg e (work_records (ToSend req))"
  shows "result_rank ops (send_and_handle cfg e req pl) = stage_rank ops pl + batch_count (pr_items req)"
proof -
  let ?rc = "build_retrier_cfg cfg (pl_stream pl)"
  have "pr_items req \<noteq> []" "list_all sendable (pr_items req)" using assms(1) bwf_sendable by (auto simp: list_all_iff)
  from send_ok [OF this, of "build_sender_cfg (pl_stream pl)" "e_put_records e" "e_started_at e" "e_ended_at e"]
  obtain out ms where s: "send (build_sender_cfg (pl_stream pl)) (e_put_records e) (e_started_at e) (e_ended_at e) req = Inr (out, ms)"
      "well_formed_outcome req out" by blast
  note rd = send_readable [OF assms(2) s(1)] and rs = send_outcome_records [OF s(2)]
  have "list_all finishes (verdicts (fst (handle ?rc (e_hashrange e) (e_rclock e) (e_inv_at e) out)))"
    using assms(3) rs by (intro handle_late [OF rd]) (auto simp: late_def build_retrier_cfg_def retrier_cfg_of_def)
  moreover have "list_all2 (follows ?rc) (concat (map ab_items (pr_items req)))
      (verdicts (fst (handle ?rc (e_hashrange e) (e_rclock e) (e_inv_at e) out)))"
    using handle_follows [OF rd, of ?rc "e_hashrange e" "e_rclock e" "e_inv_at e"] rs by simp
  ultimately have "result_rank ops (handled (handle ?rc (e_hashrange e) (e_rclock e) (e_inv_at e) out) pl)
      = stage_rank ops pl + length (concat (map ab_items (pr_items req)))" by (rule handled_rank)
  then show ?thesis by (simp add: send_and_handle_def s(1))
qed

text \<open>Every callback on work lowers the rank, once its records are late.\<close>

lemma does_rank:
  assumes "does ops cfg e w pl res" "pl_ok cfg (e_now e) pl" "work_ok w" "readable_client (e_put_records e)" "sane cfg"
    "late cfg e (work_records w)"
  shows "result_rank ops res < stage_rank ops pl + work_rank w"
  using assms
proof cases
  case (do_route x)
  with assms have "passes cfg (e_now e) [x] pl (route cfg e x pl)" by (auto intro: route_passes)
  from batches_rank [OF this [unfolded route_def]] do_route show ?thesis by (simp add: route_def)
next
  case (do_batch b)
  with assms have p: "passes cfg (e_now e) (ab_items b) pl (on_aggregator_batch ops cfg e b pl)" "ab_items b \<noteq> []"
    by (auto intro: on_aggregator_batch_passes simp: bwf_def filled_def)
  from limited_rank [OF p(1) [unfolded on_aggregator_batch_def]] p(2) do_batch show ?thesis
    by (cases "ab_items b") (simp_all add: on_aggregator_batch_def)
next
  case (do_admit b)
  with assms have p: "passes cfg (e_now e) (ab_items b) pl (on_limiter_admit cfg e b pl)" "ab_items b \<noteq> []"
    by (auto intro: on_limiter_admit_passes simp: bwf_def filled_def)
  from requests_rank [OF p(1) [unfolded on_limiter_admit_def]] p(2) do_admit show ?thesis
    by (cases "ab_items b") (simp_all add: on_limiter_admit_def)
next
  case (do_expire b reason)
  with assms expired_rank [of cfg e b reason pl] show ?thesis by (cases "ab_items b") (auto simp: bwf_def filled_def)
next
  case (do_send req)
  with assms have "batch_count (pr_items req) > 0" by (auto intro: batch_count_pos)
  with send_rank [of req e cfg pl] assms do_send show ?thesis by simp
qed

text \<open>So does the flush of a stage that holds something.\<close>

lemma flush_aggregator_rank:
  assumes "pl_ok cfg (e_now e) pl" "held (pl_agg pl) \<noteq> []"
  shows "\<exists>k. result_rank ops (flush_aggregator cfg e k pl) < stage_rank ops pl"
proof -
  let ?ac = "build_aggregator_cfg cfg (pl_stream pl)"
  have inv: "ag_inv ?ac (e_now e) (pl_agg pl)" using assms(1) by (simp add: pl_ok_def)
  obtain k r where k: "(k, r) \<in> set (reducers (pl_agg pl))" "ab_items (active r) \<noteq> []"
    using assms(2) by (auto simp: held_def held_by_def)
  then have g: "dict_get (reducers (pl_agg pl)) k = Some r" using inv by (simp add: ag_inv_def)
  obtain out r' where f: "reducer_flush (agg_cfg k (max_count ?ac) (max_size ?ac)) (e_now e) r = (out, r')" by fastforce
  from agg.flush_step [OF ag_inv_get [OF inv g] f] k(2) obtain cl where
    cl: "out = Inr (Some cl)" "agg.split_of k (max_count ?ac) (max_size ?ac) (ab_items (active r)) = (ab_items cl, ab_items (active r'))"
    by auto
  have "ab_items cl \<noteq> []" by (rule agg.split_of_nonempty [OF cl(2) k(2)])
  moreover have "fst (agg_flush_one ?ac (e_now e) k (pl_agg pl)) = out" by (simp add: agg_flush_one_def g f)
  ultimately have "batch_count (emitted (fst (agg_flush_one ?ac (e_now e) k (pl_agg pl)))) > 0" using cl(1) by simp
  with batches_rank [OF flush_aggregator_passes [OF assms(1), of k, unfolded flush_aggregator_def]] show ?thesis
    by (intro exI [of _ k]) (simp add: flush_aggregator_def)
qed

lemma flush_limiter_rank:
  assumes "pl_ok cfg t pl" "lim_batches ops (pl_lim pl) \<noteq> []"
  shows "result_rank ops (flush_limiter ops cfg e pl) < stage_rank ops pl"
proof -
  note p = flush_limiter_passes [OF assms(1), of e]
  let ?lc = "build_limiter_cfg cfg (pl_stream pl)"
  have lm: "lm_ok (pl_lim pl)" "list_all bwf (lm_batches (pl_lim pl))" using assms(1) by (auto simp: pl_ok_def)
  have "lim_batches ops (snd (limiter_flush ops ?lc (e_lclock e) (pl_lim pl))) = []"
    using limiter_flush_flows [OF lm(1)] by (simp add: lim_batches_eq)
  with counts [OF p] have "length (concat (map work_records (snd (fst (flush_limiter ops cfg e pl)))))
      = batch_count (lim_batches ops (pl_lim pl))"
    by (simp add: flush_limiter_def limited_out_def)
  moreover have "batch_count (lim_batches ops (pl_lim pl)) > 0"
    using assms(2) lm(2) unfolding lim_batches_eq by (auto intro: batch_count_pos)
  ultimately show ?thesis
    using limited_rank [OF p [unfolded flush_limiter_def]] by (simp add: flush_limiter_def limited_out_def)
qed

lemma flush_collector_rank:
  assumes "pl_ok cfg (e_now e) pl" "col_batches (pl_col pl) \<noteq> []"
  shows "result_rank ops (flush_collector cfg e pl) < stage_rank ops pl"
proof -
  note p = flush_collector_passes [OF assms(1)]
  let ?cc = "build_collector_cfg cfg"
  have ok: "col_ok ?cc (e_now e) (pl_col pl)" "list_all bwf (col_batches (pl_col pl))" using assms(1) by (simp_all add: pl_ok_def)
  then obtain r where r: "c_reducer (pl_col pl) = Some r" "col_inv ?cc (e_now e) r" by (auto simp: col_ok_def)
  then have items: "pr_items (active r) = col_batches (pl_col pl)" by (simp add: col_batches_def)
  obtain out r' where f: "reducer_flush (cfg_of ?cc) (e_now e) r = (out, r')" by fastforce
  from put.flush_step [OF r(2) f] assms(2) items obtain cl where cl: "out = Inr (Some cl)"
    and sp: "put.split_of (collection_max_count ?cc) (collection_max_size ?cc) (threshold ?cc) (col_batches (pl_col pl))
      = (pr_items cl, pr_items (active r'))" by auto
  have "set (pr_items cl) \<subseteq> set (col_batches (pl_col pl))"
    using arg_cong [OF put.split_of_mset [OF sp], of set_mset] by simp
  then have "list_all bwf (pr_items cl)" using ok(2) by (auto simp: list_all_iff)
  then have "batch_count (pr_items cl) > 0" using put.split_of_nonempty [OF sp assms(2)] by (rule batch_count_pos)
  moreover have "fst (collector_flush ?cc (e_now e) (pl_col pl)) = out" by (simp add: collector_flush_def r(1) f)
  ultimately show ?thesis
    using requests_rank [OF p [unfolded flush_collector_def]] cl by (simp add: flush_collector_def)
qed

section \<open>Progress\<close>

lemma advance_rank:
  assumes "dict_get (pipelines p) s = Some pl" "pl_work pl = as @ ws @ bs" "passes cfg t xs (pl\<lparr>pl_work := as @ bs\<rparr>) res"
    "result_rank ops res < stage_rank ops pl + works_rank ws" "pinv cfg t' p"
  shows "rank ops (advance s res p) < rank ops p"
proof (rule rank_set_less [OF assms(1)])
  have "stage_rank ops (q\<lparr>pl_work := ys\<rparr>) = stage_rank ops q" for q :: "'q pipeline" and ys by (simp add: stage_rank_def)
  then show "pl_rank ops ((snd res)\<lparr>pl_work := pl_work (snd res) @ snd (fst res)\<rparr>) < pl_rank ops pl"
    using assms(2-4) by (simp add: pl_rank_def result_rank_def passes_def)
qed (use assms(5) in \<open>simp_all add: advance_running pinv_def\<close>)

lemma register_rank:
  assumes "pinv cfg t p" "starting p = as @ (s, ur) # bs"
    "put_record_register cfg t oid s ur (p\<lparr>starting := as @ bs\<rparr>) = (res, p')"
  shows "rank ops p' < rank ops p"
proof -
  obtain pl q where g: "get_or_create_pipeline cfg s p = (pl, q)" by fastforce
  note q = get_or_create_pipeline_ok [OF assms(1) g]
  have new: "pl_rank ops (build_pipeline cfg s) = 0"
    using pl_ok_build(2) [of cfg s]
    by (auto simp: pl_rank_def stage_rank_def buffered_records_def build_pipeline_def batch_count_def)
  have rq: "(\<Sum>(s, pl)\<leftarrow>pipelines q. pl_rank ops pl) = (\<Sum>(s, pl)\<leftarrow>pipelines p. pl_rank ops pl)"
    using g new by (auto simp: get_or_create_pipeline_def dict_set_fresh Let_def split: option.splits)
  have g': "get_or_create_pipeline cfg s (p\<lparr>starting := as @ bs\<rparr>) = (pl, q\<lparr>starting := as @ bs\<rparr>)"
    by (simp add: get_or_create_starting g)
  show ?thesis
  proof (cases "build_buffered (build_aggregator_cfg cfg s) t oid ur")
    case (Inl err)
    then show ?thesis using assms(2,3) rq by (auto simp: put_record_register_def g' rank_def release_def)
  next
    case (Inr xm)
    obtain x ms where xm: "xm = (x, ms)" by fastforce
    have "pl_rank ops (pl\<lparr>pl_pending := d, pl_work := pl_work pl @ [Route x]\<rparr>) = pl_rank ops pl + 8" for d
      by (simp add: pl_rank_def stage_rank_def)
    with rank_set [of "pipelines q" s pl ops "pl\<lparr>pl_pending := dict_set (obj x) (length (results q)) (pl_pending pl),
        pl_work := pl_work pl @ [Route x]\<rparr>"] q rq assms(2,3)
    show ?thesis by (auto simp: put_record_register_def g' Inr xm rank_def Let_def)
  qed
qed

lemma register_progress:
  assumes "pinv cfg t p" "starting p = (s, ur) # bs"
  shows "\<exists>p'. pstep service ops cfg t p t p' \<and> rank ops p' < rank ops p \<and> on_its_own p p'"
proof -
  define used where "used = (case dict_get (pipelines p) s of None \<Rightarrow> {} | Some pl \<Rightarrow> obj ` set (live ops pl))"
  have "finite used" by (simp add: used_def split: option.splits)
  then obtain oid where oid: "oid \<notin> used" using ex_new_if_finite infinite_UNIV_nat by blast
  obtain res p' where r: "put_record_register cfg t oid s ur (p\<lparr>starting := [] @ bs\<rparr>) = (res, p')" by fastforce
  have "pstep service ops cfg t p t p'"
    by (rule pstep.register [OF order_refl _ _ r]) (use assms(2) oid in \<open>auto simp: used_def\<close>)
  moreover have "rank ops p' < rank ops p" by (rule register_rank [OF assms(1) _ r]) (simp add: assms(2))
  moreover have "on_its_own p p'" by (rule on_its_own_register [OF _ r]) (simp add: assms(2))
  ultimately show ?thesis by blast
qed

lemma finish_rank:
  assumes "pinv cfg t p" "dict_get (pipelines p) s = Some pl" "pl_work pl = as @ Finish x r # bs"
  shows "rank ops (on_retrier_finish s x r (pl\<lparr>pl_work := as @ bs\<rparr>) p) < rank ops p"
proof (rule rank_set_less [OF assms(2)])
  show "pl_rank ops (pl\<lparr>pl_work := as @ bs, pl_pending := dict_del (obj x) (pl_pending pl)\<rparr>) < pl_rank ops pl"
    using assms(3) by (simp add: pl_rank_def stage_rank_def)
qed (simp_all add: on_retrier_finish_def release_def Let_def split: option.splits sum.splits)

lemma callback_rank:
  assumes "pinv cfg t p" "sane cfg" "t \<le> e_now e" "readable_client (e_put_records e)" "dict_get (pipelines p) s = Some pl"
    "pl_work pl = as @ w # bs" "does ops cfg e w (pl\<lparr>pl_work := as @ bs\<rparr>) res" "late cfg e (work_records w)"
  shows "rank ops (advance s res p) < rank ops p"
proof -
  let ?pl = "pl\<lparr>pl_work := as @ bs\<rparr>"
  have "pipe_ok cfg (e_now e) pl" using pinv_get [OF pinv_mono [OF assms(1,3)] assms(5)] by simp
  then have pl: "pl_ok cfg (e_now e) ?pl" "work_ok w" using assms(6) by (auto simp: pipe_ok_def pl_ok_def)
  have "stage_rank ops ?pl = stage_rank ops pl" by (simp add: stage_rank_def)
  with does_rank [OF assms(7) pl assms(4,2,8)] have "result_rank ops res < stage_rank ops pl + works_rank [w]" by simp
  with advance_rank [OF assms(5), of as "[w]" bs] assms(1,6) does_passes [OF assms(7) pl assms(4,2)] show ?thesis by simp
qed

lemma work_progress:
  assumes "pinv cfg t p" "sane cfg" "readable_client f" "dict_get (pipelines p) s = Some pl" "pl_work pl = w # bs"
  shows "\<exists>t' p'. pstep ((=) f) ops cfg t p t' p' \<and> rank ops p' < rank ops p \<and> on_its_own p p'"
proof (cases "\<exists>x r. w = Finish x r")
  case True
  then obtain x r where w: "pl_work pl = [] @ Finish x r # bs" using assms(5) by auto
  from pstep.finish [OF assms(4) w] finish_rank [OF assms(1,4) w] on_its_own_finish show ?thesis by blast
next
  case False
  obtain u where u: "t \<le> u" "late cfg (late_env f u) (work_records w)" using late_env_exists by blast
  let ?e = "late_env f u"
  have e: "t \<le> e_now ?e" "e_put_records ?e = f" using u(1) by (simp_all add: late_env_def)
  have "\<exists>res. does ops cfg ?e w (pl\<lparr>pl_work := [] @ bs\<rparr>) res" using False by (cases w) (blast intro: does.intros)+
  then obtain res where res: "does ops cfg ?e w (pl\<lparr>pl_work := [] @ bs\<rparr>) res" by blast
  have w: "pl_work pl = [] @ w # bs" using assms(5) by simp
  have "pstep ((=) f) ops cfg t p (e_now ?e) (advance s res p)" by (rule pstep.callback [OF e(1) _ assms(4) w res]) (simp add: e(2))
  moreover have "rank ops (advance s res p) < rank ops p"
    by (rule callback_rank [OF assms(1,2) e(1) _ assms(4) w res u(2)]) (simp add: e(2) assms(3))
  ultimately show ?thesis using on_its_own_advance by blast
qed

lemma stage_progress:
  assumes "pinv cfg t p" "dict_get (pipelines p) s = Some pl" "stage_rank ops pl \<noteq> 0"
  shows "\<exists>t' p'. pstep service ops cfg t p t' p' \<and> rank ops p' < rank ops p \<and> on_its_own p p'"
proof -
  let ?e = "late_env (\<lambda>_ _. Inr None) t"
  have e: "e_now ?e = t" by (simp add: late_env_def)
  have pl: "pl_ok cfg (e_now ?e) pl" using pinv_get [OF assms(1,2)] by (simp add: pipe_ok_def e)
  have go: "\<exists>t' p'. pstep service ops cfg t p t' p' \<and> rank ops p' < rank ops p \<and> on_its_own p p'"
    if "wakes ops cfg ?e pl res" "result_rank ops res < stage_rank ops pl" for res
  proof -
    have "pstep service ops cfg t p (e_now ?e) (advance s res p)" by (rule pstep.wake [OF _ assms(2) that(1)]) (simp add: e)
    moreover have "rank ops (advance s res p) < rank ops p"
      by (rule advance_rank [OF assms(2), of "pl_work pl" "[]" "[]"]) (use that assms(1) wakes_passes [OF that(1) pl] in auto)
    ultimately show ?thesis using on_its_own_advance by blast
  qed
  have "held (pl_agg pl) \<noteq> [] \<or> lim_batches ops (pl_lim pl) \<noteq> [] \<or> col_batches (pl_col pl) \<noteq> []"
    using assms(3) by (auto simp: stage_rank_def)
  then show ?thesis
    using flush_aggregator_rank [OF pl] flush_limiter_rank [OF pl] flush_collector_rank [OF pl]
      wakes.flush_agg wakes.flush_lim wakes.flush_col go by metis
qed

lemma progress:
  assumes "pinv cfg t p" "sane cfg" "readable_client f" "rank ops p \<noteq> 0"
  shows "\<exists>t' p'. pstep ((=) f) ops cfg t p t' p' \<and> rank ops p' < rank ops p \<and> on_its_own p p'"
proof (cases "starting p")
  case Nil
  with assms(4) obtain s pl where spl: "(s, pl) \<in> set (pipelines p)" "pl_rank ops pl \<noteq> 0" by (auto simp: rank_def)
  then have g: "dict_get (pipelines p) s = Some pl" using assms(1) by (simp add: pinv_def)
  show ?thesis
  proof (cases "pl_work pl")
    case Nil
    with spl(2) have "stage_rank ops pl \<noteq> 0" by (simp add: pl_rank_def)
    then show ?thesis by (rule stage_progress [OF assms(1) g])
  qed (use work_progress [OF assms(1-3) g] in blast)
qed (use register_progress [OF assms(1)] in \<open>metis surj_pair\<close>)

lemma drains:
  assumes "readable_client f" "sane cfg"
  shows "pinv cfg t p \<Longrightarrow> \<exists>t' p'. psteps ((=) f) ops cfg t p t' p' \<and> pinv cfg t' p' \<and> rank ops p' = 0 \<and> on_its_own p p'"
proof (induction "rank ops p" arbitrary: t p rule: less_induct)
  case less
  show ?case
  proof (cases "rank ops p = 0")
    case False
    from progress [OF less.prems assms(2,1) False] obtain t' p' where
      st: "pstep ((=) f) ops cfg t p t' p'" "rank ops p' < rank ops p" "on_its_own p p'" by blast
    have "pstep readable_client ops cfg t p t' p'" by (rule pstep_mono [OF st(1)]) (use assms(1) in blast)
    then have "pinv cfg t' p'" by (rule pstep_pinv [OF _ assms(2) less.prems])
    from less.hyps [OF st(2) this] psteps_trans [OF _ pstep_psteps [OF st(1)]] on_its_own_trans [OF st(3)] show ?thesis by blast
  qed (use less.prems psteps.none on_its_own_def in blast)
qed

lemma rank_0_live:
  assumes "pinv cfg t p" "rank ops p = 0" "(s, pl) \<in> set (pipelines p)"
  shows "live ops pl = []"
proof -
  have "pl_rank ops pl = 0" using assms(2,3) by (auto simp: rank_def)
  moreover have "0 < work_rank w" if "work_ok w" for w
    using that by (cases w) (auto simp: bwf_def filled_def dest: batch_count_pos)
  moreover have "list_all work_ok (pl_work pl)" "list_all bwf (lim_batches ops (pl_lim pl))" "list_all bwf (col_batches (pl_col pl))"
    using assms(1,3) by (auto simp: pinv_def pipe_ok_def pl_ok_def lim_batches_eq)
  moreover from calculation have "pl_work pl = []" by (cases "pl_work pl") (force simp: pl_rank_def)+
  ultimately have "held (pl_agg pl) = []" "lim_batches ops (pl_lim pl) = []" "col_batches (pl_col pl) = []" "pl_work pl = []"
    using batch_count_pos by (force simp: pl_rank_def stage_rank_def)+
  then show ?thesis by (simp add: live_def buffered_records_def)
qed

lemma wakes_rank:
  assumes "wakes ops cfg e pl res" "pl_ok cfg (e_now e) pl"
  shows "result_rank ops res \<le> stage_rank ops pl"
  using assms wakes_passes [OF assms]
  by cases (auto simp: aggregator_wakes_def collector_wakes_def limiter_turn_def flush_aggregator_def flush_limiter_def flush_collector_def
      dest!: batches_rank requests_rank limited_rank)

lemma wake_rank:
  assumes "pinv cfg t p" "t \<le> e_now e" "dict_get (pipelines p) s = Some pl" "wakes ops cfg e pl res"
  shows "rank ops (advance s res p) \<le> rank ops p"
proof -
  let ?pl = "(snd res)\<lparr>pl_work := pl_work (snd res) @ snd (fst res)\<rparr>"
  have pl: "pl_ok cfg (e_now e) pl" using pinv_get [OF pinv_mono [OF assms(1,2)] assms(3)] by (simp add: pipe_ok_def)
  have "stage_rank ops (q\<lparr>pl_work := ys\<rparr>) = stage_rank ops q" for q :: "'q pipeline" and ys by (simp add: stage_rank_def)
  then have "pl_rank ops ?pl \<le> pl_rank ops pl"
    using wakes_rank [OF assms(4) pl] wakes_passes [OF assms(4) pl] by (simp add: pl_rank_def result_rank_def passes_def)
  with rank_set [OF assms(3), of ops ?pl] assms(1) show ?thesis by (simp add: rank_def advance_running pinv_def)
qed

end

text \<open>Steps after the time to live: a callback finds the records of its work late; no new call of \<open>put_record\<close> is let in.  The number counts
  the steps other than timers, background turns, flushes and cancellations.\<close>

inductive late_steps :: "(Pending, 'q) skl \<Rightarrow> Config \<Rightarrow> nat \<Rightarrow> real \<Rightarrow> 'q producer \<Rightarrow> real \<Rightarrow> 'q producer \<Rightarrow> bool" for ops cfg where
  none: "late_steps ops cfg 0 t p t p"
| register: "late_steps ops cfg n t p t' p' \<Longrightarrow> t' \<le> t'' \<Longrightarrow> starting p' = as @ (stream, ur) # bs \<Longrightarrow>
     (\<And>pl. dict_get (pipelines p') stream = Some pl \<Longrightarrow> oid \<notin> obj ` set (live ops pl)) \<Longrightarrow>
     put_record_register cfg t'' oid stream ur (p'\<lparr>starting := as @ bs\<rparr>) = (res, p'') \<Longrightarrow> late_steps ops cfg (Suc n) t p t'' p''"
| callback: "late_steps ops cfg n t p t' p' \<Longrightarrow> t' \<le> e_now e \<Longrightarrow> readable_client (e_put_records e) \<Longrightarrow>
     dict_get (pipelines p') stream = Some pl \<Longrightarrow> pl_work pl = as @ w # bs \<Longrightarrow> late cfg e (work_records w) \<Longrightarrow>
     does ops cfg e w (pl\<lparr>pl_work := as @ bs\<rparr>) r \<Longrightarrow> late_steps ops cfg (Suc n) t p (e_now e) (advance stream r p')"
| finish: "late_steps ops cfg n t p t' p' \<Longrightarrow> dict_get (pipelines p') stream = Some pl \<Longrightarrow> pl_work pl = as @ Finish x y # bs \<Longrightarrow>
     late_steps ops cfg (Suc n) t p t' (on_retrier_finish stream x y (pl\<lparr>pl_work := as @ bs\<rparr>) p')"
| wake: "late_steps ops cfg n t p t' p' \<Longrightarrow> t' \<le> e_now e \<Longrightarrow> dict_get (pipelines p') stream = Some pl \<Longrightarrow> wakes ops cfg e pl r \<Longrightarrow>
     late_steps ops cfg n t p (e_now e) (advance stream r p')"
| cancel: "late_steps ops cfg n t p t' p' \<Longrightarrow> h < length (results p') \<Longrightarrow> set_exception err (results p' ! h) = Inr out \<Longrightarrow>
     late_steps ops cfg n t p t' (p'\<lparr>results := (results p')[h := out]\<rparr>)"

context limiter_queue
begin

lemma late_steps_rank:
  "late_steps ops cfg n t p t' p' \<Longrightarrow> sane cfg \<Longrightarrow> pinv cfg t p \<Longrightarrow> pinv cfg t' p' \<and> n + rank ops p' \<le> rank ops p"
proof (induction rule: late_steps.induct)
  case (register n t p t' p' t'' as stream ur bs oid res p'')
  then have "pinv cfg t'' p''" using register_pinv by blast
  moreover have "rank ops p'' < rank ops p'"
    using register register_rank [OF pinv_mono] by blast
  ultimately show ?case using register by auto
next
  case (callback n t p t' p' e stream pl as w bs r)
  then have "pinv cfg (e_now e) (advance stream r p')" using callback_pinv by blast
  moreover have "rank ops (advance stream r p') < rank ops p'" using callback callback_rank by blast
  ultimately show ?case using callback by auto
next
  case (finish n t p t' p' stream pl as x y bs)
  then have "pinv cfg t' (on_retrier_finish stream x y (pl\<lparr>pl_work := as @ bs\<rparr>) p')" using finish_pinv by blast
  moreover have "rank ops (on_retrier_finish stream x y (pl\<lparr>pl_work := as @ bs\<rparr>) p') < rank ops p'" using finish finish_rank by blast
  ultimately show ?case using finish by auto
next
  case (wake n t p t' p' e stream pl r)
  then have "pinv cfg (e_now e) (advance stream r p')" using wake_pinv by blast
  moreover have "rank ops (advance stream r p') \<le> rank ops p'" using wake wake_rank by blast
  ultimately show ?case using wake by auto
next
  case (cancel n t p t' p' h err out)
  then show ?case using cancel_pinv [of cfg t' p' h err out] by (auto simp: rank_def)
qed simp

end

section \<open>Properties\<close>

text \<open>C3.  The producer can always be drained, whatever the service answers.  From every reachable state, with a service
  that answers each request as it likes (errors, throttling, other shards, missing answers), there is a continuation after which
  no call is under way, no record is left in any pipeline, every outcome ever handed out is resolved, none of them given up on the way, and all slots are free: no record is ever
  stuck, and none is retried for ever, because its time to live ends the retries.\<close>

theorem producer_drains:
  assumes "sorted_key_list ops pending_key" "sane cfg" "prun ops cfg t p" "readable_client f"
  shows "\<exists>t' p'. psteps ((=) f) ops cfg t p t' p' \<and> starting p' = [] \<and> unresolved p' = {}
    \<and> (\<forall>s pl. dict_get (pipelines p') s = Some pl \<longrightarrow> live ops pl = [])
    \<and> outstanding_records p' = 0 \<and> semaphore p' = cf_max_outstanding_records cfg \<and> given_up p' = given_up p"
proof -
  note lq = pinv_prun [OF assms(1-3)]
  from limiter_queue.drains [OF lq(1) assms(4,2) lq(2)] obtain t' p' where
    d: "psteps ((=) f) ops cfg t p t' p'" "limiter_queue.pinv ops cfg t' p'" "rank ops p' = 0" "on_its_own p p'" by blast
  note live = limiter_queue.rank_0_live [OF lq(1) d(2,3)]
  have "starting p' = []" using d(3) by (simp add: rank_def)
  moreover have "length (handles_of (pipelines p')) = 0" using live_total [OF lq(1) d(2)] live by auto
  moreover have "unresolved p' = {}" using unresolved_live [OF lq(1) d(2)] live by (force dest!: map_of_SomeD)
  moreover have "live ops pl = []" if "dict_get (pipelines p') s = Some pl" for s pl using live map_of_SomeD [OF that] by blast
  moreover from calculation d(2) have "outstanding_records p' = 0" "semaphore p' = cf_max_outstanding_records cfg"
    by (auto simp: limiter_queue.pinv_def [OF lq(1)] outstanding_records_def)
  ultimately show ?thesis using d(1,4) unfolding on_its_own_def by blast
qed

theorem producer_drains_witness:
  "\<exists>p t' p'. outstanding_records p = 1 \<and> psteps ((=) (\<lambda>_ _. Inr None)) demo_ops demo_config 0 p t' p' \<and> outstanding_records p' = 0"
proof -
  obtain p where p: "prun demo_ops demo_config 0 p" "outstanding_records p = 1" using demo_prun by blast
  have "readable_client (\<lambda>_ _. Inr None)" by (simp add: readable_client_def)
  from producer_drains [OF insort_list.sorted_key_list_axioms demo_sane p(1) this] p(2) show ?thesis by blast
qed

text \<open>C4.  There is no livelock.  Once no new calls are let in and the callbacks find their records past the time to live, only boundedly many callbacks,
  registrations and finishes can happen, in whatever order and however the timers, flushes and answers fall: at most \<open>rank\<close>, that is nine for a call being
  started and at most eight for a record inside.  In particular every chain of retries ends.\<close>

theorem producer_no_livelock:
  assumes "sorted_key_list ops pending_key" "sane cfg" "prun ops cfg t p" "late_steps ops cfg n t p t' p'"
  shows "n \<le> rank ops p \<and> n + rank ops p' \<le> rank ops p
    \<and> rank ops p \<le> 9 * length (starting p) + 8 * (\<Sum>(s, pl)\<leftarrow>pipelines p. length (live ops pl))"
proof -
  note lq = pinv_prun [OF assms(1-3)]
  from limiter_queue.late_steps_rank [OF lq(1) assms(4,2) lq(2)] have "n + rank ops p' \<le> rank ops p" by simp
  moreover have "pl_rank ops pl \<le> 8 * length (live ops pl)" for pl
  proof -
    have "works_rank ws \<le> 8 * length (concat (map work_records ws))" for ws
    proof (induction ws)
      case (Cons w ws)
      then show ?case by (cases w) simp_all
    qed simp
    from this [of "pl_work pl"] show ?thesis by (simp add: pl_rank_def stage_rank_def live_def buffered_records_def)
  qed
  then have "(\<Sum>(s, pl)\<leftarrow>pls. pl_rank ops pl) \<le> 8 * (\<Sum>(s, pl)\<leftarrow>pls. length (live ops pl))" for pls :: "(pystr \<times> _ pipeline) list"
    by (induction pls) (auto simp: add_mono)
  ultimately show ?thesis by (simp add: rank_def)
qed

theorem producer_no_livelock_witness:
  "\<exists>p n p'. late_steps demo_ops demo_config n 0 p 0 p' \<and> n = 1 \<and> n \<le> rank demo_ops p"
proof -
  let ?p = "snd (producer_aenter None None demo_config (producer_init demo_config)) :: Pending list producer"
  obtain p1 where e: "put_record_enter [115] demo_ur ?p = Some (Inr p1)" "starting p1 = [([115], demo_ur)]" "pipelines p1 = []"
    by (simp add: put_record_enter_def producer_init_def producer_aenter_def demo_config_def config_default_def demo_ur_def)
  have "record_scalar demo_ur" by (simp add: record_scalar_def demo_ur_def scalar_def)
  from prun.step [OF prun.init pstep.enter [OF this e(1)]] have r1: "prun demo_ops demo_config 0 p1" .
  obtain p2 res where s: "put_record_register demo_config 0 7 [115] demo_ur (p1\<lparr>starting := [] @ []\<rparr>) = (res, p2)" by fastforce
  have "late_steps demo_ops demo_config (Suc 0) 0 p1 0 p2"
    by (rule late_steps.register [OF late_steps.none order_refl _ _ s]) (use e in simp_all)
  with producer_no_livelock [OF insort_list.sorted_key_list_axioms demo_sane r1 this] show ?thesis by auto
qed

text \<open>An outcome that was not given up holds a terminal result once it is resolved.\<close>

lemma resolved_result:
  assumes "limiter_queue ops" "limiter_queue.pinv ops cfg t p" "h < length (results p)" "wait (results p ! h) = Some (Inr v)"
  shows "\<exists>r. v = Some r \<and> result_ok r"
proof -
  have "handles_ok (handles_of (pipelines p)) (results p)" "results_ok (results p)"
    using assms(2) by (simp_all add: limiter_queue.pinv_def [OF assms(1)])
  then have o: "outcome_reach outcome_init (results p ! h)" "pred_option result_ok (ovalue (results p ! h))"
    using assms(3) by (simp_all add: handles_ok_def results_ok_def list_all_length)
  from outcome_reach_wait [OF o(1) refl] assms(4) obtain r where "v = Some r" "ovalue (results p ! h) = Some r"
    by (auto simp: wait_def outcome_init_def)
  with o(2) show ?thesis by simp
qed

text \<open>C5.  What a caller is told is a terminal result with its whole history.  In every reachable state, an outcome that has been resolved by the
  pipeline holds a result with at least one attempt; every attempt but the last failed, with a code and a message; the result is a success
  exactly when the last attempt is one, and only then does it name a shard and a sequence number, those the service gave for that attempt.\<close>

theorem producer_results_history:
  assumes "sorted_key_list ops pending_key" "sane cfg" "prun ops cfg t p" "h < length (results p)" "wait (results p ! h) = Some (Inr v)"
  shows "\<exists>r. v = Some r \<and> rr_attempts r \<noteq> [] \<and> list_all failed_try (butlast (rr_attempts r))
    \<and> rr_success r = success (last (rr_attempts r)) \<and> (\<not> rr_success r \<longrightarrow> failed_try (last (rr_attempts r)))
    \<and> rr_shard_id r = a_shard_id (last (rr_attempts r)) \<and> rr_sequence_number r = a_sequence_number (last (rr_attempts r))"
proof -
  note lq = pinv_prun [OF assms(1-3)]
  from resolved_result [OF lq assms(4,5)] obtain r where "v = Some r" "result_ok r" by blast
  then show ?thesis by (auto simp: result_ok_def failed_try_def split: if_splits)
qed

lemma results_grow: "psteps service ops cfg t p t' p' \<Longrightarrow> length (results p) \<le> length (results p')"
proof (induction rule: psteps.induct)
  case (more t' p' t'' p'')
  have "pstep service ops cfg t p t' p' \<Longrightarrow> length (results p) \<le> length (results p')" for t p t' p'
    by (erule pstep.cases) (auto simp: put_record_enter_def put_record_register_def get_or_create_pipeline_def release_def advance_def
        on_retrier_finish_def Let_def split: prod.splits option.splits sum.splits if_splits)
  with more show ?case by (meson order_trans)
qed simp

theorem producer_results_history_witness:
  "\<exists>t p r. prun demo_ops demo_config t p \<and> wait (results p ! 0) = Some (Inr (Some r)) \<and> rr_attempts r \<noteq> []"
proof -
  obtain p where p: "prun demo_ops demo_config 0 p" "results p = [outcome_init]" using demo_prun by blast
  note lq = pinv_prun [OF insort_list.sorted_key_list_axioms demo_sane p(1)]
  have f: "readable_client (\<lambda>_ _. Inr None)" by (simp add: readable_client_def)
  from limiter_queue.drains [OF lq(1) f demo_sane lq(2)] obtain t q where
    d: "psteps ((=) (\<lambda>_ _. Inr None)) demo_ops demo_config 0 p t q" "limiter_queue.pinv demo_ops demo_config t q" "rank demo_ops q = 0"
      "on_its_own p q" by blast
  have q: "prun demo_ops demo_config t q" by (rule prun_psteps [OF psteps_mono [OF d(1)] p(1)]) (use f in blast)
  have len: "0 < length (results q)" using results_grow [OF d(1)] p(2) by (cases "results q") auto
  have live: "live demo_ops pl = []" if "dict_get (pipelines q) s = Some pl" for s pl
    by (rule limiter_queue.rank_0_live [OF lq(1) d(2,3) map_of_SomeD [OF that]])
  have "0 \<notin> unresolved q" using unresolved_live [OF lq(1) d(2), of 0] live by fastforce
  then have e: "event (results q ! 0)" using len by (simp add: unresolved_def is_set_def)
  have "0 \<notin> given_up q" using d(4) p(2) by (simp add: on_its_own_def given_up_def outcome_init_def)
  then have "exc (results q ! 0) = None" using len by (simp add: given_up_def)
  with e obtain v where "wait (results q ! 0) = Some (Inr v)" by (simp add: wait_def)
  with producer_results_history [OF insort_list.sorted_key_list_axioms demo_sane q len this] q show ?thesis by blast
qed

end
