(* ===== verification/Delivery.thy ===== *)
theory Delivery
  imports Pipeline
begin

text \<open>
  The way of a record through aggregator, sender and retrier when nothing goes wrong.  The service is expected to do what
  its documentation says: it stores every entry in the shard of the entry's hash key, which is the explicit hash key if there is one and the
  MD5 hash of the partition key otherwise, and answers with that shard's id and a sequence number.  If the shard map that made the predictions agrees with
  the service, every record of a request is delivered in its first attempt, to the shard of its own key.
\<close>

section \<open>The service\<close>

definition entry_hash :: "PutRecordsEntry \<Rightarrow> pyerr + int" where
  "entry_hash en = (case ExplicitHashKey en of Some k \<Rightarrow> parse_explicit_hash_key k | None \<Rightarrow> md5_hash_key (PartitionKey en))"

definition stored :: "(int \<Rightarrow> int) \<Rightarrow> PutRecordsEntry \<Rightarrow> ResponseSlot \<Rightarrow> bool" where
  "stored shard_of en slot \<longleftrightarrow> (\<exists>c cs. SequenceNumber slot = Some (c # cs))
     \<and> (\<forall>h. entry_hash en = Inr h \<longrightarrow> parse_actual_shard_id (slot_ShardId slot) = Inr (Some (shard_of h)))"

definition stores :: "(int \<Rightarrow> int) \<Rightarrow> put_records_fn \<Rightarrow> bool" where
  "stores shard_of f \<longleftrightarrow> (\<forall>stream entries. \<exists>slots. f stream entries = Inr (Some slots) \<and> list_all2 (stored shard_of) entries slots)"

section \<open>From the record to the entry\<close>

text \<open>A record carries the hash key that the service will compute.\<close>

definition hashed :: "BufferedRecord \<Rightarrow> bool" where
  "hashed x \<longleftrightarrow> (case explicit_hash_key (user_record x) of
       Some k \<Rightarrow> parse_explicit_hash_key k = Inr (hash_key x)
     | None \<Rightarrow> md5_hash_key (partition_key (user_record x)) = Inr (hash_key x))"

lemma build_buffered_hashed: "build_buffered cfg now oid ur = Inr (x, ms) \<Longrightarrow> hashed x"
  by (auto simp: build_buffered_def hashed_def err_simps split: option.splits)

lemma hashed_range: "hashed x \<Longrightarrow> 0 \<le> hash_key x \<and> hash_key x \<le> UINT128_MAX"
  using parse_explicit_hash_key_range md5_hash_key_range by (auto simp: hashed_def split: option.splits)

text \<open>The entry of a batch is stored where its first record belongs.\<close>

lemma entry_hash_first:
  assumes "build_entry b = Inr en" "ab_items b = x # xs" "hashed x"
  shows "entry_hash en = Inr (hash_key x)"
  using assms parse_str_of_int [of "hash_key x"] hashed_range [OF assms(3)]
  by (cases xs) (auto simp: build_entry_def err_simps routing_partition_key_def routing_explicit_hash_key_def entry_hash_def hashed_def
      split: option.splits)

section \<open>From the answer to the callback\<close>

lemma retrier_work_verdicts: "concat (map retrier_work es) = concat (map retrier_work (verdicts es))"
proof (induction es)
  case (Cons e es)
  then show ?case by (cases e) (simp_all add: verdicts_def)
qed (simp add: verdicts_def)

fun delivered :: "(int \<Rightarrow> int) \<Rightarrow> work \<Rightarrow> bool" where
  "delivered shard_of (Finish x r) \<longleftrightarrow> rr_success r \<and> rr_sequence_number r \<noteq> None
     \<and> parse_actual_shard_id (rr_shard_id r) = Inr (Some (shard_of (hash_key x)))"
| "delivered shard_of _ \<longleftrightarrow> False"

text \<open>A batch all of whose records belong to the predicted shard.\<close>

definition well_predicted :: "(int \<Rightarrow> int) \<Rightarrow> AggregatedBatch \<Rightarrow> bool" where
  "well_predicted shard_of b \<longleftrightarrow> ab_items b \<noteq> [] \<and> (\<forall>x\<in>set (ab_items b). hashed x \<and> predicted_shard b = Some (shard_of (hash_key x)))"

lemma stored_accepted:
  assumes "build_entry b = Inr en" "stored shard_of en slot" "well_predicted shard_of b" "x \<in> set (ab_items b)"
  shows "list_all (delivered shard_of) (retrier_work (executed rc now out x
      (classify rc hr (build_per_record b slot) (actual_shard (build_per_record b slot)) x)))"
proof -
  let ?po = "build_per_record b slot"
  obtain y ys where it: "ab_items b = y # ys" using assms(3) by (cases "ab_items b") (auto simp: well_predicted_def)
  have y: "hashed y" "predicted_shard b = Some (shard_of (hash_key y))" "predicted_shard b = Some (shard_of (hash_key x))"
    using assms(3,4) it by (auto simp: well_predicted_def)
  obtain c cs where po: "?po = \<lparr>po_batch = b, po_success = True, po_shard_id = slot_ShardId slot, po_sequence_number = Some (c # cs),
      po_error_code = None, po_error_message = None\<rparr>"
    using assms(2) by (auto simp: stored_def build_per_record_def)
  have act: "parse_actual_shard_id (slot_ShardId slot) = Inr (Some (shard_of (hash_key y)))"
    using assms(2) entry_hash_first [OF assms(1) it y(1)] by (simp add: stored_def)
  then have "classify rc hr ?po (actual_shard ?po) x = Accept ?po"
    using y by (simp add: classify_def actual_shard_def po)
  with act y show ?thesis by (simp add: executed_def po)
qed

lemma stored_readable:
  assumes "build_entry b = Inr en" "stored shard_of en slot" "well_predicted shard_of b"
  shows "readable (build_per_record b slot)"
proof -
  obtain y ys where it: "ab_items b = y # ys" using assms(3) by (cases "ab_items b") (auto simp: well_predicted_def)
  have "hashed y" using assms(3) it by (simp add: well_predicted_def)
  from entry_hash_first [OF assms(1) it this] assms(2) show ?thesis
    by (auto simp: stored_def readable_def build_per_record_def)
qed

lemma send_stores:
  assumes "stores shard_of f" "pr_items req \<noteq> []" "emap build_entry (pr_items req) = Inr entries"
  shows "\<exists>out ms slots. send cfg f t0 t1 req = Inr (out, ms) \<and> request_error out = None
    \<and> list_all2 (stored shard_of) entries slots \<and> per_record out = map2 build_per_record (pr_items req) slots"
proof -
  obtain slots where s: "f (sd_stream cfg) entries = Inr (Some slots)" "list_all2 (stored shard_of) entries slots"
    using assms(1) unfolding stores_def by blast
  have "length slots = length (pr_items req)" using list_all2_lengthD [OF s(2)] emap_length [OF assms(3)] by simp
  with s assms(2,3) show ?thesis by (auto simp: send_def Let_def)
qed

text \<open>An entry of the answer belongs to a batch of the request.\<close>

lemma map2_entries:
  assumes "emap build_entry bs = Inr entries" "list_all2 (stored shard_of) entries slots" "po \<in> set (map2 build_per_record bs slots)"
  shows "\<exists>b en slot. b \<in> set bs \<and> build_entry b = Inr en \<and> stored shard_of en slot \<and> po = build_per_record b slot"
proof -
  have len: "length entries = length bs" "length slots = length bs"
    using emap_length [OF assms(1)] list_all2_lengthD [OF assms(2)] by simp_all
  from assms(3) obtain i where i: "i < length bs" "po = build_per_record (bs ! i) (slots ! i)"
    by (auto simp: in_set_zip len)
  with emap_nth [OF assms(1) i(1)] list_all2_nthD [OF assms(2), of i] len show ?thesis by (metis nth_mem)
qed

section \<open>Property\<close>

text \<open>C13.  Records are delivered at once, and to their own shard, when predictions are right.  Take any run of the aggregator in which every record was put
  with the prediction that the service would make for its hash key, and any request made of batches that were handed on.  If the
  service stores the entries, the sender and the retrier finish every record of the request with success, a sequence number and the id of the shard
  that the record's own key belongs to, whatever other records it was aggregated with; nothing is retried and nothing raises.\<close>

theorem right_predictions_deliver:
  assumes "arun acfg t h outs ag" "\<forall>(p, x)\<in>set h. hashed x \<and> record_scalar (user_record x) \<and> p = Some (shard_of (hash_key x))"
    "pr_items req \<noteq> []" "set (pr_items req) \<subseteq> set outs" "stores shard_of (e_put_records e)"
  shows "fst (fst (send_and_handle cfg e req pl)) = None
    \<and> list_all (delivered shard_of) (snd (fst (send_and_handle cfg e req pl)))
    \<and> map obj (concat (map work_records (snd (fst (send_and_handle cfg e req pl))))) = map obj (concat (map ab_items (pr_items req)))"
proof -
  let ?rc = "build_retrier_cfg cfg (pl_stream pl)"
  have pred: "well_predicted shard_of b" "sendable b" if "b \<in> set (pr_items req)" for b
  proof -
    have b: "b \<in> set outs" "good_batch acfg b" using that assms(4) arun_accounts [OF assms(1)] by auto
    have "hashed x \<and> record_scalar (user_record x) \<and> predicted_shard b = Some (shard_of (hash_key x))" if "x \<in> set (ab_items b)" for x
      using arun_sent [OF assms(1) b(1) that] assms(2) by blast
    with b(2) show "well_predicted shard_of b" "sendable b"
      by (auto simp: well_predicted_def good_batch_def filled_def list_all_iff intro!: filled_sendable)
  qed
  obtain entries where en: "emap build_entry (pr_items req) = Inr entries"
    using pred(2) emap_build_entry [of "pr_items req"] by (auto simp: list_all_iff)
  from send_stores [OF assms(5,3) en, of "build_sender_cfg (pl_stream pl)" "e_started_at e" "e_ended_at e"] obtain out ms slots where
    s: "send (build_sender_cfg (pl_stream pl)) (e_put_records e) (e_started_at e) (e_ended_at e) req = Inr (out, ms)"
      "request_error out = None" "list_all2 (stored shard_of) entries slots" "per_record out = map2 build_per_record (pr_items req) slots"
    by blast
  note po = map2_entries [OF en s(3), folded s(4)]
  have rd: "list_all readable (per_record out)" using po stored_readable pred(1) by (fastforce simp: list_all_iff)
  let ?res = "handle ?rc (e_hashrange e) (e_rclock e) (e_inv_at e) out"
  have res: "send_and_handle cfg e req pl = handled ?res pl" by (simp add: send_and_handle_def s(1))
  have v: "verdicts (fst ?res) = table_verdicts ?rc (e_hashrange e) (e_rclock e) out 0 (per_record out)" "snd ?res = None"
    using handle_loop_table [OF rd, of ?rc "e_hashrange e" "e_rclock e" "e_inv_at e" out 0] s(2) by (simp_all add: handle_def)
  have "list_all (delivered shard_of) (retrier_work (executed ?rc now out x (classify ?rc hr p (actual_shard p) x)))"
    if "p \<in> set (per_record out)" "x \<in> set (ab_items (po_batch p))" for p x now hr
  proof -
    from po [OF that(1)] obtain b en slot where b: "b \<in> set (pr_items req)" "build_entry b = Inr en" "stored shard_of en slot"
        "p = build_per_record b slot" by blast
    with stored_accepted [OF b(2,3) pred(1) [OF b(1)]] that(2) show ?thesis by simp
  qed
  then have "list_all (\<lambda>eff. list_all (delivered shard_of) (retrier_work eff)) (verdicts (fst ?res))"
    unfolding v table_verdicts_def by (intro list_all_concat_enumerate list_all_enumerate_map) blast
  then have "list_all (delivered shard_of) (concat (map retrier_work (verdicts (fst ?res))))" by (auto simp: list_all_iff)
  moreover have "well_formed_outcome req out"
    using send_ok [OF assms(3), of "build_sender_cfg (pl_stream pl)" "e_put_records e" "e_started_at e" "e_ended_at e"] pred(2) s(1)
    by (auto simp: list_all_iff)
  then have "outcome_records out = concat (map ab_items (pr_items req))" by (rule send_outcome_records)
  with handle_follows [OF rd, of ?rc "e_hashrange e" "e_rclock e" "e_inv_at e"]
  have "map obj (concat (map work_records (concat (map retrier_work (fst ?res))))) = map obj (concat (map ab_items (pr_items req)))"
    using retrier_work_records [of ?rc "concat (map ab_items (pr_items req))" "fst ?res"] by simp
  ultimately show ?thesis unfolding res using v(2) by (simp add: handled_def flip: retrier_work_verdicts)
qed

definition demo_hashed :: BufferedRecord where
  "demo_hashed = \<lparr>obj = 1, user_record = \<lparr>partition_key = [97], data = [1], explicit_hash_key = Some [0x35], tags = []\<rparr>,
     deadline = Fin 1, hash_key = 5, arrival_time = 0, attempts = []\<rparr>"

definition demo_single :: aggregator_cfg where
  "demo_single = aggregator_cfg_of True 100 1 1000 False None"

text \<open>A stream with the one shard 7.\<close>

definition demo_service :: put_records_fn where
  "demo_service stream entries = Inr (Some (map (\<lambda>_. \<lparr>SequenceNumber = Some [0x31], slot_ShardId = Some (SHARD_ID_PREFIX @ [0x37]),
     ErrorCode = None, ErrorMessage = None\<rparr>) entries))"

lemma demo_service_stores: "stores (\<lambda>_. 7) demo_service"
proof -
  have p: "parse_actual_shard_id (Some (SHARD_ID_PREFIX @ [0x37])) = Inr (Some 7)"
    by (simp add: parse_actual_shard_id_digits ascii_digit_def int_max_str_digits_def)
  have "list_all2 (stored (\<lambda>_. 7)) entries (map (\<lambda>_. \<lparr>SequenceNumber = Some [0x31], slot_ShardId = Some (SHARD_ID_PREFIX @ [0x37]),
     ErrorCode = None, ErrorMessage = None\<rparr>) entries)" for entries
    by (induction entries) (simp_all add: stored_def p)
  then show ?thesis by (simp add: stores_def demo_service_def)
qed

lemma demo_single_run:
  "\<exists>b ag. arun demo_single 0 [(Some 7, demo_hashed)] [b] ag"
proof -
  have e: "encodable demo_hashed" by (simp add: encodable_def demo_hashed_def pk_of_def ehks_of_def scalar_def)
  have u: "utf8_encode [0x35] = Inr [0x35]" by (simp add: utf8_encode_def utf8_char_def byte_of_def)
  obtain out ag where p: "put_buffered demo_single 0 True (\<lambda>_. Some 7) demo_hashed (agg_aenter aggregator_init) = (out, ag)" by fastforce
  moreover have "\<exists>b. emitted (fst (put_buffered demo_single 0 True (\<lambda>_. Some 7) demo_hashed (agg_aenter aggregator_init))) = [b]"
    by (simp add: demo_simps demo_single_def demo_hashed_def u)
  ultimately obtain b where "emitted out = [b]" by auto
  with arun.put [OF arun.enter order_refl e p] show ?thesis by (auto simp: predicted_of_def)
qed

theorem right_predictions_deliver_witness:
  "\<exists>b. list_all (delivered (\<lambda>_. 7)) (snd (fst (send_and_handle (config_default [])
     \<lparr>e_now = 0, e_ready = True, e_predict = (\<lambda>_. Some 7), e_hashrange = (\<lambda>_ _. None),
      e_lclock = (\<lambda>_. \<lparr>at_new = 0, at_expiry = 0, at_drain = 0, at_take = (\<lambda>_ _. 0), at_emit = (\<lambda>_. 0)\<rparr>),
      e_put_records = demo_service, e_started_at = 0, e_ended_at = 0, e_rclock = (\<lambda>_ _. 0), e_inv_at = (\<lambda>_. 0)\<rparr>
     (put_batch_init\<lparr>pr_items := [b]\<rparr>) (build_pipeline (config_default []) [115] :: Pending list pipeline))))"
proof -
  obtain b ag where r: "arun demo_single 0 [(Some 7, demo_hashed)] [b] ag" using demo_single_run by blast
  have "parse_explicit_hash_key [0x35] = Inr 5"
    using parse_str_of_int [of 5] by (simp add: str_of_int_def str_of_nat.simps UINT128_MAX_def)
  then have "hashed demo_hashed" "record_scalar (user_record demo_hashed)"
    by (simp_all add: hashed_def demo_hashed_def record_scalar_def scalar_def)
  then show ?thesis
    by (intro exI [of _ b] conjunct1 [OF conjunct2 [OF right_predictions_deliver [OF r]]]) (simp_all add: demo_service_stores)
qed

end
