(* ===== verification/Service.thy ===== *)
theory Service
  imports Producer_Drain
begin

text \<open>
  Model of \<^verbatim>\<open>src/examples/fastapi_producer.py\<close>, a web service in front of one producer: the configuration from the environment, the
  serialisation of a payload, the two endpoints that publish an event (one answers when the outcome is known, the other at once), the
  background task that logs failures, and the health endpoint.  The web framework is a parameter: which requests arrive and when their
  handlers run is a run of \<open>app_step\<close>; what it checks of a request before a handler sees it is \<open>valid_event\<close>, from the
  declared fields of \<^verbatim>\<open>EventIn\<close>.  An exception that a handler lets through is a reply with status 500.
\<close>

section \<open>JSON\<close>

text \<open>A value as the framework hands it over, and \<^verbatim>\<open>json.dumps\<close> with the separators of the source: everything outside printable ASCII
  is escaped, above the basic plane as two surrogates.  The representation of a float is a parameter; an integer that the
  framework has parsed is short enough to be printed again.\<close>

datatype json = JNull | JBool bool | JInt int | JFloat real | JStr pystr | JArr "json list" | JObj "(pystr \<times> json) list"

definition hex_digit :: "nat \<Rightarrow> nat" where
  "hex_digit n = (if n < 10 then 0x30 + n else 0x57 + n)"

definition u_escape :: "nat \<Rightarrow> pystr" where
  "u_escape n = [0x5C, 0x75, hex_digit (n div 0x1000 mod 0x10), hex_digit (n div 0x100 mod 0x10), hex_digit (n div 0x10 mod 0x10),
     hex_digit (n mod 0x10)]"

definition json_char :: "nat \<Rightarrow> pystr" where
  "json_char c =
     (if c = 0x22 then [0x5C, 0x22] else if c = 0x5C then [0x5C, 0x5C]
      else if c = 0x0A then [0x5C, 0x6E] else if c = 0x0D then [0x5C, 0x72] else if c = 0x09 then [0x5C, 0x74]
      else if c = 0x0C then [0x5C, 0x66] else if c = 0x08 then [0x5C, 0x62]
      else if 0x20 \<le> c \<and> c \<le> 0x7E then [c]
      else if c < 0x10000 then u_escape c
      else u_escape (0xD800 + (c - 0x10000) div 0x400 mod 0x400) @ u_escape (0xDC00 + (c - 0x10000) mod 0x400))"

definition json_str :: "pystr \<Rightarrow> pystr" where
  "json_str s = 0x22 # concat (map json_char s) @ [0x22]"

fun commas :: "pystr list \<Rightarrow> pystr" where
  "commas [] = []"
| "commas [x] = x"
| "commas (x # y # xs) = x @ 0x2C # commas (y # xs)"

fun json_dumps :: "(real \<Rightarrow> pystr) \<Rightarrow> json \<Rightarrow> pystr" where
  "json_dumps float_repr JNull = lit ''null''"
| "json_dumps float_repr (JBool b) = (if b then lit ''true'' else lit ''false'')"
| "json_dumps float_repr (JInt i) = str_of_int i"
| "json_dumps float_repr (JFloat x) = float_repr x"
| "json_dumps float_repr (JStr s) = json_str s"
| "json_dumps float_repr (JArr xs) = 0x5B # commas (map (\<lambda>x. json_dumps float_repr x) xs) @ [0x5D]"
| "json_dumps float_repr (JObj kvs) = 0x7B # commas (map (\<lambda>(k, v). json_str k @ 0x3A # json_dumps float_repr v) kvs) @ [0x7D]"

definition serialize :: "(real \<Rightarrow> pystr) \<Rightarrow> json \<Rightarrow> pyerr + byte list" where
  "serialize float_repr payload = utf8_encode (json_dumps float_repr payload)"

abbreviation ascii :: "pystr \<Rightarrow> bool" where
  "ascii s \<equiv> list_all (\<lambda>c. c < 0x80) s"

lemma ascii_json_str: "ascii (json_str s)"
proof -
  have h: "hex_digit (n mod 16) < 0x80" for n unfolding hex_digit_def by (simp add: not_less) presburger
  then have "ascii (u_escape n)" for n by (simp add: u_escape_def)
  then have "ascii (json_char c)" for c by (simp add: json_char_def)
  then have "ascii (concat (map json_char s))" by (induction s) simp_all
  then show ?thesis by (simp add: json_str_def)
qed

lemma ascii_str_of_int: "ascii (str_of_int i)"
proof -
  have "ascii (str_of_nat n)" for n using str_of_nat_digits [of n] by (auto simp: list_all_iff ascii_digit_def)
  then show ?thesis by (simp add: str_of_int_def)
qed

lemma ascii_commas: "list_all ascii xs \<Longrightarrow> ascii (commas xs)"
  by (induction xs rule: commas.induct) simp_all

lemma ascii_json_dumps: "(\<And>x. ascii (float_repr x)) \<Longrightarrow> ascii (json_dumps float_repr j)"
proof (induction float_repr j rule: json_dumps.induct)
  case (6 float_repr xs)
  then have "list_all ascii (map (\<lambda>x. json_dumps float_repr x) xs)" by (auto simp: list_all_iff)
  from ascii_commas [OF this] show ?case by simp
next
  case (7 float_repr kvs)
  have "ascii (json_str k @ 0x3A # json_dumps float_repr v)" if "(k, v) \<in> set kvs" for k v
    using 7 that ascii_json_str [of k] by fastforce
  then have "list_all ascii (map (\<lambda>(k, v). json_str k @ 0x3A # json_dumps float_repr v) kvs)" by (auto simp: list_all_iff)
  from ascii_commas [OF this] show ?case by simp
qed (simp_all add: lit_def ascii_json_str ascii_str_of_int)

text \<open>Serialising never raises, whatever strings the payload holds: what is encoded is ASCII.\<close>

lemma serialize_total:
  assumes "\<And>x. ascii (float_repr x)"
  shows "\<exists>bs. serialize float_repr payload = Inr bs"
proof -
  have "\<forall>c\<in>set (json_dumps float_repr payload). scalar c"
    using ascii_json_dumps [of float_repr payload] assms by (auto simp: list_all_iff scalar_def)
  then show ?thesis using utf8_encode_Inr_iff by (simp add: serialize_def)
qed

section \<open>Requests and replies\<close>

record EventIn =
  ev_partition_key :: pystr
  ev_payload :: json

text \<open>What the framework checks before a handler runs: the length of the key, that it is a string of Unicode scalar values, and that
  the payload is an object.  Otherwise it answers 422.\<close>

definition valid_event :: "EventIn \<Rightarrow> bool" where
  "valid_event evt \<longleftrightarrow> 1 \<le> length (ev_partition_key evt) \<and> length (ev_partition_key evt) \<le> 256
     \<and> (\<forall>c\<in>set (ev_partition_key evt). scalar c) \<and> (\<exists>kvs. ev_payload evt = JObj kvs)"

datatype reply =
    Unprocessable
  | EventConfirmed pystr pystr nat
  | EventAccepted
  | BadGateway "pystr option" "pystr option" nat
  | ServerError pyerr

definition last_attempt :: "RecordResult \<Rightarrow> Attempt option" where
  "last_attempt result = (if rr_attempts result \<noteq> [] then Some (last (rr_attempts result)) else None)"

definition fault_code :: "RecordResult \<Rightarrow> pystr option" where
  "fault_code result = (case last_attempt result of Some a \<Rightarrow> error_code a | None \<Rightarrow> Some (lit ''Unknown''))"

definition fault_message :: "RecordResult \<Rightarrow> pystr option" where
  "fault_message result = (case last_attempt result of Some a \<Rightarrow> error_message a | None \<Rightarrow> Some [])"

text \<open>The end of \<open>post_event_confirmed\<close>, once the outcome is known; an exception of the outcome goes through.\<close>

definition confirmed_reply :: "RecordResult \<Rightarrow> reply" where
  "confirmed_reply result =
     (if \<not> rr_success result then BadGateway (fault_code result) (fault_message result) (length (rr_attempts result))
      else EventConfirmed (str_or (rr_shard_id result) []) (str_or (rr_sequence_number result) []) (length (rr_attempts result)))"

definition after_wait :: "pyerr + RecordResult option \<Rightarrow> reply" where
  "after_wait w = (case w of Inr (Some result) \<Rightarrow> confirmed_reply result | Inr None \<Rightarrow> ServerError AssertionError | Inl e \<Rightarrow> ServerError e)"

text \<open>The background task: what it logs, if anything, and the exception that escapes from it.\<close>

record log_line =
  lg_partition_key :: pystr
  lg_code :: "pystr option"
  lg_message :: "pystr option"
  lg_attempts :: nat

definition log_failure_if_any :: "pyerr + RecordResult option \<Rightarrow> pystr \<Rightarrow> log_line list" where
  "log_failure_if_any w pk =
     (case w of
        Inr (Some result) \<Rightarrow>
          if rr_success result then []
          else [\<lparr>lg_partition_key = pk, lg_code = fault_code result, lg_message = fault_message result,
                 lg_attempts = length (rr_attempts result)\<rparr>]
      | _ \<Rightarrow> [])"

section \<open>The configuration\<close>

text \<open>\<^verbatim>\<open>str.lower\<close> as far as the comparison with \<^verbatim>\<open>"false"\<close> goes: no character outside ASCII has one of its letters as lower case.\<close>

definition lower_ascii :: "pystr \<Rightarrow> pystr" where
  "lower_ascii s = map (\<lambda>c. if 0x41 \<le> c \<and> c \<le> 0x5A then c + 0x20 else c) s"

definition lifespan_config :: "(pystr \<Rightarrow> pystr option) \<Rightarrow> Config" where
  "lifespan_config environ =
     (config_default (case environ (lit ''AIOKPL_REGION'') of Some r \<Rightarrow> r | None \<Rightarrow> lit ''us-east-1''))
       \<lparr>cf_endpoint_url := (case environ (lit ''AIOKPL_ENDPOINT_URL'') of Some u \<Rightarrow> if u = [] then None else Some u | None \<Rightarrow> None),
        cf_verify_ssl := (lower_ascii (case environ (lit ''AIOKPL_VERIFY_SSL'') of Some v \<Rightarrow> v | None \<Rightarrow> lit ''true'') \<noteq> lit ''false''),
        cf_record_max_buffered_time_ms := 100, cf_record_ttl_ms := 30000, cf_max_outstanding_records := 10000\<rparr>"

text \<open>A request by the stage its handler is at, and the application.\<close>

datatype phase = Received | Putting | Waiting nat | Done reply

record request =
  rq_event :: EventIn
  rq_confirmed :: bool
  rq_phase :: phase

record 'q app =
  ap_producer :: "'q producer"
  ap_stream :: pystr
  ap_requests :: "request list"
  ap_background :: "(nat \<times> pystr) list"
  ap_log :: "log_line list"

text \<open>Startup: the producer is entered, then the name of the stream is looked up, and a missing one ends the startup.\<close>

definition lifespan_start :: "pyerr option \<Rightarrow> pyerr option \<Rightarrow> (pystr \<Rightarrow> pystr option) \<Rightarrow> pyerr + 'q app" where
  "lifespan_start client_enters metrics_enters environ =
     (let cfg = lifespan_config environ in
      case producer_aenter client_enters metrics_enters cfg (producer_init cfg) of
        (Some e, p) \<Rightarrow> Inl e
      | (None, p) \<Rightarrow>
          (case environ (lit ''AIOKPL_STREAM'') of
             None \<Rightarrow> Inl (KeyError ''AIOKPL_STREAM'')
           | Some stream \<Rightarrow> Inr \<lparr>ap_producer = p, ap_stream = stream, ap_requests = [], ap_background = [], ap_log = []\<rparr>))"

definition health :: "'q app \<Rightarrow> bool \<times> int" where
  "health a = (True, outstanding_records (ap_producer a))"

section \<open>The handlers\<close>

text \<open>The record of an event.\<close>

definition event_record :: "(real \<Rightarrow> pystr) \<Rightarrow> EventIn \<Rightarrow> pyerr + UserRecord" where
  "event_record float_repr evt =
     ebind (serialize float_repr (ev_payload evt))
       (\<lambda>bs. Inr \<lparr>partition_key = ev_partition_key evt, data = bs, explicit_hash_key = None, tags = []\<rparr>)"

definition arrive :: "EventIn \<Rightarrow> bool \<Rightarrow> 'q app \<Rightarrow> 'q app" where
  "arrive evt confirmed a =
     a\<lparr>ap_requests := ap_requests a @ [\<lparr>rq_event = evt, rq_confirmed = confirmed,
         rq_phase = (if valid_event evt then Received else Done Unprocessable)\<rparr>]\<rparr>"

definition set_phase :: "nat \<Rightarrow> phase \<Rightarrow> 'q app \<Rightarrow> 'q app" where
  "set_phase i ph a = a\<lparr>ap_requests := (ap_requests a)[i := (ap_requests a ! i)\<lparr>rq_phase := ph\<rparr>]\<rparr>"

text \<open>The handler of request \<open>i\<close> up to the semaphore; \<open>None\<close> while it waits for it.\<close>

definition begin_put :: "(real \<Rightarrow> pystr) \<Rightarrow> nat \<Rightarrow> 'q app \<Rightarrow> 'q app option" where
  "begin_put float_repr i a =
     (case event_record float_repr (rq_event (ap_requests a ! i)) of
        Inl e \<Rightarrow> Some (set_phase i (Done (ServerError e)) a)
      | Inr ur \<Rightarrow>
          (case put_record_enter (ap_stream a) ur (ap_producer a) of
             None \<Rightarrow> None
           | Some (Inl e) \<Rightarrow> Some (set_phase i (Done (ServerError e)) a)
           | Some (Inr p) \<Rightarrow> Some (set_phase i Putting (a\<lparr>ap_producer := p\<rparr>))))"

text \<open>What follows \<open>put_record\<close> in the two handlers: waiting for the outcome, or a background task and the answer.\<close>

definition end_put :: "pyerr + nat \<Rightarrow> nat \<Rightarrow> 'q app \<Rightarrow> 'q app" where
  "end_put res i a =
     (case res of
        Inl e \<Rightarrow> set_phase i (Done (ServerError e)) a
      | Inr h \<Rightarrow>
          if rq_confirmed (ap_requests a ! i) then set_phase i (Waiting h) a
          else set_phase i (Done EventAccepted)
                 (a\<lparr>ap_background := ap_background a @ [(h, ev_partition_key (rq_event (ap_requests a ! i)))]\<rparr>))"

text \<open>One step of the application between time \<open>t\<close> and \<open>t'\<close>: a request arrives, its handler goes on, a background task ends, or the producer does something
  on its own.\<close>

inductive app_step :: "(real \<Rightarrow> pystr) \<Rightarrow> (Pending, 'q) skl \<Rightarrow> Config \<Rightarrow> real \<Rightarrow> 'q app \<Rightarrow> real \<Rightarrow> 'q app \<Rightarrow> bool" for float_repr ops cfg where
  arrives: "app_step float_repr ops cfg t a t (arrive evt confirmed a)"
| begins: "i < length (ap_requests a) \<Longrightarrow> rq_phase (ap_requests a ! i) = Received \<Longrightarrow> begin_put float_repr i a = Some a' \<Longrightarrow>
     app_step float_repr ops cfg t a t a'"
| ends: "t \<le> t' \<Longrightarrow> i < length (ap_requests a) \<Longrightarrow> rq_phase (ap_requests a ! i) = Putting \<Longrightarrow>
     event_record float_repr (rq_event (ap_requests a ! i)) = Inr ur \<Longrightarrow>
     starting (ap_producer a) = as @ (ap_stream a, ur) # bs \<Longrightarrow>
     (\<And>pl. dict_get (pipelines (ap_producer a)) (ap_stream a) = Some pl \<Longrightarrow> oid \<notin> obj ` set (live ops pl)) \<Longrightarrow>
     put_record_register cfg t' oid (ap_stream a) ur ((ap_producer a)\<lparr>starting := as @ bs\<rparr>) = (res, p') \<Longrightarrow>
     app_step float_repr ops cfg t a t' (end_put res i (a\<lparr>ap_producer := p'\<rparr>))"
| replies: "i < length (ap_requests a) \<Longrightarrow> rq_phase (ap_requests a ! i) = Waiting h \<Longrightarrow> wait (results (ap_producer a) ! h) = Some w \<Longrightarrow>
     app_step float_repr ops cfg t a t (set_phase i (Done (after_wait w)) a)"
| logs: "ap_background a = as @ (h, pk) # bs \<Longrightarrow> wait (results (ap_producer a) ! h) = Some w \<Longrightarrow>
     app_step float_repr ops cfg t a t (a\<lparr>ap_background := as @ bs, ap_log := ap_log a @ log_failure_if_any w pk\<rparr>)"
| works: "pstep readable_client ops cfg t (ap_producer a) t' p' \<Longrightarrow> starting p' = starting (ap_producer a) \<Longrightarrow>
     given_up p' = given_up (ap_producer a) \<Longrightarrow> app_step float_repr ops cfg t a t' (a\<lparr>ap_producer := p'\<rparr>)"

inductive app_steps :: "(real \<Rightarrow> pystr) \<Rightarrow> (Pending, 'q) skl \<Rightarrow> Config \<Rightarrow> real \<Rightarrow> 'q app \<Rightarrow> real \<Rightarrow> 'q app \<Rightarrow> bool"
  for float_repr ops cfg t a where
  none: "app_steps float_repr ops cfg t a t a"
| more: "app_steps float_repr ops cfg t a t' a' \<Longrightarrow> app_step float_repr ops cfg t' a' t'' a'' \<Longrightarrow> app_steps float_repr ops cfg t a t'' a''"

inductive app_run :: "(real \<Rightarrow> pystr) \<Rightarrow> (Pending, 'q) skl \<Rightarrow> (pystr \<Rightarrow> pystr option) \<Rightarrow> real \<Rightarrow> 'q app \<Rightarrow> bool" for float_repr ops environ where
  started: "lifespan_start None None environ = Inr a \<Longrightarrow> app_run float_repr ops environ t a"
| goes_on: "app_run float_repr ops environ t a \<Longrightarrow> app_step float_repr ops (lifespan_config environ) t a t' a' \<Longrightarrow>
     app_run float_repr ops environ t' a'"

section \<open>The invariant of the application\<close>

lemma mset_concat_update:
  "i < length xs \<Longrightarrow> mset (concat (map f (xs[i := y]))) + mset (f (xs ! i)) = mset (concat (map f xs)) + mset (f y)"
proof (induction xs arbitrary: i)
  case (Cons x xs)
  then show ?case by (cases i) (auto simp: add_ac)
qed simp

text \<open>The calls of \<open>put_record\<close> that the handlers have under way, and the outcomes that somebody waits for.\<close>

definition call_of :: "(real \<Rightarrow> pystr) \<Rightarrow> pystr \<Rightarrow> request \<Rightarrow> (pystr \<times> UserRecord) list" where
  "call_of float_repr stream r =
     (if rq_phase r = Putting then (case event_record float_repr (rq_event r) of Inl e \<Rightarrow> [] | Inr ur \<Rightarrow> [(stream, ur)]) else [])"

definition waits_for :: "request \<Rightarrow> nat list" where
  "waits_for r = (case rq_phase r of Waiting h \<Rightarrow> [h] | _ \<Rightarrow> [])"

definition awaited :: "'q app \<Rightarrow> nat list" where
  "awaited a = concat (map waits_for (ap_requests a)) @ map fst (ap_background a)"

definition done_ok :: "bool \<Rightarrow> reply \<Rightarrow> bool" where
  "done_ok confirmed r \<longleftrightarrow> r = Unprocessable \<or> \<not> confirmed \<and> r = EventAccepted
     \<or> confirmed \<and> (\<exists>result. result_ok result \<and> r = confirmed_reply result)"

definition request_ok :: "request \<Rightarrow> bool" where
  "request_ok r \<longleftrightarrow> (rq_phase r = Done Unprocessable \<longleftrightarrow> \<not> valid_event (rq_event r))
     \<and> (\<forall>h. rq_phase r = Waiting h \<longrightarrow> rq_confirmed r) \<and> (\<forall>rep. rq_phase r = Done rep \<longrightarrow> done_ok (rq_confirmed r) rep)"

definition app_ok :: "(real \<Rightarrow> pystr) \<Rightarrow> 'q app \<Rightarrow> bool" where
  "app_ok float_repr a \<longleftrightarrow> given_up (ap_producer a) = {}
     \<and> mset (starting (ap_producer a)) = mset (concat (map (call_of float_repr (ap_stream a)) (ap_requests a)))
     \<and> distinct (awaited a) \<and> unresolved (ap_producer a) \<subseteq> set (awaited a) \<and> set (awaited a) \<subseteq> {..<length (results (ap_producer a))}
     \<and> list_all request_ok (ap_requests a)"

lemma set_phase_simps [simp]:
  "ap_producer (set_phase i ph a) = ap_producer a" "ap_stream (set_phase i ph a) = ap_stream a"
  "ap_background (set_phase i ph a) = ap_background a" "length (ap_requests (set_phase i ph a)) = length (ap_requests a)"
  by (simp_all add: set_phase_def)

text \<open>What moving a request to another stage does to the two lists.\<close>

lemma set_phase_calls:
  assumes "i < length (ap_requests a)"
  shows "mset (concat (map (call_of fr s) (ap_requests (set_phase i ph a)))) + mset (call_of fr s (ap_requests a ! i))
    = mset (concat (map (call_of fr s) (ap_requests a))) + mset (call_of fr s ((ap_requests a ! i)\<lparr>rq_phase := ph\<rparr>))"
  using mset_concat_update [OF assms] by (simp add: set_phase_def)

lemma set_phase_awaited:
  assumes "i < length (ap_requests a)"
  shows "mset (awaited (set_phase i ph a)) + mset (waits_for (ap_requests a ! i))
    = mset (awaited a) + mset (waits_for ((ap_requests a ! i)\<lparr>rq_phase := ph\<rparr>))"
  using mset_concat_update [OF assms, of waits_for "(ap_requests a ! i)\<lparr>rq_phase := ph\<rparr>"]
  by (simp add: set_phase_def awaited_def add_ac)

lemma set_phase_requests:
  assumes "list_all request_ok (ap_requests a)" "i < length (ap_requests a)" "request_ok ((ap_requests a ! i)\<lparr>rq_phase := ph\<rparr>)"
  shows "list_all request_ok (ap_requests (set_phase i ph a))"
  using assms by (simp add: set_phase_def list_all_length nth_list_update)

lemma event_record_total:
  assumes "\<And>x. ascii (float_repr x)"
  shows "\<exists>bs. event_record float_repr evt = Inr \<lparr>partition_key = ev_partition_key evt, data = bs, explicit_hash_key = None, tags = []\<rparr>"
  using serialize_total [of float_repr "ev_payload evt"] assms by (auto simp: event_record_def)

lemma valid_record:
  assumes "valid_event evt" "event_record float_repr evt = Inr ur"
  shows "record_scalar ur" "partition_key ur \<noteq> []" "explicit_hash_key ur = None" "\<forall>c\<in>set (partition_key ur). scalar c"
  using assms by (auto simp: valid_event_def event_record_def record_scalar_def err_simps elim!: ebind.elims)

text \<open>Registering the record of a valid event never fails.\<close>

lemma register_accepts:
  assumes "explicit_hash_key ur = None" "\<forall>c\<in>set (partition_key ur). scalar c"
    "put_record_register cfg t oid s ur p = (res, p')"
  shows "res = Inr (length (results p)) \<and> results p' = results p @ [outcome_init] \<and> starting p' = starting p"
proof -
  obtain bs where "utf8_encode (partition_key ur) = Inr bs" using assms(2) utf8_encode_Inr_iff by blast
  with assms(1,3) show ?thesis
    by (auto simp: put_record_register_def get_or_create_pipeline_def build_buffered_def md5_hash_key_def Let_def
        split: prod.splits option.splits)
qed

text \<open>On its own the producer resolves outcomes and takes none back.\<close>

lemma works_unresolved:
  assumes "pstep service ops cfg t p t' p'" "starting p' = starting p"
  shows "unresolved p' \<subseteq> unresolved p \<and> length (results p') = length (results p)"
  using assms
proof cases
  case (enter ur stream)
  with assms(2) show ?thesis by (auto simp: put_record_enter_def split: if_splits)
next
  case (register as stream ur bs oid res)
  then have "starting p' = as @ bs"
    by (auto simp: put_record_register_def get_or_create_pipeline_def release_def Let_def split: prod.splits option.splits sum.splits)
  with register assms(2) show ?thesis by simp
next
  case (finish stream pl as x r bs)
  then show ?thesis
    by (auto simp: on_retrier_finish_def release_def unresolved_def set_value_def is_set_def nth_update Let_def
        split: option.splits sum.splits if_splits)
qed (auto simp: advance_def unresolved_def set_exception_def is_set_def nth_update Let_def split: if_splits)

lemma awaited_resolved:
  assumes "app_ok fr a" "wait (results (ap_producer a) ! h) = Some w" "h \<in> set (awaited a)"
    "limiter_queue ops" "limiter_queue.pinv ops cfg t (ap_producer a)"
  shows "h \<notin> unresolved (ap_producer a)" "\<exists>r. w = Inr (Some r) \<and> result_ok r"
proof -
  have h: "h < length (results (ap_producer a))" using assms(1,3) by (auto simp: app_ok_def)
  show "h \<notin> unresolved (ap_producer a)" using assms(2) by (auto simp: unresolved_def wait_def is_set_def split: if_splits)
  have "h \<notin> given_up (ap_producer a)" using assms(1) by (simp add: app_ok_def)
  then have "\<exists>v. w = Inr v" using assms(2) h by (auto simp: given_up_def wait_def split: if_splits)
  then show "\<exists>r. w = Inr (Some r) \<and> result_ok r" using resolved_result [OF assms(4,5) h] assms(2) by blast
qed

text \<open>An outcome that is known leaves the list of those waited for.\<close>

lemma unresolved_removed:
  assumes "unresolved p \<subseteq> set hs" "h \<notin> unresolved p" "mset hs' + {#h#} = mset hs" "distinct hs" "set hs \<subseteq> N"
  shows "unresolved p \<subseteq> set hs' \<and> distinct hs' \<and> set hs' \<subseteq> N"
proof -
  have m: "mset (h # hs') = mset hs" using assms(3) by simp
  from mset_eq_setD [OF m] mset_eq_imp_distinct_iff [OF m] assms(1,2,4,5) show ?thesis by auto
qed

lemma begins_ok:
  assumes "app_ok fr a" "i < length (ap_requests a)" "rq_phase (ap_requests a ! i) = Received" "begin_put fr i a = Some a'"
    "prun ops cfg t (ap_producer a)" "\<not> p_closed (ap_producer a)" "\<And>x. ascii (fr x)"
  shows "prun ops cfg t (ap_producer a') \<and> app_ok fr a'"
proof -
  let ?r = "ap_requests a ! i"
  have ok: "request_ok ?r" "list_all request_ok (ap_requests a)" using assms(1,2) by (auto simp: app_ok_def list_all_length)
  then have v: "valid_event (rq_event ?r)" using assms(3) by (simp add: request_ok_def)
  obtain bs where "event_record fr (rq_event ?r) = Inr \<lparr>partition_key = ev_partition_key (rq_event ?r), data = bs, explicit_hash_key = None, tags = []\<rparr>"
    using event_record_total [of fr "rq_event ?r"] assms(7) by blast
  then obtain ur where ur: "event_record fr (rq_event ?r) = Inr ur" by blast
  note vr = valid_record [OF v ur]
  obtain p' where p': "put_record_enter (ap_stream a) ur (ap_producer a) = Some (Inr p')" "a' = set_phase i Putting (a\<lparr>ap_producer := p'\<rparr>)"
    using assms(4,6) ur vr(2) by (auto simp: begin_put_def put_record_enter_def split: if_splits)
  have st: "starting p' = starting (ap_producer a) @ [(ap_stream a, ur)]" "results p' = results (ap_producer a)"
    using p'(1) by (auto simp: put_record_enter_def split: if_splits)
  let ?a = "a\<lparr>ap_producer := p'\<rparr>"
  have calls: "mset (concat (map (call_of fr (ap_stream a)) (ap_requests a'))) =
      mset (concat (map (call_of fr (ap_stream a)) (ap_requests a))) + {#(ap_stream a, ur)#}"
    using set_phase_calls [of i ?a fr "ap_stream a" Putting] assms(2,3) ur p'(2) by (simp add: call_of_def)
  have aw: "mset (awaited a') = mset (awaited a)"
    using set_phase_awaited [of i ?a Putting] assms(2,3) p'(2) by (simp add: waits_for_def) (simp add: awaited_def)
  have "list_all request_ok (ap_requests a')"
    using set_phase_requests [of ?a i Putting] ok assms(2,3) p'(2) by (simp add: request_ok_def)
  moreover have "set (awaited a') = set (awaited a)" "distinct (awaited a') = distinct (awaited a)"
    using mset_eq_setD [OF aw] mset_eq_imp_distinct_iff [OF aw] by simp_all
  moreover have "prun ops cfg t p'" by (rule prun.step [OF assms(5) pstep.enter [OF vr(1) p'(1)]])
  ultimately show ?thesis
    using assms(1) calls st p'(2) by (simp add: app_ok_def unresolved_def given_up_def)
qed

lemma ends_ok:
  assumes "app_ok fr a" "t \<le> t'" "i < length (ap_requests a)" "rq_phase (ap_requests a ! i) = Putting"
    "event_record fr (rq_event (ap_requests a ! i)) = Inr ur" "starting (ap_producer a) = as @ (ap_stream a, ur) # bs"
    "\<And>pl. dict_get (pipelines (ap_producer a)) (ap_stream a) = Some pl \<Longrightarrow> oid \<notin> obj ` set (live ops pl)"
    "put_record_register cfg t' oid (ap_stream a) ur ((ap_producer a)\<lparr>starting := as @ bs\<rparr>) = (res, p')"
    "prun ops cfg t (ap_producer a)"
  shows "prun ops cfg t' (ap_producer (end_put res i (a\<lparr>ap_producer := p'\<rparr>))) \<and> app_ok fr (end_put res i (a\<lparr>ap_producer := p'\<rparr>))"
proof -
  let ?r = "ap_requests a ! i" and ?n = "length (results (ap_producer a))"
  have ok: "request_ok ?r" "list_all request_ok (ap_requests a)" using assms(1,3) by (auto simp: app_ok_def list_all_length)
  then have v: "valid_event (rq_event ?r)" using assms(4) by (simp add: request_ok_def)
  note vr = valid_record [OF v assms(5)]
  from register_accepts [OF vr(3,4) assms(8)] have reg: "res = Inr ?n" "results p' = results (ap_producer a) @ [outcome_init]"
      "starting p' = as @ bs" by simp_all
  have run: "prun ops cfg t' p'" by (rule prun.step [OF assms(9) pstep.register [OF assms(2,6,7,8)]])
  have given: "given_up p' = {}" using on_its_own_register [OF assms(6,8)] assms(1) by (simp add: on_its_own_def app_ok_def)
  have unres: "unresolved p' = insert ?n (unresolved (ap_producer a))"
    by (auto simp: unresolved_def reg(2) nth_append less_Suc_eq outcome_init_def is_set_def)
  define a' where "a' = end_put res i (a\<lparr>ap_producer := p'\<rparr>)"
  define ph where "ph = (if rq_confirmed ?r then Waiting ?n else Done EventAccepted)"
  have new: "ap_producer a' = p'" "ap_stream a' = ap_stream a" "ap_requests a' = ap_requests (set_phase i ph a)"
    by (simp_all add: a'_def end_put_def reg(1) ph_def set_phase_def)
  have calls: "mset (concat (map (call_of fr (ap_stream a)) (ap_requests a'))) + {#(ap_stream a, ur)#} =
      mset (concat (map (call_of fr (ap_stream a)) (ap_requests a)))"
    using set_phase_calls [OF assms(3), of fr "ap_stream a" ph] assms(4,5) by (simp add: new call_of_def ph_def)
  have aw: "mset (awaited a') = mset (?n # awaited a)"
    using mset_concat_update [OF assms(3), of waits_for "?r\<lparr>rq_phase := ph\<rparr>"] assms(4)
    by (simp add: a'_def end_put_def reg(1) ph_def set_phase_def awaited_def waits_for_def split: if_splits)
  have "list_all request_ok (ap_requests a')"
    unfolding new(3) by (rule set_phase_requests [OF ok(2) assms(3)]) (use v in \<open>simp add: request_ok_def ph_def done_ok_def\<close>)
  moreover have "set (awaited a') = insert ?n (set (awaited a))" using mset_eq_setD [OF aw] by simp
  moreover have "distinct (awaited a')" using mset_eq_imp_distinct_iff [OF aw] assms(1) by (auto simp: app_ok_def)
  moreover have "mset (starting p') = mset (concat (map (call_of fr (ap_stream a)) (ap_requests a')))"
  proof -
    have "mset (starting p') + {#(ap_stream a, ur)#} = mset (starting (ap_producer a))" by (simp add: reg(3) assms(6))
    then show ?thesis using calls assms(1) by (metis add_right_cancel app_ok_def)
  qed
  ultimately have "app_ok fr a'"
    using assms(1) given unres by (auto simp: app_ok_def new reg(2))
  then show ?thesis using run new(1) by (simp add: a'_def)
qed

lemma replies_ok:
  assumes "app_ok fr a" "i < length (ap_requests a)" "rq_phase (ap_requests a ! i) = Waiting h"
    "wait (results (ap_producer a) ! h) = Some w" "limiter_queue ops" "limiter_queue.pinv ops cfg t (ap_producer a)"
  shows "app_ok fr (set_phase i (Done (after_wait w)) a)"
proof -
  let ?r = "ap_requests a ! i" and ?a = "set_phase i (Done (after_wait w)) a"
  have ok: "request_ok ?r" "list_all request_ok (ap_requests a)" using assms(1,2) by (auto simp: app_ok_def list_all_length)
  then have v: "valid_event (rq_event ?r)" "rq_confirmed ?r" using assms(3) by (simp_all add: request_ok_def)
  have "ap_requests a ! i \<in> set (ap_requests a)" using assms(2) by simp
  then have h: "h \<in> set (awaited a)" using assms(3) unfolding awaited_def by (force simp: waits_for_def)
  note aw = awaited_resolved [OF assms(1,4) h assms(5,6)]
  have m: "mset (awaited ?a) + {#h#} = mset (awaited a)"
    using set_phase_awaited [OF assms(2), of "Done (after_wait w)"] assms(3) by (simp add: waits_for_def)
  have "unresolved (ap_producer a) \<subseteq> set (awaited a)" "distinct (awaited a)" "set (awaited a) \<subseteq> {..<length (results (ap_producer a))}"
    using assms(1) by (simp_all add: app_ok_def)
  note rem = unresolved_removed [OF this(1) aw(1) m this(2,3)]
  have "mset (concat (map (call_of fr (ap_stream a)) (ap_requests ?a))) = mset (concat (map (call_of fr (ap_stream a)) (ap_requests a)))"
    using set_phase_calls [OF assms(2), of fr "ap_stream a" "Done (after_wait w)"] assms(3) by (simp add: call_of_def)
  moreover have "list_all request_ok (ap_requests ?a)"
  proof (rule set_phase_requests [OF ok(2) assms(2)])
    obtain r where "w = Inr (Some r)" "result_ok r" using aw(2) by blast
    then show "request_ok (?r\<lparr>rq_phase := Done (after_wait w)\<rparr>)"
      using v by (auto simp: request_ok_def done_ok_def after_wait_def confirmed_reply_def)
  qed
  ultimately show ?thesis using rem assms(1) by (simp add: app_ok_def)
qed

lemma logs_ok:
  assumes "app_ok fr a" "ap_background a = as @ (h, pk) # bs" "wait (results (ap_producer a) ! h) = Some w"
    "limiter_queue ops" "limiter_queue.pinv ops cfg t (ap_producer a)"
  shows "app_ok fr (a\<lparr>ap_background := as @ bs, ap_log := l\<rparr>)"
proof -
  let ?a = "a\<lparr>ap_background := as @ bs, ap_log := l\<rparr>"
  have h: "h \<in> set (awaited a)" using assms(2) by (simp add: awaited_def)
  have m: "mset (awaited ?a) + {#h#} = mset (awaited a)" using assms(2) by (simp add: awaited_def)
  have "unresolved (ap_producer a) \<subseteq> set (awaited a)" "distinct (awaited a)" "set (awaited a) \<subseteq> {..<length (results (ap_producer a))}"
    using assms(1) by (simp_all add: app_ok_def)
  note rem = unresolved_removed [OF this(1) awaited_resolved(1) [OF assms(1,3) h assms(4,5)] m this(2,3)]
  then show ?thesis using assms(1) by (simp add: app_ok_def)
qed

lemma app_step_ok:
  assumes "app_step fr ops cfg t a t' a'" "app_ok fr a" "prun ops cfg t (ap_producer a)" "sorted_key_list ops pending_key" "sane cfg"
    "\<And>x. ascii (fr x)"
  shows "prun ops cfg t' (ap_producer a') \<and> app_ok fr a'"
  using assms(1)
proof cases
  case (arrives evt confirmed)
  with assms(2,3) show ?thesis
    by (simp add: app_ok_def arrive_def call_of_def awaited_def waits_for_def request_ok_def done_ok_def)
next
  case (begins i)
  note lq = pinv_prun [OF assms(4,5,3)]
  then have "\<not> p_closed (ap_producer a)" by (simp add: limiter_queue.pinv_def [OF lq(1)])
  from begins_ok [OF assms(2) begins(2-4) assms(3) this assms(6)] begins(1) show ?thesis by simp
next
  case (ends i ur as bs oid res p')
  with ends_ok [OF assms(2) ends(2-8) assms(3)] show ?thesis by simp
next
  case (replies i h w)
  with replies_ok [OF assms(2) replies(3-5) pinv_prun [OF assms(4,5,3)]] assms(3) show ?thesis by simp
next
  case (logs as h pk bs w)
  with logs_ok [OF assms(2) logs(3,4) pinv_prun [OF assms(4,5,3)]] assms(3) show ?thesis by simp
next
  case (works p')
  have "prun ops cfg t' p'" by (rule prun.step [OF assms(3) works(2)])
  then show ?thesis using works_unresolved [OF works(2,3)] assms(2) works(1,3,4) by (auto simp: app_ok_def awaited_def)
qed

lemma lifespan_config_sane: "sane (lifespan_config environ)"
  by (simp add: sane_def lifespan_config_def config_default_def)

lemma app_run_ok:
  "app_run fr ops environ t a \<Longrightarrow> sorted_key_list ops pending_key \<Longrightarrow> (\<And>x. ascii (fr x)) \<Longrightarrow>
   prun ops (lifespan_config environ) t (ap_producer a) \<and> app_ok fr a"
proof (induction rule: app_run.induct)
  case (started a t)
  have "snd (producer_aenter None None (lifespan_config environ) (producer_init (lifespan_config environ))) = ap_producer a"
    "ap_requests a = []" "ap_background a = []"
    using started(1) by (auto simp: lifespan_start_def Let_def split: prod.splits option.splits)
  moreover from this(1) prun.init have "prun ops (lifespan_config environ) t (ap_producer a)" by metis
  moreover have "results (ap_producer a) = []" "starting (ap_producer a) = []"
    by (simp_all add: producer_aenter_def producer_init_def flip: calculation(1))
  ultimately show ?case by (simp add: app_ok_def awaited_def given_up_def unresolved_def)
next
  case (goes_on t a t' a')
  then show ?case using app_step_ok [OF goes_on(2) _ _ goes_on(4) lifespan_config_sane] by blast
qed

section \<open>Every request can be answered\<close>

definition phase_count :: "(phase \<Rightarrow> bool) \<Rightarrow> 'q app \<Rightarrow> nat" where
  "phase_count P a = length (filter (\<lambda>r. P (rq_phase r)) (ap_requests a))"

lemma phase_count_set:
  assumes "i < length (ap_requests a)"
  shows "phase_count P (set_phase i ph a) + of_bool (P (rq_phase (ap_requests a ! i))) = phase_count P a + of_bool (P ph)"
proof -
  have "length (filter Q (xs[i := y])) + of_bool (Q (xs ! i)) = length (filter Q xs) + of_bool (Q y)" if "i < length xs" for Q xs and y :: request
    using that
  proof (induction xs arbitrary: i)
    case (Cons x xs)
    then show ?case by (cases i) fastforce+
  qed simp
  from this [OF assms, of "\<lambda>r. P (rq_phase r)"] show ?thesis by (simp add: phase_count_def set_phase_def)
qed

lemma phase_count_0: "phase_count P a = 0 \<longleftrightarrow> (\<forall>i<length (ap_requests a). \<not> P (rq_phase (ap_requests a ! i)))"
  by (auto simp: phase_count_def filter_empty_conv all_set_conv_all_nth)

definition is_waiting :: "phase \<Rightarrow> bool" where
  "is_waiting ph \<longleftrightarrow> (\<exists>h. ph = Waiting h)"

definition app_order :: "(Pending, 'q) skl \<Rightarrow> ('q app \<times> 'q app) set" where
  "app_order ops = measures [phase_count ((=) Received), phase_count ((=) Putting), \<lambda>a. rank ops (ap_producer a),
     \<lambda>a. phase_count is_waiting a + length (ap_background a)]"

definition all_answered :: "'q app \<Rightarrow> bool" where
  "all_answered a \<longleftrightarrow> (\<forall>r\<in>set (ap_requests a). \<exists>rep. rq_phase r = Done rep) \<and> ap_background a = []"

lemma set_phase_events [simp]: "i < length (ap_requests a) \<Longrightarrow> map rq_event (ap_requests (set_phase i ph a)) = map rq_event (ap_requests a)"
  by (simp add: set_phase_def map_update list_update_same_conv)

lemma no_calls:
  assumes "app_ok fr a" "phase_count ((=) Putting) a = 0"
  shows "starting (ap_producer a) = []"
proof -
  have "call_of fr (ap_stream a) r = []" if "r \<in> set (ap_requests a)" for r
    using that assms(2) by (auto simp: phase_count_0 in_set_conv_nth call_of_def)
  then have "concat (map (call_of fr (ap_stream a)) (ap_requests a)) = []" by simp
  with assms(1) have "mset (starting (ap_producer a)) = mset []" unfolding app_ok_def by metis
  then show ?thesis by simp
qed

text \<open>One step nearer, by the stage that some request or task is at.\<close>

definition nearer :: "(real \<Rightarrow> pystr) \<Rightarrow> (Pending, 'q) skl \<Rightarrow> Config \<Rightarrow> real \<Rightarrow> 'q app \<Rightarrow> bool" where
  "nearer fr ops cfg t a \<longleftrightarrow> (\<exists>t' a'. app_step fr ops cfg t a t' a' \<and> (a', a) \<in> app_order ops
     \<and> map rq_event (ap_requests a') = map rq_event (ap_requests a))"

lemma nearerI:
  "app_step fr ops cfg t a t' a' \<Longrightarrow> (a', a) \<in> app_order ops \<Longrightarrow> map rq_event (ap_requests a') = map rq_event (ap_requests a) \<Longrightarrow>
   nearer fr ops cfg t a"
  by (auto simp: nearer_def)

lemma end_put_requests:
  "ap_requests (end_put res i (a\<lparr>ap_producer := p\<rparr>)) = ap_requests (set_phase i (case res of Inl e \<Rightarrow> Done (ServerError e)
     | Inr h \<Rightarrow> if rq_confirmed (ap_requests a ! i) then Waiting h else Done EventAccepted) a)"
  by (simp add: end_put_def set_phase_def split: sum.splits)

lemma putting_nearer:
  assumes "app_ok fr a" "i < length (ap_requests a)" "rq_phase (ap_requests a ! i) = Putting" "\<And>x. ascii (fr x)"
  shows "nearer fr ops cfg t a"
proof -
  let ?p = "ap_producer a" and ?s = "ap_stream a" and ?r = "ap_requests a ! i"
  obtain ur where ur: "event_record fr (rq_event ?r) = Inr ur" using event_record_total [of fr "rq_event ?r"] assms(4) by blast
  have "(?s, ur) \<in> set (call_of fr ?s ?r)" using ur assms(3) by (simp add: call_of_def)
  then have "(?s, ur) \<in># mset (concat (map (call_of fr ?s) (ap_requests a)))" using nth_mem [OF assms(2)] by (auto simp del: nth_mem)
  then have "(?s, ur) \<in># mset (starting ?p)" using assms(1) by (simp add: app_ok_def)
  then obtain as bs where st: "starting ?p = as @ (?s, ur) # bs" by (auto dest: split_list)
  define used where "used = (case dict_get (pipelines ?p) ?s of None \<Rightarrow> {} | Some pl \<Rightarrow> obj ` set (live ops pl))"
  have "finite used" by (simp add: used_def split: option.splits)
  then obtain oid where oid: "oid \<notin> used" using ex_new_if_finite infinite_UNIV_nat by blast
  obtain res p' where reg: "put_record_register cfg t oid ?s ur (?p\<lparr>starting := as @ bs\<rparr>) = (res, p')" by fastforce
  let ?a = "end_put res i (a\<lparr>ap_producer := p'\<rparr>)"
  have "app_step fr ops cfg t a t ?a"
    by (rule app_step.ends [OF order_refl assms(2,3) ur st _ reg]) (use oid in \<open>simp add: used_def\<close>)
  moreover define ph where "ph = (case res of Inl e \<Rightarrow> Done (ServerError e)
     | Inr h \<Rightarrow> if rq_confirmed ?r then Waiting h else Done EventAccepted)"
  have ph: "ph \<noteq> Received" "ph \<noteq> Putting" by (simp_all add: ph_def split: sum.splits)
  have "phase_count P ?a = phase_count P (set_phase i ph a)" for P by (simp add: phase_count_def end_put_requests ph_def)
  with phase_count_set [OF assms(2), of "(=) Received" ph] phase_count_set [OF assms(2), of "(=) Putting" ph] assms(3) ph
  have "phase_count ((=) Received) ?a = phase_count ((=) Received) a" "phase_count ((=) Putting) ?a < phase_count ((=) Putting) a" by simp_all
  then have "(?a, a) \<in> app_order ops" by (simp add: app_order_def)
  moreover have "map rq_event (ap_requests ?a) = map rq_event (ap_requests a)" unfolding end_put_requests using assms(2) by simp
  ultimately show ?thesis by (rule nearerI)
qed

lemma working_nearer:
  assumes "starting (ap_producer a) = []" "limiter_queue ops" "limiter_queue.pinv ops cfg t (ap_producer a)" "sane cfg"
    "rank ops (ap_producer a) \<noteq> 0"
  shows "nearer fr ops cfg t a"
proof -
  have f: "readable_client (\<lambda>_ _. Inr None)" by (simp add: readable_client_def)
  from limiter_queue.progress [OF assms(2,3,4) f assms(5)] obtain t' p' where
    p': "pstep ((=) (\<lambda>_ _. Inr None)) ops cfg t (ap_producer a) t' p'" "rank ops p' < rank ops (ap_producer a)" "on_its_own (ap_producer a) p'"
    by blast
  have "pstep readable_client ops cfg t (ap_producer a) t' p'" by (rule pstep_mono [OF p'(1)]) (use f in blast)
  moreover have "starting p' = starting (ap_producer a)" "given_up p' = given_up (ap_producer a)"
    using p'(3) assms(1) by (simp_all add: on_its_own_def)
  ultimately have "app_step fr ops cfg t a t' (a\<lparr>ap_producer := p'\<rparr>)" by (rule app_step.works)
  then show ?thesis by (rule nearerI) (simp_all add: app_order_def phase_count_def p'(2))
qed

lemma waiting_nearer:
  assumes "i < length (ap_requests a)" "rq_phase (ap_requests a ! i) = Waiting h" "wait (results (ap_producer a) ! h) = Some w"
  shows "nearer fr ops cfg t a"
proof (rule nearerI [OF app_step.replies [OF assms]])
  have "phase_count P (set_phase i (Done (after_wait w)) a) + of_bool (P (Waiting h)) = phase_count P a + of_bool (P (Done (after_wait w)))" for P
    using phase_count_set [OF assms(1), of P] assms(2) by simp
  from this [of "(=) Received"] this [of "(=) Putting"] this [of is_waiting]
  show "(set_phase i (Done (after_wait w)) a, a) \<in> app_order ops" by (simp add: app_order_def is_waiting_def)
qed (simp add: assms(1))

lemma logging_nearer:
  assumes "ap_background a = (h, pk) # bs" "wait (results (ap_producer a) ! h) = Some w"
  shows "nearer fr ops cfg t a"
  by (rule nearerI [OF app_step.logs [of _ "[]" h pk bs w]]) (use assms in \<open>simp_all add: app_order_def phase_count_def\<close>)

lemma received_nearer:
  assumes "app_ok fr a" "i < length (ap_requests a)" "rq_phase (ap_requests a ! i) = Received" "\<And>x. ascii (fr x)"
    "0 < semaphore (ap_producer a)"
  shows "nearer fr ops cfg t a"
proof -
  obtain ur where ur: "event_record fr (rq_event (ap_requests a ! i)) = Inr ur"
    using event_record_total [of fr "rq_event (ap_requests a ! i)"] assms(4) by blast
  have "\<exists>a' ph. begin_put fr i a = Some (set_phase i ph a') \<and> ap_requests a' = ap_requests a \<and> ph \<noteq> Received"
  proof (cases "put_record_enter (ap_stream a) ur (ap_producer a)")
    case (Some res)
    show ?thesis
    proof (cases res)
      case (Inr p)
      then show ?thesis using Some ur by (intro exI [of _ "a\<lparr>ap_producer := p\<rparr>"] exI [of _ Putting]) (simp add: begin_put_def)
    qed (use Some ur in \<open>auto simp: begin_put_def\<close>)
  qed (use assms(5) in \<open>auto simp: put_record_enter_def split: if_splits\<close>)
  then obtain a' ph where b: "begin_put fr i a = Some (set_phase i ph a')" "ap_requests a' = ap_requests a" "ph \<noteq> Received" by blast
  have "phase_count ((=) Received) (set_phase i ph a') + 1 = phase_count ((=) Received) a'"
    using phase_count_set [of i a' "(=) Received" ph] assms(2,3) b(2,3) by simp
  then have "phase_count ((=) Received) (set_phase i ph a') < phase_count ((=) Received) a" by (simp add: phase_count_def b(2))
  then show ?thesis
    by (intro nearerI [OF app_step.begins [OF assms(2,3) b(1)]]) (use assms(2) b(2) in \<open>simp_all add: app_order_def\<close>)
qed

lemma app_progress:
  assumes "app_ok fr a" "prun ops cfg t (ap_producer a)" "sorted_key_list ops pending_key" "sane cfg" "\<And>x. ascii (fr x)"
    "0 < cf_max_outstanding_records cfg" "\<not> all_answered a"
  shows "nearer fr ops cfg t a"
proof (rule ccontr)
  assume n: "\<not> nearer fr ops cfg t a"
  let ?p = "ap_producer a"
  note lq = pinv_prun [OF assms(3,4,2)]
  have noput: "\<And>i. i < length (ap_requests a) \<Longrightarrow> rq_phase (ap_requests a ! i) \<noteq> Putting"
    using putting_nearer [OF assms(1) _ _ assms(5)] n by blast
  then have st: "starting ?p = []" by (intro no_calls [OF assms(1)]) (use noput in \<open>metis phase_count_0\<close>)
  then have r0: "rank ops ?p = 0" using working_nearer [OF _ lq assms(4)] n by blast
  have live: "live ops pl = []" if "(s, pl) \<in> set (pipelines ?p)" for s pl by (rule limiter_queue.rank_0_live [OF lq r0 that])
  have res: "\<exists>w. wait (results ?p ! h) = Some w" if "h \<in> set (awaited a)" for h
  proof -
    have "h \<notin> unresolved ?p" using unresolved_live [OF lq] live map_of_SomeD by fastforce
    moreover have "h < length (results ?p)" using assms(1) that by (auto simp: app_ok_def)
    ultimately show ?thesis by (simp add: unresolved_def is_set_def wait_def)
  qed
  have bg: "ap_background a = []"
  proof (rule ccontr)
    assume "ap_background a \<noteq> []"
    then obtain h pk bs where b: "ap_background a = (h, pk) # bs" by (cases "ap_background a") auto
    then have "h \<in> set (awaited a)" by (simp add: awaited_def)
    with res logging_nearer [OF b] n show False by blast
  qed
  have nowait: "rq_phase (ap_requests a ! i) \<noteq> Waiting h" if i: "i < length (ap_requests a)" for i h
  proof
    assume w: "rq_phase (ap_requests a ! i) = Waiting h"
    then have "h \<in> set (awaited a)" using nth_mem [OF i] unfolding awaited_def by (force simp: waits_for_def simp del: nth_mem)
    with res waiting_nearer [OF i w] n show False by blast
  qed
  obtain i where i: "i < length (ap_requests a)" "\<forall>rep. rq_phase (ap_requests a ! i) \<noteq> Done rep"
    using assms(7) bg by (auto simp: all_answered_def in_set_conv_nth)
  with noput nowait have "rq_phase (ap_requests a ! i) = Received" by (cases "rq_phase (ap_requests a ! i)") auto
  moreover have "length (handles_of (pipelines ?p)) = 0" using live_total [OF lq] live by auto
  then have "0 < semaphore ?p" using lq(2) st assms(6) by (simp add: limiter_queue.pinv_def [OF lq(1)])
  ultimately show False using received_nearer [OF assms(1) i(1) _ assms(5)] n by blast
qed

lemma app_order_wf: "wf (app_order ops)"
  by (simp add: app_order_def)

lemma app_answers:
  assumes "sorted_key_list ops pending_key" "sane cfg" "\<And>x. ascii (fr x)" "0 < cf_max_outstanding_records cfg"
  shows "app_ok fr a \<Longrightarrow> prun ops cfg t (ap_producer a) \<Longrightarrow> \<exists>t' a'. app_steps fr ops cfg t a t' a' \<and> all_answered a'
    \<and> map rq_event (ap_requests a') = map rq_event (ap_requests a)"
proof (induction a arbitrary: t rule: wf_induct_rule [OF app_order_wf [of ops]])
  case (1 a)
  show ?case
  proof (cases "all_answered a")
    case False
    from app_progress [OF 1(2,3) assms(1,2,3,4) False] obtain t' a' where
      st: "app_step fr ops cfg t a t' a'" "(a', a) \<in> app_order ops" "map rq_event (ap_requests a') = map rq_event (ap_requests a)"
      by (auto simp: nearer_def)
    have "prun ops cfg t' (ap_producer a') \<and> app_ok fr a'" by (rule app_step_ok [OF st(1) 1(2,3) assms(1,2,3)])
    with 1(1) [OF st(2)] obtain t'' a'' where rest: "app_steps fr ops cfg t' a' t'' a''" "all_answered a''"
      "map rq_event (ap_requests a'') = map rq_event (ap_requests a')" by blast
    from rest(1) have "app_steps fr ops cfg t a t'' a''"
      by (induction rule: app_steps.induct) (blast intro: app_steps.more app_steps.none st(1))+
    with rest st(3) show ?thesis by auto
  qed (use app_steps.none in blast)
qed

lemma app_run_steps: "app_steps fr ops (lifespan_config environ) t a t' a' \<Longrightarrow> app_run fr ops environ t a \<Longrightarrow> app_run fr ops environ t' a'"
  by (induction rule: app_steps.induct) (auto intro: app_run.goes_on)

section \<open>Properties\<close>



text \<open>C21.  The health endpoint tells the truth.  The number of outstanding records that it reports is at every moment the number of calls of \<open>put_record\<close> that
  handlers have under way plus the number of outcomes that a handler or a background task still waits for in vain; it is never negative and never above the
  configured limit.\<close>

theorem service_health:
  assumes "sorted_key_list ops pending_key" "\<forall>x. ascii (float_repr x)" "app_run float_repr ops environ t a"
  shows "snd (health a) = int (phase_count ((=) Putting) a + length (filter (\<lambda>h. wait (results (ap_producer a) ! h) = None) (awaited a)))
    \<and> 0 \<le> snd (health a) \<and> snd (health a) \<le> 10000"
proof -
  let ?p = "ap_producer a"
  have run: "prun ops (lifespan_config environ) t ?p" and ok: "app_ok float_repr a" using app_run_ok [OF assms(3,1)] assms(2) by blast+
  note lq = pinv_prun [OF assms(1) lifespan_config_sane run]
  have inv: "handles_ok (handles_of (pipelines ?p)) (results ?p)"
      "outstanding ?p = int (length (starting ?p)) + int (length (handles_of (pipelines ?p)))"
      "semaphore ?p + length (starting ?p) + length (handles_of (pipelines ?p)) = 10000"
    using lq(2) by (simp_all add: limiter_queue.pinv_def [OF lq(1)] lifespan_config_def config_default_def)
  have "length (call_of float_repr (ap_stream a) r) = of_bool (rq_phase r = Putting)" for r
    using event_record_total [of float_repr "rq_event r"] assms(2) by (auto simp: call_of_def)
  then have "length (concat (map (call_of float_repr (ap_stream a)) rs)) = length (filter (\<lambda>r. Putting = rq_phase r) rs)" for rs
    by (induction rs) auto
  then have starting: "length (starting ?p) = phase_count ((=) Putting) a"
    using ok mset_eq_length by (metis app_ok_def phase_count_def)
  have "unresolved ?p = set (handles_of (pipelines ?p))" using handles_ok_sets(1) [OF inv(1)] ok by (simp add: app_ok_def)
  then have "length (handles_of (pipelines ?p)) = card (unresolved ?p)" using inv(1) by (simp add: handles_ok_def distinct_card)
  also have "unresolved ?p = set (filter (\<lambda>h. wait (results ?p ! h) = None) (awaited a))"
    using ok by (auto simp: app_ok_def unresolved_def wait_def is_set_def split: if_splits)
  also have "card \<dots> = length (filter (\<lambda>h. wait (results ?p ! h) = None) (awaited a))"
    using ok by (intro distinct_card) (simp add: app_ok_def)
  finally show ?thesis using inv(2,3) starting by (simp add: health_def outstanding_records_def)
qed

section \<open>A run\<close>

definition demo_environ :: "pystr \<Rightarrow> pystr option" where
  "demo_environ name = (if name = lit ''AIOKPL_STREAM'' then Some (lit ''events'') else None)"

definition demo_event :: EventIn where
  "demo_event = \<lparr>ev_partition_key = [0x61], ev_payload = JObj [([0x78], JArr [JInt 1, JStr [0xE9]])]\<rparr>"

lemma demo_app_run:
  "\<exists>a. app_run (\<lambda>_. []) demo_ops demo_environ 0 (a :: Pending list app) \<and> ap_requests a = [\<lparr>rq_event = demo_event, rq_confirmed = True, rq_phase = Received\<rparr>]
     \<and> ap_background a = []"
proof -
  have "lit ''AIOKPL_STREAM'' = lit ''AIOKPL_STREAM''" by simp
  then obtain a :: "Pending list app" where a: "lifespan_start None None demo_environ = Inr a" "ap_requests a = []" "ap_background a = []"
    by (auto simp: lifespan_start_def demo_environ_def producer_aenter_def Let_def)
  from app_run.goes_on [OF app_run.started [OF a(1)] app_step.arrives [of _ _ _ _ _ demo_event True]]
  show ?thesis using a(2,3) by (intro exI conjI) (assumption, auto simp: arrive_def valid_event_def demo_event_def scalar_def)
qed



theorem service_health_witness:
  "\<exists>a :: Pending list app. app_run (\<lambda>_. []) demo_ops demo_environ 0 a \<and> health a = (True, 0)"
proof -
  obtain a :: "Pending list app" where a: "app_run (\<lambda>_. []) demo_ops demo_environ 0 a"
      "ap_requests a = [\<lparr>rq_event = demo_event, rq_confirmed = True, rq_phase = Received\<rparr>]" "ap_background a = []" using demo_app_run by blast
  from service_health [OF insort_list.sorted_key_list_axioms _ a(1)] a show ?thesis
    by (auto simp: phase_count_def awaited_def waits_for_def health_def)
qed

end
