(* ===== verification/Benchmarks.thy ===== *)
theory Benchmarks
  imports Sync
begin

text \<open>
  Model of \<^verbatim>\<open>src/benchmarks\<close>: the percentiles, the polling loops and the cleanup of \<^verbatim>\<open>_harness.py\<close>, the variants that
  \<^verbatim>\<open>bench_latency.py\<close> and \<^verbatim>\<open>bench_throughput.py\<close> measure, and their runners.  Readings of the clock, the answers of
  the service and what the measured producers do are arguments.  The aggregator of \<^verbatim>\<open>aws_kinesis_agg\<close> is code of a third party:
  a parameter whose documented laws are the locale \<open>record_aggregator\<close>.  Starting the container, printing and writing files are actions of a
  trace.
\<close>

section \<open>The harness\<close>

record BenchResult =
  br_label :: pystr
  br_total_records :: nat
  br_elapsed_s :: real
  br_throughput_rps :: real
  br_p50_ms :: real
  br_p99_ms :: real
  br_p999_ms :: real
  br_shards :: nat
  br_notes :: pystr

text \<open>\<^verbatim>\<open>round\<close> to the nearest integer, halves to the even one.\<close>

definition py_round :: "real \<Rightarrow> int" where
  "py_round x = (let f = \<lfloor>x\<rfloor>; d = x - of_int f in
     if d < 1 / 2 then f else if 1 / 2 < d then f + 1 else if even f then f else f + 1)"

definition pct :: "real list \<Rightarrow> real \<Rightarrow> real" where
  "pct xs p = (let n = length xs; idx = min (int n - 1) (max 0 (py_round (p * of_int (int n - 1)))) in xs ! nat idx * 1000)"

definition percentiles_ms :: "real list \<Rightarrow> real \<times> real \<times> real" where
  "percentiles_ms latencies_s =
     (if latencies_s = [] then (0, 0, 0)
      else let xs = sort latencies_s in (pct xs (50 / 100), pct xs (99 / 100), pct xs (999 / 1000)))"

text \<open>The polling loop of \<open>wait_active\<close>: \<open>status i\<close> is the answer at the \<open>i\<close>-th look (or what the client raises), \<open>late i\<close> says that the
  deadline has passed by then.\<close>

definition ACTIVE :: pystr where "ACTIVE = lit ''ACTIVE''"

partial_function (option) wait_active :: "(nat \<Rightarrow> pyerr + pystr) \<Rightarrow> (nat \<Rightarrow> bool) \<Rightarrow> nat \<Rightarrow> pyerr option option" where
  "wait_active status late i =
     (if late i then Some (Some (RuntimeError ''stream never became ACTIVE''))
      else case status i of
        Inl e \<Rightarrow> Some (Some e)
      | Inr s \<Rightarrow> if s = ACTIVE then Some None else wait_active status late (i + 1))"

text \<open>The loop of \<open>spin_up_kinesis_mock\<close> that waits for the container: an exception of the health check is kept and the loop goes on; when the
  deadline passes the container is stopped.\<close>

datatype bench_event =
    StartContainer
  | StopContainer
  | CreateStream pystr nat
  | DeleteStream pystr
  | RunVariant pystr
  | PrintTable
  | SaveResults

partial_function (option) wait_healthy :: "(nat \<Rightarrow> pyerr + nat) \<Rightarrow> (nat \<Rightarrow> bool) \<Rightarrow> nat \<Rightarrow> (bench_event list \<times> pyerr option) option" where
  "wait_healthy status late i =
     (if late i then Some ([StopContainer], Some (RuntimeError ''kinesis-mock did not become healthy''))
      else case status i of
        Inl e \<Rightarrow> wait_healthy status late (i + 1)
      | Inr code \<Rightarrow> if code = 200 then Some ([], None) else wait_healthy status late (i + 1))"

section \<open>Records\<close>

definition RECORD_SIZE :: nat where "RECORD_SIZE = 200"
definition PARTITION_KEYS :: nat where "PARTITION_KEYS = 256"

definition payload :: "byte list" where
  "payload = replicate RECORD_SIZE (byte_of 0x78)"

definition record_key :: "nat \<Rightarrow> pystr" where
  "record_key i = lit ''pk-'' @ str_of_nat (i mod PARTITION_KEYS)"

definition make_records :: "nat \<Rightarrow> (pystr \<times> byte list) list" where
  "make_records n = map (\<lambda>i. (record_key i, payload)) [0..<n]"

record entry =
  en_data :: "byte list"
  en_partition_key :: pystr
  en_explicit_hash_key :: "pystr option"

definition plain_entry :: "pystr \<times> byte list \<Rightarrow> entry" where
  "plain_entry r = \<lparr>en_data = snd r, en_partition_key = fst r, en_explicit_hash_key = None\<rparr>"

function chunks :: "'a list \<Rightarrow> nat \<Rightarrow> nat \<Rightarrow> 'a list list" where
  "chunks xs sz i =
     (if i < length xs \<and> 0 < sz then take sz (drop i xs) # chunks xs sz (i + sz) else [])"
  by pat_completeness auto
termination by (relation "measure (\<lambda>(xs, sz, i). length xs - i)") auto

declare chunks.simps [simp del]

type_synonym put_fn = "entry list \<Rightarrow> pyerr option"
type_synonym 'r measured = "entry list list \<times> (pyerr + 'r)"

section \<open>boto3\<close>

text \<open>The loop of \<open>bench_throughput._boto3_raw\<close>; \<open>clock k\<close> is the \<open>k\<close>-th reading of the clock.\<close>

fun raw_loop :: "put_fn \<Rightarrow> (nat \<Rightarrow> real) \<Rightarrow> nat \<Rightarrow> real \<Rightarrow> real list \<Rightarrow> entry list list \<Rightarrow> real list measured" where
  "raw_loop put clock k submit_t latencies [] = ([], Inr latencies)"
| "raw_loop put clock k submit_t latencies (batch # bs) =
     (case put batch of
        Some e \<Rightarrow> ([batch], Inl e)
      | None \<Rightarrow>
          (let now = clock k; per = now - submit_t in
           case raw_loop put clock (k + 1) now (latencies @ replicate (length batch) per) bs of
             (calls, r) \<Rightarrow> (batch # calls, r)))"

definition boto3_raw :: "put_fn \<Rightarrow> (nat \<Rightarrow> real) \<Rightarrow> nat \<Rightarrow> (real \<times> real list) measured" where
  "boto3_raw put clock n =
     (let batches = chunks (map plain_entry (make_records n)) 500 0 in
      case raw_loop put clock 1 (clock 0) [] batches of
        (calls, Inl e) \<Rightarrow> (calls, Inl e)
      | (calls, Inr latencies) \<Rightarrow> (calls, Inr (clock (length batches + 1) - clock 0, latencies)))"

text \<open>The loop of \<open>bench_latency._boto3_raw\<close>: \<open>sub_at i\<close> is the time at which record \<open>i\<close> was submitted, \<open>done_at k\<close> the one after the \<open>k\<close>-th request.\<close>

definition BATCH :: nat where "BATCH = 100"

fun latency_raw_loop :: "put_fn \<Rightarrow> (nat \<Rightarrow> real) \<Rightarrow> (nat \<Rightarrow> real) \<Rightarrow> nat \<Rightarrow> entry list \<Rightarrow> nat list \<Rightarrow> real list \<Rightarrow> nat list
    \<Rightarrow> real list measured" where
  "latency_raw_loop put sub_at done_at k batch indices latencies [] =
     (if batch = [] then ([], Inr latencies)
      else case put batch of
        Some e \<Rightarrow> ([batch], Inl e)
      | None \<Rightarrow> ([batch], Inr (latencies @ map (\<lambda>j. done_at k - sub_at j) indices)))"
| "latency_raw_loop put sub_at done_at k batch indices latencies (i # js) =
     (let batch = batch @ [plain_entry (record_key i, payload)]; indices = indices @ [i] in
      if BATCH \<le> length batch
      then case put batch of
          Some e \<Rightarrow> ([batch], Inl e)
        | None \<Rightarrow>
            (case latency_raw_loop put sub_at done_at (k + 1) [] [] (latencies @ map (\<lambda>j. done_at k - sub_at j) indices) js of
               (calls, r) \<Rightarrow> (batch # calls, r))
      else latency_raw_loop put sub_at done_at k batch indices latencies js)"

definition latency_boto3_raw :: "put_fn \<Rightarrow> (nat \<Rightarrow> real) \<Rightarrow> (nat \<Rightarrow> real) \<Rightarrow> real \<Rightarrow> real \<Rightarrow> nat \<Rightarrow> (real \<times> real list) measured" where
  "latency_boto3_raw put sub_at done_at t0 t1 n =
     (case latency_raw_loop put sub_at done_at 0 [] [] [] [0..<n] of
        (calls, Inl e) \<Rightarrow> (calls, Inl e) | (calls, Inr latencies) \<Rightarrow> (calls, Inr (t1 - t0, latencies)))"

section \<open>aws-kinesis-agg\<close>

text \<open>The third party's aggregator: what \<^verbatim>\<open>add_user_record\<close>, \<^verbatim>\<open>clear_and_get\<close> and \<^verbatim>\<open>get_contents\<close> do.\<close>

record ('g, 'r) agg_lib =
  al_new :: 'g
  al_add :: "pystr \<Rightarrow> byte list \<Rightarrow> 'g \<Rightarrow> 'r option \<times> 'g"
  al_clear :: "'g \<Rightarrow> 'r option"
  al_contents :: "'r \<Rightarrow> pystr \<times> pystr option \<times> byte list"

definition agg_entry :: "('g, 'r) agg_lib \<Rightarrow> 'r \<Rightarrow> entry" where
  "agg_entry lib rec =
     (case al_contents lib rec of (pk, ehk, dat) \<Rightarrow> \<lparr>en_data = dat, en_partition_key = pk, en_explicit_hash_key = ehk\<rparr>)"

definition flush_agg_record :: "('g, 'r) agg_lib \<Rightarrow> 'r option \<Rightarrow> entry list \<Rightarrow> entry list" where
  "flush_agg_record lib rec aggregated_entries =
     (case rec of None \<Rightarrow> aggregated_entries | Some r \<Rightarrow> aggregated_entries @ [agg_entry lib r])"

text \<open>The loop of \<open>bench_throughput._boto3_kinesis_agg\<close> and what follows it.\<close>

fun agg_loop :: "('g, 'r) agg_lib \<Rightarrow> put_fn \<Rightarrow> (nat \<Rightarrow> real) \<Rightarrow> nat \<Rightarrow> real \<Rightarrow> real list \<Rightarrow> 'g \<Rightarrow> entry list
    \<Rightarrow> (pystr \<times> byte list) list \<Rightarrow> (nat \<times> real list) measured" where
  "agg_loop lib put clock k submit_t latencies g entries [] =
     (let entries = flush_agg_record lib (al_clear lib g) entries in
      if entries = [] then ([], Inr (k, latencies))
      else case put entries of
        Some e \<Rightarrow> ([entries], Inl e)
      | None \<Rightarrow> ([entries], Inr (k + 1, latencies @ replicate (length entries) (clock k - submit_t))))"
| "agg_loop lib put clock k submit_t latencies g entries ((pk, dat) # rest) =
     (case al_add lib pk dat g of
        (full, g) \<Rightarrow>
          (let entries = flush_agg_record lib full entries in
           if 500 \<le> length entries
           then case put entries of
               Some e \<Rightarrow> ([entries], Inl e)
             | None \<Rightarrow>
                 (case agg_loop lib put clock (k + 1) (clock k) (latencies @ replicate (length entries) (clock k - submit_t)) g [] rest of
                    (calls, r) \<Rightarrow> (entries # calls, r))
           else agg_loop lib put clock k submit_t latencies g entries rest))"

definition boto3_kinesis_agg :: "('g, 'r) agg_lib \<Rightarrow> put_fn \<Rightarrow> (nat \<Rightarrow> real) \<Rightarrow> nat \<Rightarrow> (real \<times> real list) measured" where
  "boto3_kinesis_agg lib put clock n =
     (case agg_loop lib put clock 1 (clock 0) [] (al_new lib) [] (make_records n) of
        (calls, Inl e) \<Rightarrow> (calls, Inl e)
      | (calls, Inr (k, latencies)) \<Rightarrow>
          (calls, Inr (clock k - clock 0,
             let latencies = (if length latencies < n
                then latencies @ replicate (n - length latencies) (if latencies \<noteq> [] then last latencies else 0)
                else latencies) in take n latencies)))"

text \<open>The loop of \<open>bench_latency._boto3_kinesis_agg\<close>, which also keeps which records are in which entry.\<close>

definition close_agg :: "('g, 'r) agg_lib \<Rightarrow> 'r option \<Rightarrow> entry list \<times> nat list list \<times> nat list \<Rightarrow> entry list \<times> nat list list \<times> nat list" where
  "close_agg lib rec st =
     (case st of (aggregated_entries, aggregated_indices, current_indices) \<Rightarrow>
       (case rec of
          None \<Rightarrow> st
        | Some r \<Rightarrow> (aggregated_entries @ [agg_entry lib r], aggregated_indices @ [current_indices], [])))"

definition BATCH_AGG :: nat where "BATCH_AGG = 50"

fun latency_agg_loop :: "('g, 'r) agg_lib \<Rightarrow> put_fn \<Rightarrow> (nat \<Rightarrow> real) \<Rightarrow> (nat \<Rightarrow> real) \<Rightarrow> nat \<Rightarrow> real list \<Rightarrow> 'g
    \<Rightarrow> entry list \<times> nat list list \<times> nat list \<Rightarrow> nat list \<Rightarrow> real list measured" where
  "latency_agg_loop lib put sub_at done_at k latencies g st [] =
     (case close_agg lib (al_clear lib g) st of
        (entries, indices, cur) \<Rightarrow>
          if entries = [] then ([], Inr latencies)
          else (case put entries of
              Some e \<Rightarrow> ([entries], Inl e)
            | None \<Rightarrow> ([entries], Inr (latencies @ map (\<lambda>j. done_at k - sub_at j) (concat indices)))))"
| "latency_agg_loop lib put sub_at done_at k latencies g (entries, indices, cur) (i # js) =
     (case al_add lib (record_key i) payload g of
        (full, g) \<Rightarrow>
          (case close_agg lib full (entries, indices, cur @ [i]) of
             (entries, indices, cur) \<Rightarrow>
               if BATCH_AGG \<le> length entries
               then (case put entries of
                   Some e \<Rightarrow> ([entries], Inl e)
                 | None \<Rightarrow>
                     (case latency_agg_loop lib put sub_at done_at (k + 1) (latencies @ map (\<lambda>j. done_at k - sub_at j) (concat indices)) g
                         ([], [], cur) js of
                        (calls, r) \<Rightarrow> (entries # calls, r)))
               else latency_agg_loop lib put sub_at done_at k latencies g (entries, indices, cur) js))"

definition latency_boto3_kinesis_agg :: "('g, 'r) agg_lib \<Rightarrow> put_fn \<Rightarrow> (nat \<Rightarrow> real) \<Rightarrow> (nat \<Rightarrow> real) \<Rightarrow> real \<Rightarrow> real \<Rightarrow> nat
    \<Rightarrow> (real \<times> real list) measured" where
  "latency_boto3_kinesis_agg lib put sub_at done_at t0 t1 n =
     (case latency_agg_loop lib put sub_at done_at 0 [] (al_new lib) ([], [], []) [0..<n] of
        (calls, Inl e) \<Rightarrow> (calls, Inl e) | (calls, Inr latencies) \<Rightarrow> (calls, Inr (t1 - t0, latencies)))"

section \<open>aiokpl\<close>

text \<open>The configuration of the measured producers.\<close>

definition bench_config :: "pystr \<Rightarrow> nat \<Rightarrow> bool \<Rightarrow> Config" where
  "bench_config endpoint_url n aggregation =
     (config_default (lit ''us-east-1''))\<lparr>cf_endpoint_url := Some endpoint_url, cf_verify_ssl := False,
        cf_aws_access_key_id := Some (lit ''testing''), cf_aws_secret_access_key := Some (lit ''testing''),
        cf_aggregation_enabled := aggregation, cf_record_max_buffered_time_ms := 50, cf_max_outstanding_records := n + 1000\<rparr>"

text \<open>What a measured producer does: what entering and leaving it raise, what the calls of \<open>put_record\<close>, its \<open>flush\<close> and waiting for the outcomes raise, the readings of the clock, the order
  in which the waiting tasks end, and the number of outstanding records at the looks of a polling loop.\<close>

record run_env =
  rn_enter :: "pyerr option"
  rn_exit :: "pyerr option"
  rn_put :: "nat \<Rightarrow> pyerr option"
  rn_flush :: "pyerr option"
  rn_wait :: "nat \<Rightarrow> pyerr option"
  rn_start :: real
  rn_submit :: "nat \<Rightarrow> real"
  rn_resolved :: "nat \<Rightarrow> real"
  rn_end :: real
  rn_order :: "nat list"
  rn_reading :: "nat \<Rightarrow> int"

fun first_raised :: "(nat \<Rightarrow> pyerr option) \<Rightarrow> nat list \<Rightarrow> pyerr option" where
  "first_raised f [] = None"
| "first_raised f (i # js) = (case f i of Some e \<Rightarrow> Some e | None \<Rightarrow> first_raised f js)"

definition submit_all :: "run_env \<Rightarrow> nat \<Rightarrow> pyerr option" where
  "submit_all env n = (case first_raised (rn_put env) [0..<n] of Some e \<Rightarrow> Some e | None \<Rightarrow> rn_flush env)"

text \<open>The \<^verbatim>\<open>with\<close> block around a measurement: what leaving the producer raises replaces what the block gave.\<close>

definition with_producer :: "run_env \<Rightarrow> pyerr + 'a \<Rightarrow> pyerr + 'a" where
  "with_producer env block =
     (case rn_enter env of Some e \<Rightarrow> Inl e | None \<Rightarrow> (case rn_exit env of Some e \<Rightarrow> Inl e | None \<Rightarrow> block))"

text \<open>An exception of a waiting task ends the task group; here it stands for the group.\<close>

definition aiokpl_async :: "run_env \<Rightarrow> nat \<Rightarrow> pyerr + real \<times> real list" where
  "aiokpl_async env n =
     with_producer env
       (case submit_all env n of
          Some e \<Rightarrow> Inl e
        | None \<Rightarrow>
            (case first_raised (rn_wait env) (rn_order env) of
               Some e \<Rightarrow> Inl e
             | None \<Rightarrow> Inr (rn_end env - rn_start env, map (\<lambda>i. rn_resolved env i - rn_submit env i) (rn_order env))))"

text \<open>The synchronous variant ignores what waiting raises.\<close>

definition aiokpl_sync :: "run_env \<Rightarrow> nat \<Rightarrow> pyerr + real \<times> real list" where
  "aiokpl_sync env n =
     with_producer env
       (case submit_all env n of
          Some e \<Rightarrow> Inl e
        | None \<Rightarrow> Inr (rn_end env - rn_start env, map (\<lambda>i. rn_resolved env i - rn_submit env i) [0..<n]))"

text \<open>Without waiting for outcomes: the loop polls the number of outstanding records; \<open>None\<close> when it never ends.\<close>

definition aiokpl_fire_and_forget :: "run_env \<Rightarrow> nat \<Rightarrow> (pyerr + real \<times> real list) option" where
  "aiokpl_fire_and_forget env n =
     (if rn_enter env \<noteq> None then Some (with_producer env (Inr (0, [])))
      else case submit_all env n of
        Some e \<Rightarrow> Some (with_producer env (Inl e))
      | None \<Rightarrow>
          (case poll_outstanding (rn_reading env) (\<lambda>_. False) 0 of
             None \<Rightarrow> None
           | Some r \<Rightarrow> (let elapsed = rn_end env - rn_start env in Some (with_producer env (Inr (elapsed, replicate n elapsed))))))"

text \<open>The asynchronous variant, when it gives a measurement, has one latency for every record, each of a record that was put; no call of the producer raised.\<close>

lemma aiokpl_async_measures:
  assumes "aiokpl_async env n = Inr (elapsed, latencies)" "mset (rn_order env) = mset [0..<n]"
  shows "length latencies = n \<and> mset latencies = mset (map (\<lambda>i. rn_resolved env i - rn_submit env i) [0..<n]) \<and> submit_all env n = None"
proof -
  have l: "latencies = map (\<lambda>i. rn_resolved env i - rn_submit env i) (rn_order env)" "submit_all env n = None"
    using assms(1) by (auto simp: aiokpl_async_def with_producer_def split: option.splits)
  have "length (rn_order env) = n" using mset_eq_length [OF assms(2)] by simp
  moreover have "mset (map f (rn_order env)) = mset (map f [0..<n])" for f :: "nat \<Rightarrow> real" using assms(2) by (metis mset_map)
  ultimately show ?thesis unfolding l by (simp add: l(2))
qed

section \<open>The runners\<close>

definition run_one :: "pystr \<Rightarrow> real \<times> real list \<Rightarrow> nat \<Rightarrow> nat \<Rightarrow> pystr \<Rightarrow> BenchResult" where
  "run_one label measured n shards notes =
     (case measured of (elapsed, latencies) \<Rightarrow>
       (case percentiles_ms latencies of (p50, p99, p999) \<Rightarrow>
         \<lparr>br_label = label, br_total_records = n, br_elapsed_s = elapsed,
          br_throughput_rps = (if 0 < elapsed then real n / elapsed else 0), br_p50_ms = p50, br_p99_ms = p99, br_p999_ms = p999,
          br_shards = shards, br_notes = notes\<rparr>))"

definition failed_row :: "pystr \<Rightarrow> pystr \<Rightarrow> nat \<Rightarrow> nat \<Rightarrow> BenchResult" where
  "failed_row label exc_repr n shards =
     \<lparr>br_label = label, br_total_records = n, br_elapsed_s = 0, br_throughput_rps = 0, br_p50_ms = 0, br_p99_ms = 0, br_p999_ms = 0,
      br_shards = shards, br_notes = take 80 (lit ''FAILED: '' @ exc_repr)\<rparr>"

text \<open>A variant is its label, what running it gives, and its number of records.\<close>

type_synonym variant = "pystr \<times> (pyerr + real \<times> real list) \<times> nat"

definition variant_row :: "(pyerr \<Rightarrow> pystr) \<Rightarrow> nat \<Rightarrow> variant \<Rightarrow> BenchResult" where
  "variant_row repr shards v =
     (case v of (label, res, n) \<Rightarrow>
       (case res of Inr measured \<Rightarrow> run_one label measured n shards [] | Inl e \<Rightarrow> failed_row label (repr e) n shards))"

text \<open>The variants of the two benchmarks.  Starting a client for a variant does not raise.  \<open>None\<close> when the polling loop of the fire-and-forget variant never
  ends.\<close>

definition N_AIOKPL :: nat where "N_AIOKPL = 20000"
definition N_BOTO3_RAW :: nat where "N_BOTO3_RAW = 2000"
definition N_BOTO3_AGG :: nat where "N_BOTO3_AGG = 10000"
definition N_LAT :: nat where "N_LAT = 1000"
definition N_BOTO3 :: nat where "N_BOTO3 = 1000"

record ('g, 'r) variant_env =
  va_run :: "nat \<Rightarrow> run_env"
  va_put :: "nat \<Rightarrow> put_fn"
  va_clock :: "nat \<Rightarrow> nat \<Rightarrow> real"
  va_sub_at :: "nat \<Rightarrow> nat \<Rightarrow> real"
  va_lib :: "('g, 'r) agg_lib"

definition throughput_variants :: "('g, 'r) variant_env \<Rightarrow> variant list option" where
  "throughput_variants va =
     (case aiokpl_fire_and_forget (va_run va 1) N_AIOKPL of
        None \<Rightarrow> None
      | Some forget \<Rightarrow> Some
          [(lit ''aiokpl async agg=on (confirmed)'', aiokpl_async (va_run va 0) N_AIOKPL, N_AIOKPL),
           (lit ''aiokpl async agg=on (fire-and-forget)'', forget, N_AIOKPL),
           (lit ''aiokpl async agg=off'', aiokpl_async (va_run va 2) N_AIOKPL, N_AIOKPL),
           (lit ''aiokpl sync agg=on'', aiokpl_sync (va_run va 3) N_AIOKPL, N_AIOKPL),
           (lit ''boto3 put_records'', snd (boto3_raw (va_put va 4) (va_clock va 4) N_BOTO3_RAW), N_BOTO3_RAW),
           (lit ''aws-kinesis-agg + boto3'', snd (boto3_kinesis_agg (va_lib va) (va_put va 5) (va_clock va 5) N_BOTO3_AGG), N_BOTO3_AGG)])"

definition latency_variants :: "('g, 'r) variant_env \<Rightarrow> real \<Rightarrow> real \<Rightarrow> variant list" where
  "latency_variants va t0 t1 =
     [(lit ''aiokpl async agg=on'', aiokpl_async (va_run va 0) N_LAT, N_LAT),
      (lit ''aiokpl async agg=off'', aiokpl_async (va_run va 1) N_LAT, N_LAT),
      (lit ''aiokpl sync agg=on'', aiokpl_sync (va_run va 2) N_LAT, N_LAT),
      (lit ''boto3 put_records'', snd (latency_boto3_raw (va_put va 3) (va_sub_at va 3) (va_clock va 3) t0 t1 N_BOTO3), N_BOTO3),
      (lit ''aws-kinesis-agg + boto3'',
         snd (latency_boto3_kinesis_agg (va_lib va) (va_put va 4) (va_sub_at va 4) (va_clock va 4) t0 t1 N_BOTO3), N_BOTO3)]"

text \<open>What the runners meet: what starting Docker and the client raise, what the loop that waits for the container did, the names of the streams, what creating a
  stream and waiting for it raise, and the variants.\<close>

record main_env =
  mn_docker :: "pyerr option"
  mn_healthy :: "bench_event list \<times> pyerr option"
  mn_client :: "pyerr option"
  mn_stream :: "nat \<Rightarrow> pystr"
  mn_create :: "nat \<Rightarrow> pyerr option"
  mn_active :: "nat \<Rightarrow> pyerr option"
  mn_variants :: "nat \<Rightarrow> variant list"
  mn_repr :: "pyerr \<Rightarrow> pystr"

type_synonym 'a traced = "bench_event list \<times> (pyerr + 'a)"

text \<open>One statement after another, and \<^verbatim>\<open>finally\<close>.\<close>

definition action :: "bench_event \<Rightarrow> pyerr option \<Rightarrow> unit traced" where
  "action ev raises = ([ev], case raises of Some e \<Rightarrow> Inl e | None \<Rightarrow> Inr ())"

definition followed :: "'a traced \<Rightarrow> ('a \<Rightarrow> 'b traced) \<Rightarrow> 'b traced" where
  "followed m k = (case m of (evs, Inl e) \<Rightarrow> (evs, Inl e) | (evs, Inr x) \<Rightarrow> (evs @ fst (k x), snd (k x)))"

definition finally_do :: "'a traced \<Rightarrow> bench_event \<Rightarrow> 'a traced" where
  "finally_do m ev = (fst m @ [ev], snd m)"

definition raised_or :: "pyerr option \<Rightarrow> 'a traced \<Rightarrow> 'a traced" where
  "raised_or raises k = (case raises of Some e \<Rightarrow> ([], Inl e) | None \<Rightarrow> k)"

definition spin_up_kinesis_mock :: "main_env \<Rightarrow> unit traced" where
  "spin_up_kinesis_mock env =
     raised_or (mn_docker env)
       (followed (action StartContainer None)
         (\<lambda>_. (fst (mn_healthy env), case snd (mn_healthy env) of Some e \<Rightarrow> Inl e | None \<Rightarrow> Inr ())))"

definition ready_stream :: "main_env \<Rightarrow> nat \<Rightarrow> unit traced" where
  "ready_stream env shards =
     followed (action (CreateStream (mn_stream env shards) shards) (mn_create env shards)) (\<lambda>_. raised_or (mn_active env shards) ([], Inr ()))"

text \<open>An exception of a variant becomes a row of the table.\<close>

definition run_variants :: "main_env \<Rightarrow> nat \<Rightarrow> BenchResult list traced" where
  "run_variants env shards =
     (let vs = mn_variants env shards in (map (\<lambda>v. RunVariant (fst v)) vs, Inr (map (variant_row (mn_repr env) shards) vs)))"

fun shard_loop :: "main_env \<Rightarrow> nat list \<Rightarrow> BenchResult list \<Rightarrow> BenchResult list traced" where
  "shard_loop env [] rows = ([], Inr rows)"
| "shard_loop env (shards # rest) rows =
     followed (ready_stream env shards)
       (\<lambda>_. followed (finally_do (run_variants env shards) (DeleteStream (mn_stream env shards)))
         (\<lambda>more. shard_loop env rest (rows @ more)))"

definition bench_main :: "main_env \<Rightarrow> nat list \<Rightarrow> BenchResult list traced" where
  "bench_main env counts =
     followed (spin_up_kinesis_mock env)
       (\<lambda>_. followed (finally_do (raised_or (mn_client env) (shard_loop env counts [])) StopContainer)
         (\<lambda>rows. ([PrintTable, SaveResults], Inr rows)))"

definition SHARD_COUNTS :: "nat list" where "SHARD_COUNTS = [1]"

definition throughput_main :: "main_env \<Rightarrow> BenchResult list traced" where
  "throughput_main env = bench_main env SHARD_COUNTS"

definition SHARDS :: nat where "SHARDS = 2"

definition latency_main :: "main_env \<Rightarrow> BenchResult list traced" where
  "latency_main env = bench_main env [SHARDS]"

text \<open>The smoke test runs the variants until one raises.\<close>

fun smoke_variants :: "variant list \<Rightarrow> unit traced" where
  "smoke_variants [] = ([], Inr ())"
| "smoke_variants ((label, res, n) # vs) =
     followed (action (RunVariant label) (case res of Inl e \<Rightarrow> Some e | Inr _ \<Rightarrow> None)) (\<lambda>_. smoke_variants vs)"

definition smoke_main :: "main_env \<Rightarrow> unit traced" where
  "smoke_main env =
     followed (spin_up_kinesis_mock env)
       (\<lambda>_. finally_do
         (raised_or (mn_client env)
           (followed (ready_stream env 2)
             (\<lambda>_. finally_do (smoke_variants (mn_variants env 2)) (DeleteStream (mn_stream env 2)))))
         StopContainer)"

section \<open>Percentiles\<close>

lemma py_round_near: "of_int (py_round x) \<le> x + 1 / 2" "x - 1 / 2 \<le> of_int (py_round x)"
  unfolding py_round_def Let_def by (auto split: if_splits) linarith+

lemma py_round_mono: "x \<le> y \<Longrightarrow> py_round x \<le> py_round y"
proof -
  assume le: "x \<le> y"
  have b: "\<lfloor>z\<rfloor> \<le> py_round z \<and> py_round z \<le> \<lfloor>z\<rfloor> + 1" for z by (simp add: py_round_def Let_def)
  consider "\<lfloor>x\<rfloor> = \<lfloor>y\<rfloor>" | "\<lfloor>x\<rfloor> + 1 \<le> \<lfloor>y\<rfloor>" using floor_mono [OF le] by linarith
  then show ?thesis
  proof cases
    case 1
    then show ?thesis using le by (auto simp: py_round_def Let_def)
  next
    case 2
    then show ?thesis using b [of x] b [of y] by linarith
  qed
qed

definition pct_index :: "nat \<Rightarrow> real \<Rightarrow> nat" where
  "pct_index n p = nat (min (int n - 1) (max 0 (py_round (p * of_int (int n - 1)))))"

lemma pct_eq: "pct xs p = xs ! pct_index (length xs) p * 1000"
  by (simp add: pct_def pct_index_def Let_def)

lemma pct_index_less: "0 < n \<Longrightarrow> pct_index n p < n"
  by (simp add: pct_index_def)

lemma pct_index_mono: "0 < n \<Longrightarrow> p \<le> q \<Longrightarrow> pct_index n p \<le> pct_index n q"
proof -
  assume "0 < n" "p \<le> q"
  then have "p * of_int (int n - 1) \<le> q * of_int (int n - 1)" by (intro mult_right_mono) auto
  from py_round_mono [OF this] show ?thesis by (simp add: pct_index_def)
qed

lemma pct_index_near:
  assumes "0 < n" "0 \<le> p" "p \<le> 1"
  shows "p * (real n - 1) - 1 / 2 \<le> real (pct_index n p)" "real (pct_index n p) \<le> p * (real n - 1) + 1 / 2"
proof -
  define x where "x = p * (real n - 1)"
  have n: "1 \<le> real n" using assms(1) by simp
  have eq: "pct_index n p = nat (min (int n - 1) (max 0 (py_round x)))" by (simp add: pct_index_def x_def)
  have "0 \<le> x" "x \<le> real n - 1" unfolding x_def using assms n by (auto intro: mult_left_le_one_le)
  with py_round_near [of x] have "- 1 < real_of_int (py_round x)" "real_of_int (py_round x) < real n" by linarith+
  then have "0 \<le> py_round x" "py_round x \<le> int n - 1" by linarith+
  then have "real (pct_index n p) = of_int (py_round x)" by (simp add: eq min_def max_def)
  with py_round_near [of x] show "p * (real n - 1) - 1 / 2 \<le> real (pct_index n p)" "real (pct_index n p) \<le> p * (real n - 1) + 1 / 2"
    unfolding x_def by linarith+
qed

text \<open>In a sorted list, the elements up to an index are at most the one there, and those from it on at least.\<close>

lemma sorted_rank:
  assumes "sorted (xs :: real list)" "i < length xs"
  shows "i + 1 \<le> length (filter (\<lambda>x. x \<le> xs ! i) xs)" "length xs - i \<le> length (filter (\<lambda>x. xs ! i \<le> x) xs)"
proof -
  have "filter (\<lambda>x. x \<le> xs ! i) (take (i + 1) xs) = take (i + 1) xs"
    using assms by (auto simp: filter_id_conv in_set_conv_nth less_Suc_eq_le intro!: sorted_nth_mono)
  then have "length (take (i + 1) xs) \<le> length (filter (\<lambda>x. x \<le> xs ! i) (take (i + 1) xs @ drop (i + 1) xs))"
    unfolding filter_append by simp
  then show "i + 1 \<le> length (filter (\<lambda>x. x \<le> xs ! i) xs)" using assms(2) by simp
  have "filter (\<lambda>x. xs ! i \<le> x) (drop i xs) = drop i xs"
    using assms by (auto simp: filter_id_conv in_set_conv_nth intro!: sorted_nth_mono)
  then have "length (drop i xs) \<le> length (filter (\<lambda>x. xs ! i \<le> x) (take i xs @ drop i xs))"
    unfolding filter_append by simp
  then show "length xs - i \<le> length (filter (\<lambda>x. xs ! i \<le> x) xs)" by simp
qed

lemma filter_length_sort: "length (filter P (sort xs)) = length (filter P xs)" for xs :: "real list"
  by (metis mset_filter mset_sort size_mset)

lemma pct_rank:
  assumes "xs \<noteq> []" "0 \<le> p" "p \<le> 1"
  shows "p * (real (length xs) - 1) + 1 / 2 \<le> real (length (filter (\<lambda>x. x * 1000 \<le> pct (sort xs) p) xs))"
    and "(1 - p) * (real (length xs) - 1) + 1 / 2 \<le> real (length (filter (\<lambda>x. pct (sort xs) p \<le> x * 1000) xs))"
    and "pct (sort xs) p \<in> (\<lambda>x. x * 1000) ` set xs"
proof -
  let ?n = "length xs" and ?i = "pct_index (length xs) p" and ?s = "sort xs"
  have n: "0 < ?n" using assms(1) by simp
  have i: "?i < length ?s" using pct_index_less [OF n] by simp
  have eq: "pct ?s p = ?s ! ?i * 1000" by (simp add: pct_eq)
  note near = pct_index_near [OF n assms(2,3)]
  have "?i + 1 \<le> length (filter (\<lambda>x. x \<le> ?s ! ?i) xs)" "?n - ?i \<le> length (filter (\<lambda>x. ?s ! ?i \<le> x) xs)"
    using sorted_rank [OF sorted_sort i] by (simp_all add: filter_length_sort)
  then have r: "real ?i + 1 \<le> real (length (filter (\<lambda>x. x \<le> ?s ! ?i) xs))" "real ?n - real ?i \<le> real (length (filter (\<lambda>x. ?s ! ?i \<le> x) xs))"
    using i by simp_all
  from r(1) near(1) show "p * (real ?n - 1) + 1 / 2 \<le> real (length (filter (\<lambda>x. x * 1000 \<le> pct ?s p) xs))" unfolding eq by simp
  have "(1 - p) * (real ?n - 1) = real ?n - 1 - p * (real ?n - 1)" by algebra
  with r(2) near(2) show "(1 - p) * (real ?n - 1) + 1 / 2 \<le> real (length (filter (\<lambda>x. pct ?s p \<le> x * 1000) xs))" unfolding eq by simp
  show "pct ?s p \<in> (\<lambda>x. x * 1000) ` set xs" unfolding eq using nth_mem [OF i] by simp
qed

lemma pct_mono:
  assumes "xs \<noteq> []" "p \<le> q"
  shows "pct (sort xs) p \<le> pct (sort xs) q"
proof -
  have "0 < length xs" using assms(1) by simp
  from pct_index_mono [OF this assms(2)] pct_index_less [OF this, of q] show ?thesis
    by (simp add: pct_eq sorted_nth_mono)
qed

section \<open>The requests that are made\<close>

definition never_raises :: "put_fn \<Rightarrow> bool" where
  "never_raises put \<longleftrightarrow> (\<forall>entries. put entries = None)"

definition sized_calls :: "nat \<Rightarrow> 'a list list \<Rightarrow> bool" where
  "sized_calls m calls \<longleftrightarrow> list_all (\<lambda>c. 1 \<le> length c \<and> length c \<le> m) calls"

lemma sized_calls_simps [simp]:
  "sized_calls m []" "sized_calls m (c # cs) \<longleftrightarrow> 1 \<le> length c \<and> length c \<le> m \<and> sized_calls m cs"
  by (simp_all add: sized_calls_def)

lemma chunks_all: "0 < sz \<Longrightarrow> concat (chunks xs sz i) = drop i xs \<and> sized_calls sz (chunks xs sz i)"
proof (induction xs sz i rule: chunks.induct)
  case (1 xs sz i)
  show ?case
  proof (cases "i < length xs")
    case True
    have "take sz (drop i xs) @ drop (i + sz) xs = drop i xs" by (metis add.commute append_take_drop_id drop_drop)
    with 1 True show ?thesis by (simp add: chunks.simps [of _ _ i])
  qed (simp add: chunks.simps [of _ _ i])
qed

lemma raw_loop_all:
  "never_raises put \<Longrightarrow> raw_loop put clock (Suc k) (clock k) lats bs = (bs, Inr (lats @ concat (map (\<lambda>j. replicate (length (bs ! j))
     (clock (Suc (k + j)) - clock (k + j))) [0..<length bs])))"
proof (induction bs arbitrary: k lats)
  case (Cons b bs)
  with Cons.IH [OF Cons.prems, of "Suc k"] Cons.prems show ?case
    by (simp add: never_raises_def Let_def map_upt_Suc del: upt_Suc)
qed simp

lemma map_upt_split: "a \<le> b \<Longrightarrow> b \<le> c \<Longrightarrow> map f [a..<b] @ map f [b..<c] = map f [a..<c]"
  using upt_add_eq_append [of a b "c - b"] by (simp flip: map_append)

text \<open>The loop with one request per \<open>BATCH\<close> records: after \<open>k\<close> requests and up to record \<open>i\<close>.\<close>

definition raw_entry :: "nat \<Rightarrow> entry" where
  "raw_entry j = plain_entry (record_key j, payload)"

lemma div_batch: "k * BATCH \<le> j \<Longrightarrow> j < (k + 1) * BATCH \<Longrightarrow> j div BATCH = k"
  by (intro div_nat_eqI) (auto simp: mult.commute)

lemma latency_raw_loop_Nil:
  assumes "never_raises put" "k * BATCH \<le> n" "n < (k + 1) * BATCH"
    "\<And>j. k * BATCH \<le> j \<Longrightarrow> j < n \<Longrightarrow> F j = done_at k - sub_at j"
  shows "\<exists>calls. latency_raw_loop put sub_at done_at k (map raw_entry [k * BATCH..<n]) [k * BATCH..<n] (map F [0..<k * BATCH]) []
     = (calls, Inr (map F [0..<n])) \<and> concat calls = map raw_entry [k * BATCH..<n] \<and> sized_calls BATCH calls"
proof (cases "k * BATCH = n")
  case False
  have F: "map (\<lambda>j. done_at k - sub_at j) [k * BATCH..<n] = map F [k * BATCH..<n]" using assms(4) by simp
  have app: "map F [0..<k * BATCH] @ map F [k * BATCH..<n] = map F [0..<n]" using assms(2) by (intro map_upt_split) simp_all
  have len: "1 \<le> n - k * BATCH" "n - k * BATCH \<le> BATCH" using assms(2,3) False by (simp_all add: le_diff_conv)
  have "latency_raw_loop put sub_at done_at k (map raw_entry [k * BATCH..<n]) [k * BATCH..<n] (map F [0..<k * BATCH]) []
      = ([map raw_entry [k * BATCH..<n]], Inr (map F [0..<n]))"
    using assms(1,2) False unfolding app [symmetric] F [symmetric] by (simp add: never_raises_def)
  with len show ?thesis by simp
qed simp

lemma latency_raw_loop_all:
  assumes "never_raises put" "\<And>j. F j = done_at (j div BATCH) - sub_at j"
  shows "k * BATCH \<le> i \<Longrightarrow> i < (k + 1) * BATCH \<Longrightarrow> i \<le> n \<Longrightarrow>
   \<exists>calls. latency_raw_loop put sub_at done_at k (map raw_entry [k * BATCH..<i]) [k * BATCH..<i] (map F [0..<k * BATCH]) [i..<n]
     = (calls, Inr (map F [0..<n])) \<and> concat calls = map raw_entry [k * BATCH..<n] \<and> sized_calls BATCH calls"
proof (induction "n - i" arbitrary: k i)
  case 0
  have F: "F j = done_at k - sub_at j" if "k * BATCH \<le> j" "j < n" for j
    using that 0 div_batch [of k j] by (simp add: assms(2))
  have "i = n" using 0 by simp
  then show ?case using latency_raw_loop_Nil [of put k n F done_at sub_at] assms(1) 0(2,3) F by simp
next
  case (Suc d)
  have i: "i < n" "[i..<n] = i # [Suc i..<n]" "d = n - Suc i" using Suc.hyps(2) by (auto simp: upt_conv_Cons)
  have snoc: "map f [k * BATCH..<i] @ [f i] = map f [k * BATCH..<Suc i]" for f :: "nat \<Rightarrow> 'b" using Suc.prems(1) by simp
  note snoc' = snoc [of raw_entry] snoc [of "\<lambda>j. j", simplified map_ident]
  have step: "latency_raw_loop put sub_at done_at k (map raw_entry [k * BATCH..<i]) [k * BATCH..<i] lats [i..<n] =
     (if BATCH \<le> Suc i - k * BATCH
      then case latency_raw_loop put sub_at done_at (k + 1) [] [] (lats @ map (\<lambda>j. done_at k - sub_at j) [k * BATCH..<Suc i]) [Suc i..<n] of
        (calls, r) \<Rightarrow> (map raw_entry [k * BATCH..<Suc i] # calls, r)
      else latency_raw_loop put sub_at done_at k (map raw_entry [k * BATCH..<Suc i]) [k * BATCH..<Suc i] lats [Suc i..<n])" for lats
    unfolding i(2) latency_raw_loop.simps(2) Let_def snoc' raw_entry_def [symmetric]
    using assms(1) by (simp add: never_raises_def del: upt_Suc)
  show ?case
  proof (cases "Suc i = (k + 1) * BATCH")
    case False
    then have "\<not> BATCH \<le> Suc i - k * BATCH" using Suc.prems by simp
    then show ?thesis unfolding step using Suc.hyps(1) [OF i(3), of k] Suc.prems i(1) False by simp
  next
    case True
    have "F j = done_at k - sub_at j" if "k * BATCH \<le> j" "j < Suc i" for j
      using that True div_batch [of k j] by (simp add: assms(2))
    then have F: "map (\<lambda>j. done_at k - sub_at j) [k * BATCH..<Suc i] = map F [k * BATCH..<Suc i]" by (intro map_cong) auto
    have app: "map F [0..<k * BATCH] @ map F [k * BATCH..<Suc i] = map F [0..<(k + 1) * BATCH]"
      using Suc.prems(1) unfolding True [symmetric] by (intro map_upt_split) simp_all
    have B: "0 < BATCH" by (simp add: BATCH_def)
    have pre: "(k + 1) * BATCH \<le> Suc i" "Suc i < (k + 1 + 1) * BATCH" "Suc i \<le> n" using True B i(1) by simp_all
    from Suc.hyps(1) [OF i(3) pre] obtain calls where calls:
      "latency_raw_loop put sub_at done_at (k + 1) [] [] (map F [0..<(k + 1) * BATCH]) [Suc i..<n] = (calls, Inr (map F [0..<n]))"
      "concat calls = map raw_entry [(k + 1) * BATCH..<n]" "sized_calls BATCH calls" unfolding True by auto
    have full: "Suc i - k * BATCH = BATCH" using True by simp
    have "map raw_entry [k * BATCH..<Suc i] @ map raw_entry [(k + 1) * BATCH..<n] = map raw_entry [k * BATCH..<n]"
      using i(1) Suc.prems(1) unfolding True [symmetric] by (intro map_upt_split) simp_all
    then show ?thesis unfolding step full F app calls(1) using calls(2,3) B full by (simp del: upt_Suc)
  qed
qed

section \<open>The contract of the aggregator\<close>

text \<open>What \<^verbatim>\<open>aws_kinesis_agg\<close> documents: a record is added to the current aggregate, or the aggregate is full, is returned, and
  the record starts a new one; clearing returns the current aggregate if it holds anything.\<close>

locale record_aggregator =
  fixes lib :: "('g, 'r) agg_lib" and holds :: "'g \<Rightarrow> (pystr \<times> byte list) list" and unpack :: "'r \<Rightarrow> (pystr \<times> byte list) list"
  assumes new_law: "holds (al_new lib) = []"
    and add_law: "al_add lib pk d g = (out, g') \<Longrightarrow>
       (case out of None \<Rightarrow> holds g' = holds g @ [(pk, d)] | Some r \<Rightarrow> holds g \<noteq> [] \<and> unpack r = holds g \<and> holds g' = [(pk, d)])"
    and clear_law: "case al_clear lib g of None \<Rightarrow> holds g = [] | Some r \<Rightarrow> holds g \<noteq> [] \<and> unpack r = holds g"
begin

lemma flush_agg_record_map: "flush_agg_record lib out (map (agg_entry lib) rs) = map (agg_entry lib) (rs @ (case out of None \<Rightarrow> [] | Some r \<Rightarrow> [r]))"
  by (simp add: flush_agg_record_def split: option.splits)

lemma agg_loop_all:
  assumes "never_raises put"
  shows "length rs < 500 \<Longrightarrow> \<exists>rss k' ls. agg_loop lib put clock k t lats g (map (agg_entry lib) rs) xs = (map (map (agg_entry lib)) rss, Inr (k', ls))
    \<and> concat (map unpack (concat rss)) = concat (map unpack rs) @ holds g @ xs \<and> sized_calls 500 rss"
proof (induction xs arbitrary: k t lats g rs)
  case Nil
  define rs' where "rs' = rs @ (case al_clear lib g of None \<Rightarrow> [] | Some r \<Rightarrow> [r])"
  have un: "concat (map unpack rs') = concat (map unpack rs) @ holds g" using clear_law [of g] by (simp add: rs'_def split: option.splits)
  have len: "length rs' \<le> 500" using Nil by (simp add: rs'_def split: option.splits)
  have fl: "flush_agg_record lib (al_clear lib g) (map (agg_entry lib) rs) = map (agg_entry lib) rs'"
    by (simp only: flush_agg_record_map rs'_def)
  show ?case
  proof (cases "rs' = []")
    case True
    then show ?thesis using un by (intro exI [of _ "[]"]) (simp add: fl)
  next
    case False
    then show ?thesis using un len assms by (intro exI [of _ "[rs']"]) (simp add: fl never_raises_def Suc_le_eq)
  qed
next
  case (Cons x xs)
  obtain pk d where x: "x = (pk, d)" by fastforce
  obtain out g' where add: "al_add lib pk d g = (out, g')" by fastforce
  define rs' where "rs' = rs @ (case out of None \<Rightarrow> [] | Some r \<Rightarrow> [r])"
  have un: "concat (map unpack rs') @ holds g' = concat (map unpack rs) @ holds g @ [x]"
    using add_law [OF add] x by (simp add: rs'_def split: option.splits)
  have len: "length rs' \<le> 500" using Cons.prems by (simp add: rs'_def split: option.splits)
  have fl: "flush_agg_record lib out (map (agg_entry lib) rs) = map (agg_entry lib) rs'" by (simp only: flush_agg_record_map rs'_def)
  show ?case
  proof (cases "500 \<le> length rs'")
    case True
    from Cons.IH [of "[]" "k + 1" "clock k" "lats @ replicate (length rs') (clock k - t)" g'] obtain rss k' ls where
      "agg_loop lib put clock (k + 1) (clock k) (lats @ replicate (length rs') (clock k - t)) g' [] xs = (map (map (agg_entry lib)) rss, Inr (k', ls))"
      "concat (map unpack (concat rss)) = holds g' @ xs" "sized_calls 500 rss" by auto
    moreover have "put (map (agg_entry lib) rs') = None" using assms by (simp add: never_raises_def)
    ultimately show ?thesis using True len un x add fl
      by (intro exI [of _ "rs' # rss"]) (simp flip: append_assoc)
  next
    case False
    then have "length rs' < 500" by simp
    from Cons.IH [OF this, of k t lats g'] obtain rss k' ls where
      "agg_loop lib put clock k t lats g' (map (agg_entry lib) rs') xs = (map (map (agg_entry lib)) rss, Inr (k', ls))"
      "concat (map unpack (concat rss)) = concat (map unpack rs') @ holds g' @ xs" "sized_calls 500 rss" by auto
    moreover have "concat (map unpack rs') @ holds g' @ xs = concat (map unpack rs) @ holds g @ x # xs" using un by (metis append.assoc append_Cons append_Nil)
    ultimately show ?thesis using False x add fl by (intro exI [of _ rss]) simp
  qed
qed

text \<open>The latency benchmark notes a record's index before it adds the record.  When the record does not fit, the entry that is closed is credited with it,
  although it is in the next one.\<close>

lemma close_agg_credits_extra:
  assumes "al_add lib pk d g = (Some r, g')" "length cur = length (holds g)"
    "close_agg lib (Some r) (entries, indices, cur @ [i]) = (entries', indices', cur')"
  shows "length (last indices') = length (unpack r) + 1 \<and> length cur' + 1 = length (holds g')"
  using assms(2,3) add_law [OF assms(1)] by (auto simp: close_agg_def)

end

text \<open>An aggregator made of the library's own encoder, which closes an aggregate when the next record would take its keys and data over \<open>m\<close> bytes, keeps these laws.\<close>

definition as_user :: "pystr \<times> byte list \<Rightarrow> UserRecord" where
  "as_user r = \<lparr>partition_key = fst r, data = snd r, explicit_hash_key = None, tags = []\<rparr>"

definition bytes_of :: "(pystr \<times> byte list) list \<Rightarrow> nat" where
  "bytes_of rs = (\<Sum>(pk, d)\<leftarrow>rs. length pk + length d)"

definition codec_lib :: "nat \<Rightarrow> ((pystr \<times> byte list) list, (pystr \<times> byte list) list) agg_lib" where
  "codec_lib m = \<lparr>al_new = [],
     al_add = (\<lambda>pk d g. if g = [] \<or> bytes_of (g @ [(pk, d)]) \<le> m then (None, g @ [(pk, d)]) else (Some g, [(pk, d)])),
     al_clear = (\<lambda>g. if g = [] then None else Some g),
     al_contents = (\<lambda>r. (fst (hd r), None, case encode_aggregated (map as_user r) of Inr blob \<Rightarrow> blob | Inl e \<Rightarrow> []))\<rparr>"

interpretation codec: record_aggregator "codec_lib m" "\<lambda>g. g" "\<lambda>r. r" for m
  by unfold_locales (auto simp: codec_lib_def split: if_splits option.splits)

section \<open>Properties\<close>

text \<open>C39.  The reported percentiles are what they are called.  Of a non-empty list of latencies, whatever its order: each is one of the latencies, in milliseconds; they are
  ordered; and the \<open>p\<close>-th has its rank: of \<open>n\<close> latencies at least \<open>p (n - 1) + 1/2\<close> are at most it and at least \<open>(1 - p) (n - 1) + 1/2\<close> are at least it.\<close>

theorem percentiles_rank:
  assumes "xs \<noteq> []" "percentiles_ms xs = (p50, p99, p999)" "(p, v) \<in> {(50 / 100, p50), (99 / 100, p99), (999 / 1000, p999)}"
  shows "p50 \<le> p99 \<and> p99 \<le> p999 \<and> v \<in> (\<lambda>x. x * 1000) ` set xs
    \<and> p * (real (length xs) - 1) + 1 / 2 \<le> real (length (filter (\<lambda>x. x * 1000 \<le> v) xs))
    \<and> (1 - p) * (real (length xs) - 1) + 1 / 2 \<le> real (length (filter (\<lambda>x. v \<le> x * 1000) xs))
    \<and> (mset ys = mset xs \<longrightarrow> percentiles_ms ys = percentiles_ms xs)"
proof -
  have v: "p50 = pct (sort xs) (50 / 100)" "p99 = pct (sort xs) (99 / 100)" "p999 = pct (sort xs) (999 / 1000)"
    using assms(1,2) by (simp_all add: percentiles_ms_def Let_def)
  have "(p, v) = (50 / 100, p50) \<or> (p, v) = (99 / 100, p99) \<or> (p, v) = (999 / 1000, p999)" using assms(3) by blast
  then have p: "v = pct (sort xs) p" "0 \<le> p" "p \<le> 1" using v by (elim disjE; force)+
  have "p50 \<le> p99" "p99 \<le> p999" unfolding v by (rule pct_mono [OF assms(1)], simp)+
  moreover have "percentiles_ms ys = percentiles_ms xs" if "mset ys = mset xs"
  proof -
    have "sort ys = sort xs" using that by (metis properties_for_sort sorted_sort mset_sort)
    moreover have "ys \<noteq> []" using that assms(1) by auto
    ultimately show ?thesis using assms(1) by (simp add: percentiles_ms_def)
  qed
  ultimately show ?thesis using pct_rank [OF assms(1) p(2,3)] unfolding p(1) by blast
qed

theorem percentiles_rank_witness:
  "\<exists>p50 p99 p999. percentiles_ms [3, 1, 2] = (p50, p99, p999) \<and> p50 \<le> p99 \<and> p50 \<in> {1000, 2000, 3000}"
proof -
  obtain p50 p99 p999 where p: "percentiles_ms [3, 1, 2] = (p50, p99, p999)" using prod_cases3 by blast
  from percentiles_rank [OF _ p, of "50 / 100" p50] p show ?thesis by auto
qed

text \<open>The two plain variants measure every record.  When no request raises, both send exactly the records of the benchmark, each once and in order, in requests of at
  least one and at most the documented number of records.  The throughput variant gives each record the time from the request before its own to its own; the latency
  variant gives record \<open>i\<close> the time from its own submission to the request it was in.\<close>

theorem plain_variants_measure:
  assumes "never_raises put"
  shows "(\<exists>calls elapsed. boto3_raw put clock n = (calls, Inr (elapsed, concat (map (\<lambda>j. replicate (length (calls ! j)) (clock (Suc j) - clock j)) [0..<length calls])))
        \<and> concat calls = map plain_entry (make_records n) \<and> sized_calls 500 calls)
    \<and> (\<exists>calls. latency_boto3_raw put sub_at done_at t0 t1 n = (calls, Inr (t1 - t0, map (\<lambda>i. done_at (i div 100) - sub_at i) [0..<n]))
        \<and> concat calls = map plain_entry (make_records n) \<and> sized_calls 100 calls)"
proof -
  let ?bs = "chunks (map plain_entry (make_records n)) 500 0"
  have "boto3_raw put clock n = (?bs, Inr (clock (length ?bs + 1) - clock 0,
      concat (map (\<lambda>j. replicate (length (?bs ! j)) (clock (Suc j) - clock j)) [0..<length ?bs])))"
    using raw_loop_all [OF assms, of clock 0 "[]" ?bs] by (simp add: boto3_raw_def Let_def)
  moreover have "concat ?bs = map plain_entry (make_records n) \<and> sized_calls 500 ?bs"
    using chunks_all [of 500 "map plain_entry (make_records n)" 0] by simp
  moreover have "\<exists>calls. latency_boto3_raw put sub_at done_at t0 t1 n = (calls, Inr (t1 - t0, map (\<lambda>i. done_at (i div 100) - sub_at i) [0..<n]))
        \<and> concat calls = map plain_entry (make_records n) \<and> sized_calls 100 calls"
    using latency_raw_loop_all [OF assms, of "\<lambda>i. done_at (i div 100) - sub_at i" done_at sub_at 0 0 n]
    by (auto simp: latency_boto3_raw_def BATCH_def make_records_def raw_entry_def comp_def)
  ultimately show ?thesis by blast
qed

theorem plain_variants_measure_witness:
  "length (fst (boto3_raw (\<lambda>_. None) real 3)) \<le> 3 \<and> concat (fst (boto3_raw (\<lambda>_. None) real 3)) = map plain_entry (make_records 3)"
proof -
  have "never_raises (\<lambda>_. None)" by (simp add: never_raises_def)
  from plain_variants_measure [OF this, of real 3 real real 0 0] obtain calls r where "boto3_raw (\<lambda>_. None) real 3 = (calls, r)"
      and c: "concat calls = map plain_entry (make_records 3)" "sized_calls 500 calls" by metis
  then have f: "fst (boto3_raw (\<lambda>_. None) real 3) = calls" by simp
  have "length cs \<le> length (concat cs)" if "sized_calls 500 cs" for cs :: "entry list list"
    using that by (induction cs) auto
  from this [OF c(2)] c f show ?thesis by (simp add: make_records_def)
qed

text \<open>The aggregating variant loses nothing.  With an aggregator that keeps to its documentation and a service that does not raise, the entries posted are aggregates that
  unpack to exactly the records of the benchmark, each once and in order, in requests of one to five hundred entries; and one latency is reported per record.\<close>

theorem aggregating_variant_complete:
  assumes "record_aggregator lib holds unpack" "never_raises put"
  shows "\<exists>rss elapsed latencies. boto3_kinesis_agg lib put clock n = (map (map (agg_entry lib)) rss, Inr (elapsed, latencies))
    \<and> concat (map unpack (concat rss)) = make_records n \<and> sized_calls 500 rss \<and> length latencies = n"
proof -
  from record_aggregator.agg_loop_all [OF assms, of "[]" clock 1 "clock 0" "[]" "al_new lib" "make_records n"] obtain rss k ls where
    l: "agg_loop lib put clock 1 (clock 0) [] (al_new lib) [] (make_records n) = (map (map (agg_entry lib)) rss, Inr (k, ls))"
      "concat (map unpack (concat rss)) = make_records n" "sized_calls 500 rss"
    using record_aggregator.new_law [OF assms(1)] by auto
  then show ?thesis by (intro exI [of _ rss]) (auto simp: boto3_kinesis_agg_def Let_def)
qed

theorem aggregating_variant_complete_witness:
  "\<exists>rss. concat (concat rss) = make_records 7 \<and> fst (boto3_kinesis_agg (codec_lib 700) (\<lambda>_. None) real 7) = map (map (agg_entry (codec_lib 700))) rss"
proof -
  have "never_raises (\<lambda>_. None)" by (simp add: never_raises_def)
  from aggregating_variant_complete [OF codec.record_aggregator_axioms [of 700] this, of real 7] show ?thesis by auto
qed

section \<open>What the runners leave behind\<close>

text \<open>The world of a benchmark: is the container running, which streams were created and not deleted, and has a result file been written.  An event is illegal
  when it needs something that is not there, or the container is not gone when the results come.\<close>

type_synonym bench_world = "bool \<times> pystr list \<times> bool"

definition bench_step :: "bench_world \<Rightarrow> bench_event \<Rightarrow> bench_world option" where
  "bench_step w ev =
     (case (w, ev) of
        ((False, [], False), StartContainer) \<Rightarrow> Some (True, [], False)
      | ((True, ss, saved), StopContainer) \<Rightarrow> Some (False, ss, saved)
      | ((True, ss, saved), CreateStream s n) \<Rightarrow> Some (True, s # ss, saved)
      | ((True, ss, saved), DeleteStream s) \<Rightarrow> if s \<in> set ss then Some (True, remove1 s ss, saved) else None
      | ((True, ss, saved), RunVariant l) \<Rightarrow> if ss = [] then None else Some (True, ss, saved)
      | ((False, ss, False), PrintTable) \<Rightarrow> Some (False, ss, False)
      | ((False, ss, False), SaveResults) \<Rightarrow> Some (False, ss, True)
      | _ \<Rightarrow> None)"

fun bench_steps :: "bench_world \<Rightarrow> bench_event list \<Rightarrow> bench_world option" where
  "bench_steps w [] = Some w"
| "bench_steps w (ev # evs) = (case bench_step w ev of None \<Rightarrow> None | Some w' \<Rightarrow> bench_steps w' evs)"

lemma bench_steps_append: "bench_steps w (xs @ ys) = (case bench_steps w xs of None \<Rightarrow> None | Some w' \<Rightarrow> bench_steps w' ys)"
  by (induction xs arbitrary: w) (auto split: option.splits)

lemma bench_step_simps [simp]:
  "bench_step (False, [], False) StartContainer = Some (True, [], False)"
  "bench_step (True, ss, saved) StopContainer = Some (False, ss, saved)"
  "bench_step (True, ss, saved) (CreateStream s n) = Some (True, s # ss, saved)"
  "bench_step (True, s # ss, saved) (DeleteStream s) = Some (True, ss, saved)"
  "bench_step (True, s # ss, saved) (RunVariant l) = Some (True, s # ss, saved)"
  "bench_step (False, ss, False) PrintTable = Some (False, ss, False)"
  "bench_step (False, ss, False) SaveResults = Some (False, ss, True)"
  by (simp_all add: bench_step_def split: list.split)

text \<open>A traced computation goes from one world to worlds that depend on its result.\<close>

definition leads :: "bench_world \<Rightarrow> 'a traced \<Rightarrow> (pyerr + 'a \<Rightarrow> bench_world \<Rightarrow> bool) \<Rightarrow> bool" where
  "leads w m Q \<longleftrightarrow> (\<exists>w'. bench_steps w (fst m) = Some w' \<and> Q (snd m) w')"

lemma leads_pure: "Q r w \<Longrightarrow> leads w ([], r) Q"
  by (simp add: leads_def)

lemma leads_followed:
  assumes "leads w m (\<lambda>r w'. case r of Inl e \<Rightarrow> Q (Inl e) w' | Inr x \<Rightarrow> leads w' (k x) Q)"
  shows "leads w (followed m k) Q"
  using assms by (cases m; cases "snd m") (auto simp: leads_def followed_def bench_steps_append)

lemma leads_finally: "leads w m (\<lambda>r w'. \<exists>w''. bench_step w' ev = Some w'' \<and> Q r w'') \<Longrightarrow> leads w (finally_do m ev) Q"
  by (auto simp: leads_def finally_do_def bench_steps_append)

lemma leads_conseq: "leads w m Q \<Longrightarrow> (\<And>r w'. Q r w' \<Longrightarrow> Q' r w') \<Longrightarrow> leads w m Q'"
  by (auto simp: leads_def)

lemma leads_delete:
  assumes "leads w m (\<lambda>r w'. \<exists>ss saved. w' = (True, s # ss, saved) \<and> Q r (True, ss, saved))"
  shows "leads w (finally_do m (DeleteStream s)) Q"
  by (intro leads_finally leads_conseq [OF assms]) auto

lemma leads_stop:
  assumes "leads w m (\<lambda>r (up, left, saved). up \<and> Q r (False, left, saved))"
  shows "leads w (finally_do m StopContainer) Q"
  by (intro leads_finally leads_conseq [OF assms]) auto

lemma leads_raised_or: "(\<And>e. raises = Some e \<Longrightarrow> Q (Inl e) w) \<Longrightarrow> (raises = None \<Longrightarrow> leads w m Q) \<Longrightarrow> leads w (raised_or raises m) Q"
  by (cases raises) (auto simp: leads_def raised_or_def)

lemma leads_action:
  "bench_step w ev = Some w' \<Longrightarrow> (\<And>e. raises = Some e \<Longrightarrow> Q (Inl e) w') \<Longrightarrow> (raises = None \<Longrightarrow> Q (Inr ()) w') \<Longrightarrow> leads w (action ev raises) Q"
  by (cases raises) (simp_all add: leads_def action_def)

lemma leads_runs:
  "Q r (True, s # ss, saved) \<Longrightarrow> leads (True, s # ss, saved) (map (\<lambda>v. RunVariant (f v)) vs, r) Q"
  by (induction vs) (simp_all add: leads_def)

text \<open>The loop that waits for the container stops it exactly when it raises.\<close>

definition healthy_ok :: "bench_event list \<times> pyerr option \<Rightarrow> bool" where
  "healthy_ok h \<longleftrightarrow> fst h = (if snd h = None then [] else [StopContainer])"

lemma wait_healthy_ok:
  assumes "wait_healthy status late i = Some h"
  shows "healthy_ok h"
proof (rule wait_healthy.raw_induct [where P = "\<lambda>status late i. healthy_ok", OF _ assms])
  fix wait :: "(nat \<Rightarrow> pyerr + nat) \<Rightarrow> (nat \<Rightarrow> bool) \<Rightarrow> nat \<Rightarrow> (bench_event list \<times> pyerr option) option" and status late i h
  assume IH: "\<And>status late i h. wait status late i = Some h \<Longrightarrow> healthy_ok h"
    and h: "(if late i then Some ([StopContainer], Some (RuntimeError ''kinesis-mock did not become healthy''))
      else case status i of Inl e \<Rightarrow> wait status late (i + 1) | Inr code \<Rightarrow> if code = 200 then Some ([], None) else wait status late (i + 1)) = Some h"
  show "healthy_ok h"
  proof (cases "wait status late (i + 1) = Some h")
    case False
    with h show ?thesis by (auto simp: healthy_ok_def split: if_splits sum.splits)
  qed (rule IH)
qed

lemma leads_ready_stream:
  assumes "\<And>e. Q (Inl e) (True, [mn_stream env shards], saved)" "Q (Inr ()) (True, [mn_stream env shards], saved)"
  shows "leads (True, [], saved) (ready_stream env shards) Q"
  unfolding ready_stream_def
  using assms by (intro leads_followed leads_action [where w' = "(True, [mn_stream env shards], saved)"]) (auto intro!: leads_raised_or leads_pure)

lemma leads_spin_up:
  assumes "healthy_ok (mn_healthy env)" "\<And>e. Q (Inl e) (False, [], False)" "Q (Inr ()) (True, [], False)"
  shows "leads (False, [], False) (spin_up_kinesis_mock env) Q"
proof -
  have "leads (True, [], False) (fst (mn_healthy env), case snd (mn_healthy env) of Some e \<Rightarrow> Inl e | None \<Rightarrow> Inr ()) Q"
    using assms by (auto simp: healthy_ok_def leads_def split: option.splits)
  then show ?thesis unfolding spin_up_kinesis_mock_def
    using assms(2) by (intro leads_raised_or leads_followed leads_action [where w' = "(True, [], False)"]) auto
qed

definition table_rows :: "main_env \<Rightarrow> nat list \<Rightarrow> BenchResult list" where
  "table_rows env counts = concat (map (\<lambda>shards. map (variant_row (mn_repr env) shards) (mn_variants env shards)) counts)"

lemma leads_shard_loop:
  "leads (True, [], False) (shard_loop env counts rows)
    (\<lambda>r (up, left, saved). up \<and> \<not> saved \<and> (case r of Inl e \<Rightarrow> length left \<le> 1 | Inr rs \<Rightarrow> left = [] \<and> rs = rows @ table_rows env counts))"
proof (induction counts arbitrary: rows)
  case Nil
  then show ?case by (simp add: leads_def table_rows_def)
next
  case (Cons shards rest)
  have more: "rs @ table_rows env (shards # rest) = (rs @ map (variant_row (mn_repr env) shards) (mn_variants env shards)) @ table_rows env rest" for rs
    by (simp add: table_rows_def)
  show ?case unfolding shard_loop.simps(2) run_variants_def Let_def more
    by (intro leads_followed leads_ready_stream) (use Cons.IH in \<open>auto intro!: leads_followed leads_finally leads_runs\<close>)
qed


definition demo_bench :: main_env where
  "demo_bench = \<lparr>mn_docker = None, mn_healthy = ([], None), mn_client = None, mn_stream = (\<lambda>n. lit ''bench''), mn_create = (\<lambda>_. None),
     mn_active = (\<lambda>n. if n = 1 then None else Some (RuntimeError ''stream never became ACTIVE'')),
     mn_variants = (\<lambda>_. [(lit ''fails'', Inl (ValueError ''x''), 10), (lit ''runs'', Inr (2, [1, 1]), 2)]), mn_repr = (\<lambda>_. lit ''ValueError'')\<rparr>"


text \<open>The measured producer never holds its caller up.  With the configuration of the benchmarks, in every state it can reach while at most \<open>n\<close> records have
  been put, the next \<open>put_record\<close> takes its slot at once: backpressure is not in the measurement.\<close>

theorem measured_put_never_waits:
  assumes "sorted_key_list ops pending_key" "prun ops (bench_config url n agg) t p" "length (results p) + length (starting p) \<le> n" "partition_key ur \<noteq> []"
  shows "\<exists>p'. put_record_enter stream ur p = Some (Inr p')"
proof -
  have "sane (bench_config url n agg)" by (simp add: sane_def bench_config_def config_default_def)
  note lq = pinv_prun [OF assms(1) this assms(2)]
  from lq(2) have p: "\<not> p_closed p" "handles_ok (handles_of (pipelines p)) (results p)"
    "semaphore p + length (starting p) + length (handles_of (pipelines p)) = n + 1000"
    by (simp_all add: limiter_queue.pinv_def [OF lq(1)] bench_config_def)
  have "set (handles_of (pipelines p)) \<subseteq> {..<length (results p)}" using p(2) by (auto simp: handles_ok_def)
  then have "length (handles_of (pipelines p)) \<le> length (results p)"
    using p(2) card_mono [of "{..<length (results p)}" "set (handles_of (pipelines p))"] by (simp add: handles_ok_def distinct_card)
  with p(3) assms(3) have "semaphore p \<noteq> 0" by linarith
  with p(1) assms(4) show ?thesis by (simp add: put_record_enter_def)
qed

theorem measured_put_never_waits_witness:
  "\<exists>p'. put_record_enter (lit ''s'') demo_ur
     (snd (producer_aenter None None (bench_config (lit ''http://mock'') 3 True) (producer_init (bench_config (lit ''http://mock'') 3 True) :: Pending list producer))) = Some (Inr p')"
proof -
  note run = prun.init [of demo_ops "bench_config (lit ''http://mock'') 3 True" 0]
  show ?thesis
    by (rule measured_put_never_waits [OF insort_list.sorted_key_list_axioms run]) (simp_all add: producer_aenter_def producer_init_def demo_ur_def)
qed

text \<open>The polling of a stream returns when the stream becomes active, and raises once the deadline has passed.\<close>

lemma wait_active_returns:
  assumes "\<And>j. i \<le> j \<Longrightarrow> j < k \<Longrightarrow> \<not> late j \<and> (\<exists>s. status j = Inr s \<and> s \<noteq> ACTIVE)" "i \<le> k" "late k \<or> (\<exists>e. status k = Inl e) \<or> status k = Inr ACTIVE"
  shows "wait_active status late i =
    Some (if late k then Some (RuntimeError ''stream never became ACTIVE'') else case status k of Inl e \<Rightarrow> Some e | Inr _ \<Rightarrow> None)"
  using assms(1,2)
proof (induction "k - i" arbitrary: i)
  case 0
  then have "i = k" by simp
  with assms(3) show ?case by (subst wait_active.simps) (auto split: sum.splits)
next
  case (Suc d)
  from Suc.hyps(2) have "d = k - (i + 1)" "i + 1 \<le> k" "i < k" by simp_all
  from Suc.prems(1) [of i] this(3) obtain s where s: "\<not> late i" "status i = Inr s" "s \<noteq> ACTIVE" by blast
  have "wait_active status late i = wait_active status late (i + 1)" using s by (subst wait_active.simps) simp
  then show ?case using Suc.hyps(1) [of "i + 1"] Suc.prems(1) \<open>d = k - (i + 1)\<close> \<open>i + 1 \<le> k\<close> by simp
qed

end
