(* ===== verification/Spec2Isabelle.thy ===== *)
theory Spec2Isabelle
  imports Md5_Vectors Shard_Map Sinks Sync Producer_Spec Producer_Drain Delivery Service Benchmarks
begin

text \<open>
  A verification development for aiokpl, an asynchronous producer library for Kinesis streams.

  \<^bold>\<open>The program.\<close>  A caller hands a record to the producer and gets an outcome that is resolved once the
  record has succeeded or failed for good.  Inside, one pipeline per stream: the aggregator packs records
  that are predicted for the same shard into batches, the limiter holds each shard to its rates, the
  collector packs batches into requests, the sender calls the service, and the retrier classifies every answer as
  final or as a reason to send the record round again.  A shard map, refreshed in the background, gives the
  predictions; a metrics manager collects observations and exports them to a sink; a facade serves callers
  without an event loop.

  \<^bold>\<open>Theories and sources\<close> (under \<^verbatim>\<open>src/aiokpl\<close>):
  \<^item> \<open>Prelude\<close>, \<open>Python_Str\<close>: exceptions as values of \<open>pyerr\<close> and sums, floats with infinities (a linear
    order), dictionaries as association lists in insertion order, bytes; strings as lists of code points,
    UTF-8, \<open>isdigit\<close> and \<open>int\<close>.
  \<^item> \<open>Md5\<close>, \<open>Md5_Vectors\<close>, \<open>Hashing\<close>: the hash function after RFC 1321 and \<^verbatim>\<open>hashing.py\<close>.
  \<^item> \<open>Aggregation\<close>, \<open>Aggregation_Roundtrip\<close>: \<^verbatim>\<open>aggregation.py\<close>, the encoder and decoder of aggregated records; round
    trip, integrity, totality and errors.
  \<^item> \<open>Token_Bucket\<close>: \<^verbatim>\<open>token_bucket.py\<close>; atomic debit, bounds, the rate limit.
  \<^item> \<open>Reducer\<close>: \<^verbatim>\<open>reducer.py\<close>, the deadline-driven batcher.  The \<open>Batch\<close> protocol is the locale \<open>batch_container\<close>;
    conservation, limits, order and timers are proved in it once, for runs of adds, flushes, timers and closing.
  \<^item> \<open>Aggregator\<close>, \<open>Collector\<close>: \<^verbatim>\<open>aggregator.py\<close> and \<^verbatim>\<open>collector.py\<close>; their batches interpret the locale.
  \<^item> \<open>Shard_Map\<close>: \<^verbatim>\<open>shard_map.py\<close>; parsing, paginated fetch, prediction, refresh with backoff, closed shards and their
    time to live, and the life cycle as an inductive run.
  \<^item> \<open>Limiter\<close>, \<open>Limiter_Flow\<close>: \<^verbatim>\<open>limiter.py\<close>.  The queue is a container of a third-party package: a parameter whose
    documented laws are the locale \<open>sorted_key_list\<close>, interpreted on a list kept sorted by insertion; the rate
    limit and the drain of one shard, and the conservation of batches over all shards.
  \<^item> \<open>Outcome\<close>: \<^verbatim>\<open>result.py\<close>, \<^verbatim>\<open>outcome.py\<close>.  \<open>Metrics\<close>, \<open>Sinks\<close>: \<^verbatim>\<open>metrics.py\<close> and \<^verbatim>\<open>sinks/\<close>; the window is exact, the
    contract of a sink is the locale \<open>metrics_sink\<close>, and the manager's upload loop and shutdown are followed through the errors of a sink.
  \<^item> \<open>Sender\<close>, \<open>Retrier\<close>: \<^verbatim>\<open>sender.py\<close>, \<^verbatim>\<open>retrier.py\<close>.  The client is a parameter of which nothing is assumed.  The effects of
    the retrier are a list in order; the documented classification table is the function \<open>classify\<close>, and \<open>handle\<close>
    is shown to execute it.
  \<^item> \<open>Pipeline\<close>, \<open>Producer\<close>: \<^verbatim>\<open>config.py\<close> and \<^verbatim>\<open>producer.py\<close>; the wiring and every callback, \<open>put_record\<close>, outcomes, backpressure,
    enter and exit.  A step \<open>pstep\<close> is a section between two \<open>await\<close>s of one task; a run takes steps of all tasks in any order.
  \<^item> \<open>Producer_Spec\<close>: what a caller sees of the producer, as a specification of seven kinds of steps on slots and outcomes; the locale
    \<open>forward_simulation\<close>, into which the producer is placed by a \<open>sublocale\<close>, carries facts about the specification over to the program.
  \<^item> \<open>Producer_Drain\<close>: a rank of the work that is left, lowered by every callback once the records' time to live is over; the producer can
    always be drained, and cannot go on for ever.
  \<^item> \<open>Delivery\<close>: the composition of aggregator, sender and retrier when the predictions agree with the service; the documented behaviour of
    the service is the hypothesis \<open>stores\<close>.
  \<^item> \<open>Sync\<close>: \<^verbatim>\<open>sync.py\<close>; outcomes seen from other threads, commands, the dispatcher, the polling flush, enter and exit.
  \<^item> \<open>Service\<close>: \<^verbatim>\<open>examples/fastapi_producer.py\<close>, a web service in front of one producer.  Its handlers and background tasks run interleaved with
    the producer; what clients are answered, that they are answered, and what the health endpoint reports follow from the producer's lemmas.
  \<^item> \<open>Benchmarks\<close>: \<^verbatim>\<open>benchmarks/\<close>; percentiles, the measured variants and the runners.  The third-party aggregator is a parameter whose documented
    laws are the locale \<open>record_aggregator\<close>, interpreted on one made of the library's own encoder; what the runners do is a trace.

  \<^bold>\<open>State and time.\<close>  A class with state is a record, a method a function from state to result and state; a
  section under a lock is one step.  Every reading of a clock is an argument, and so is every reading of the shard map by
  another component.  Tasks are modelled by what they will do next: timers are entries of a reducer, work
  of a pipeline is the list \<open>pl_work\<close>, from which a run picks in any order (more orders than the event loop would
  choose, so what holds in every run holds of the program).

  \<^bold>\<open>What is proved of the whole.\<close>  \<open>Producer\<close> puts the components' lemmas together: in every run no callback raises, every
  accepted record is in exactly one place of its pipeline with its own outcome, which is unresolved unless the caller gave it up, or its outcome is
  resolved, and the semaphore and the counter agree with that.  Every step refines the specification, so what a caller has been told is
  final.  From every reachable state all records can be finished, whatever the service answers, and after the time to live only
  boundedly many steps are possible.  The hypotheses on a run are that the
  strings of the records can be encoded, that the service answers with shard ids that can be read, and that a new
  object's identity differs from those of living ones.  The theory at hand adds the properties that relate components
  directly: the limiter's expiry is final for the retrier, and the two parsers of shard ids agree.

  \<^bold>\<open>Fuel and bounds.\<close>  The drain of a limiter is bounded by the length of its queue, and each turn that does not
  stop removes an element.  Decoders recurse on the position in the input.  The refresh task and the
  polling flush may run forever: the one takes the list of answers, the other is a partial function into \<open>option\<close>,
  and that they return is stated.  Python's floats are reals with infinities; rounding is not modelled.

  \<^bold>\<open>Not modelled.\<close>  The clients of AWS and of the metrics vendors (what creating, entering or calling one raises or answers is an argument),
  logging, sleeping as such, the blocking portal and its threads (whether leaving the portal returns is an argument; the calls of several
  threads are the sequence in which the dispatcher receives them), and the scheduling inside anyio; cancellation of a call in the
  middle of a callback, except where a lemma speaks of it; the web framework of the example (what it checks and parses of a request is written
  down from the declared fields) and the text of a float in JSON, a parameter; the printing of the benchmarks' table and files; the package's exports and
  the build and documentation scripts, which hold no logic of the library.
\<close>

section \<open>Properties that span components\<close>

text \<open>The result of a record that failed for good.\<close>

fun failed_for_good :: "work \<Rightarrow> bool" where
  "failed_for_good (Finish x r) \<longleftrightarrow> \<not> rr_success r \<and> rr_attempts r = attempts x
     \<and> error_code (last (attempts x)) = Some EXPIRED_ERROR_CODE"
| "failed_for_good _ \<longleftrightarrow> False"

lemma expired_executed:
  assumes "arrival_time x < te" "te + record_ttl rc \<le> now"
  shows "list_all failed_for_good (retrier_work (executed rc now out x (Again c m)))
    \<and> retrier_work (executed rc now out x (Again c m)) \<noteq> []"
  using assms by (simp add: executed_def Let_def failure_result_def failed_attempt_def)

text \<open>C12.  The limiter and the retrier agree on the time to live.  A batch was put into the limiter at \<open>te\<close>, after
  its records had arrived; the limiter expires it at \<open>te\<close> plus the configured time to live or later, and hands
  it to the retrier as a request error.  Then every one of its records finishes, as a failure whose last
  attempt is \<open>Expired\<close>; none goes round again.\<close>

theorem limiter_expiry_is_final:
  assumes "list_all (\<lambda>x. arrival_time x < te) (ab_items b)"
    "\<forall>i j. te + expiration (build_limiter_cfg cfg (pl_stream pl)) \<le> e_rclock e i j"
  shows "list_all failed_for_good (snd (fst (handle_expired cfg e b reason pl)))
    \<and> length (snd (fst (handle_expired cfg e b reason pl))) = length (ab_items b)
    \<and> fst (fst (handle_expired cfg e b reason pl)) = None"
proof -
  let ?rc = "build_retrier_cfg cfg (pl_stream pl)"
  let ?out = "expired_outcome (pl_stream pl) (e_now e) b reason"
  let ?m = "EXPIRED_ERROR_MESSAGE @ lit '': '' @ reason"
  have ttl: "te + record_ttl ?rc \<le> e_rclock e i j" for i j
    using assms(2) by (simp add: build_limiter_cfg_def limiter_cfg_of_def build_retrier_cfg_def retrier_cfg_of_def)
  have code: "EXPIRED_ERROR_CODE \<noteq> PROVISIONED_THROUGHPUT_EXCEEDED"
    by (simp add: EXPIRED_ERROR_CODE_def PROVISIONED_THROUGHPUT_EXCEEDED_def lit_def)
  have v: "verdicts (fst (handle ?rc (e_hashrange e) (e_rclock e) (e_inv_at e) ?out)) =
      map (\<lambda>(j, x). executed ?rc (e_rclock e 0 j) ?out x (Again EXPIRED_ERROR_CODE ?m)) (enumerate 0 (ab_items b))"
    using request_error_walk(1) [of ?rc "e_rclock e" ?out EXPIRED_ERROR_CODE ?m] code
    by (simp add: handle_def expired_outcome_def error_verdict_def)
  have "list_all failed_for_good ws \<and> length ws = length xs"
    if "list_all (\<lambda>x. arrival_time x < te) xs"
      "ws = concat (map retrier_work (map (\<lambda>(j, x). executed ?rc (e_rclock e 0 j) ?out x (Again EXPIRED_ERROR_CODE ?m)) (enumerate n xs)))"
    for ws xs n using that
  proof (induction xs arbitrary: ws n)
    case (Cons x xs)
    from expired_executed [of x te ?rc "e_rclock e 0 n" ?out EXPIRED_ERROR_CODE ?m] Cons ttl
    show ?case by (cases "executed ?rc (e_rclock e 0 n) ?out x (Again EXPIRED_ERROR_CODE ?m)") auto
  qed simp
  note walk = this [OF assms(1) refl, of 0]
  have none: "snd (handle ?rc (e_hashrange e) (e_rclock e) (e_inv_at e) ?out) = None"
    by (simp add: handle_def expired_outcome_def)
  have "snd (fst (handle_expired cfg e b reason pl)) =
      concat (map retrier_work (verdicts (fst (handle ?rc (e_hashrange e) (e_rclock e) (e_inv_at e) ?out))))"
    unfolding handle_expired_def handled_def by (simp flip: retrier_work_verdicts)
  with walk v none show ?thesis by (simp only: handle_expired_def handled_def fst_conv snd_conv simp_thms)
qed

definition demo_env :: "real \<Rightarrow> env" where
  "demo_env t = \<lparr>e_now = t, e_ready = False, e_predict = (\<lambda>_. None), e_hashrange = (\<lambda>_ _. None),
     e_lclock = (\<lambda>_. \<lparr>at_new = t, at_expiry = t, at_drain = t, at_take = (\<lambda>_ _. t), at_emit = (\<lambda>_. t)\<rparr>),
     e_put_records = (\<lambda>_ _. Inr None), e_started_at = t, e_ended_at = t, e_rclock = (\<lambda>_ _. t), e_inv_at = (\<lambda>_. t)\<rparr>"

theorem limiter_expiry_is_final_witness:
  "length (snd (fst (handle_expired demo_config (demo_env 40) demo_batch (lit ''Expired'')
     (build_pipeline demo_config [115] :: Pending list pipeline)))) = 2"
proof -
  have "list_all (\<lambda>x. arrival_time x < 1) (ab_items demo_batch)" by (simp add: demo_batch_def demo_buf_def)
  from limiter_expiry_is_final [OF this, of demo_config "build_pipeline demo_config [115] :: Pending list pipeline" "demo_env 40" "lit ''Expired''"]
  show ?thesis
    by (simp add: demo_env_def build_limiter_cfg_def limiter_cfg_of_def demo_config_def config_default_def demo_batch_def)
qed



end
